(* ===== verification/Prelude.thy ===== *)
theory Prelude
  imports Main "HOL-Library.Word"
begin

text \<open>
  What the components of the development share: the machine types of the sources
  (\<open>uint8_t\<close>, \<open>uint32_t\<close>, \<open>uint64_t\<close>, byte buffers), the wire limit of
  \<open>Message.h\<close>, the error numbers of the system calls, the collections of
  simplification rules the proofs use, and generic lemmas on lists and on updates of a
  list at a range of positions (a buffer or a file written at an offset).
\<close>

unbundle bit_operations_syntax

type_synonym u8 = "8 word"
type_synonym u32 = "32 word"
type_synonym u64 = "64 word"
type_synonym bytes = "u8 list"

named_theorems codec_simps
  \<open>equations of the byte codecs: lengths, reads after writes\<close>
named_theorems list_split
  \<open>take, drop and nth on buffers assembled from parts\<close>

section \<open>Constants and error numbers\<close>

text \<open>\<open>constexpr uint32_t messagemaxlen=1024*1024\<close>: shared by the wire protocol and the
  log segments.\<close>

definition messagemaxlen :: u32 where
  "messagemaxlen = 1024 * 1024"

lemma messagemaxlen_eq [simp]: "messagemaxlen = 1048576"
  by (simp add: messagemaxlen_def)

text \<open>The values of \<open>errno\<close> the sources test for. On Linux \<open>EWOULDBLOCK\<close> and
  \<open>EAGAIN\<close> are the same number.\<close>

datatype errno = EINTR | EAGAIN | EEXIST | EMFILE | ENFILE | EOTHER nat

abbreviation EWOULDBLOCK :: errno where
  "EWOULDBLOCK \<equiv> EAGAIN"

section \<open>Buffers and files written at an offset\<close>

text \<open>
  \<open>write_at bs off new\<close> is a byte sequence after \<open>new\<close> was stored from position
  \<open>off\<close> on. Beyond the end the gap is filled with zero bytes, as POSIX says of a file;
  inside a buffer of the program the range always fits, and nothing is filled.
\<close>

definition write_at :: "bytes \<Rightarrow> nat \<Rightarrow> bytes \<Rightarrow> bytes" where
  "write_at bs off new =
     (if new = [] then bs
      else take off bs @ replicate (off - length bs) 0 @ new @ drop (off + length new) bs)"

text \<open>\<open>set_size bs n\<close> is a file after \<open>ftruncate\<close> to \<open>n\<close> bytes: cut, or extended
  with zero bytes.\<close>

definition set_size :: "bytes \<Rightarrow> nat \<Rightarrow> bytes" where
  "set_size bs n = take n bs @ replicate (n - length bs) 0"

lemma write_at_Nil [simp]: "write_at bs off [] = bs"
  by (simp add: write_at_def)

lemma length_write_at:
  "new \<noteq> [] \<Longrightarrow> length (write_at bs off new) = max (length bs) (off + length new)"
  by (auto simp: write_at_def max_def)

lemma length_write_at_in [simp]:
  "off + length new \<le> length bs \<Longrightarrow> length (write_at bs off new) = length bs"
  by (cases "new = []") (simp_all add: length_write_at)

lemma take_write_at [simp]:
  "off \<le> length bs \<Longrightarrow> take off (write_at bs off new) = take off bs"
  by (simp add: write_at_def)

lemma take_write_at_le:
  "k \<le> off \<Longrightarrow> off \<le> length bs \<Longrightarrow> take k (write_at bs off new) = take k bs"
  by (simp add: write_at_def min_def)

lemma write_at_end [simp]: "write_at bs (length bs) new = bs @ new"
  by (simp add: write_at_def)

lemma take_add_write_at [simp]:
  "off \<le> length bs \<Longrightarrow>
   take (off + length new) (write_at bs off new) = take off bs @ new"
  by (simp add: write_at_def)

lemma drop_write_at:
  "off \<le> length bs \<Longrightarrow> drop (off + length new) (write_at bs off new) = drop (off + length new) bs"
  by (cases "new = []") (simp_all add: write_at_def)

lemma write_at_middle:
  "write_at (xs @ ys @ zs) (length xs) new = xs @ new @ zs" if "length ys = length new"
  using that by (cases "new = []") (simp_all add: write_at_def)

lemma write_at_0 [simp]: "length new \<le> length bs \<Longrightarrow> write_at bs 0 new = new @ drop (length new) bs"
  by (simp add: write_at_def)

lemma le_length_write_at: "off \<le> length bs \<Longrightarrow> off \<le> length (write_at bs off new)"
  by (cases "new = []") (simp_all add: length_write_at)

lemma write_at_append:
  "off \<le> length bs \<Longrightarrow>
   write_at (write_at bs off xs) (off + length xs) ys = write_at bs off (xs @ ys)"
  by (cases "xs = []"; cases "ys = []") (simp_all add: write_at_def add_ac)

lemma set_size_le [simp]: "n \<le> length bs \<Longrightarrow> set_size bs n = take n bs"
  by (simp add: set_size_def)

lemma set_size_length [simp]: "set_size bs (length bs) = bs"
  by simp

lemma length_set_size [simp]: "length (set_size bs n) = n"
  by (simp add: set_size_def)

lemma take_set_size: "k \<le> n \<Longrightarrow> k \<le> length bs \<Longrightarrow> take k (set_size bs n) = take k bs"
  by (simp add: set_size_def min_def)

section \<open>Lists\<close>

lemma take_drop_split [list_split]:
  "length bs = n + m \<Longrightarrow> bs = take n bs @ drop n bs"
  by simp

lemma drop_eq_append_length:
  "drop n bs = xs @ ys \<Longrightarrow> drop (n + length xs) bs = ys"
  by (metis add.commute append_eq_conv_conj drop_drop)

lemma take_add_append:
  "n \<le> length bs \<Longrightarrow> drop n bs = xs @ ys \<Longrightarrow> take (n + length xs) bs = take n bs @ xs"
  by (simp add: take_add)

lemma take_take_drop: "n \<le> k \<Longrightarrow> take n (take k bs) = take n bs"
  by (simp add: min_def)

lemma nth_drop_plus: "n + i < length bs \<Longrightarrow> drop n bs ! i = bs ! (n + i)"
  by simp

lemma list4_eq:
  "length bs = 4 \<Longrightarrow> bs = [bs ! 0, bs ! 1, bs ! 2, bs ! 3]"
  by (rule nth_equalityI) (auto simp: less_Suc_eq numeral_eq_Suc)

lemma list8_eq:
  "length bs = 8 \<Longrightarrow>
   bs = [bs ! 0, bs ! 1, bs ! 2, bs ! 3, bs ! 4, bs ! 5, bs ! 6, bs ! 7]"
  by (rule nth_equalityI) (auto simp: less_Suc_eq numeral_eq_Suc)

lemma take4_drop:
  assumes "p + 4 \<le> length bs"
  shows "take 4 (drop p bs) = [bs ! p, bs ! (p + 1), bs ! (p + 2), bs ! (p + 3)]"
  using list4_eq [of "take 4 (drop p bs)"] assms by (simp add: add.commute)

lemma take8_drop:
  assumes "p + 8 \<le> length bs"
  shows "take 8 (drop p bs) = [bs ! p, bs ! (p + 1), bs ! (p + 2), bs ! (p + 3),
     bs ! (p + 4), bs ! (p + 5), bs ! (p + 6), bs ! (p + 7)]"
  using list8_eq [of "take 8 (drop p bs)"] assms by (simp add: add.commute)

lemma take_write_at_0: "take (length data) (write_at buf 0 data) = data"
  by (cases "data = []") (simp_all add: write_at_def)

lemma take_write_at_ge: "k \<le> length data \<Longrightarrow> take k (write_at buf 0 data) = take k data"
  by (metis take_take_drop take_write_at_0)

lemma length_write_at_ge: "length data \<le> length (write_at buf 0 data)"
  by (cases "data = []") (simp_all add: length_write_at)

section \<open>Words\<close>

lemma unat_add_of_nat:
  assumes "unat (x :: u64) + n < 2 ^ 64"
  shows "unat (x + of_nat n) = unat x + n"
proof -
  have "unat (of_nat (unat x + n) :: u64) = unat x + n"
    using assms by (subst unat_of_nat) (simp add: take_bit_nat_eq_self)
  then show ?thesis by simp
qed

lemma sint_unat:
  assumes "unat (x :: u64) < 2 ^ 63"
  shows "sint x = int (unat x)"
proof -
  have "uint x < 2 ^ 63"
    using assms unfolding unat_eq_nat_uint by (simp only: nat_less_numeral_power_cancel_iff)
  moreover have "0 \<le> uint x" by (rule unsigned_greater_eq)
  ultimately have "- (2 ^ 63) \<le> uint x" "uint x < 2 ^ 63" by linarith+
  then show ?thesis by (simp add: sint_uint signed_take_bit_int_eq_self_iff)
qed

lemma unat_u64: "unat (r :: u64) < 18446744073709551616"
  by (rule order.strict_trans2 [OF unsigned_less]) simp

lemma unat_next:
  fixes i r :: u64
  assumes "unat i < unat r"
  shows "unat (i + 1) = unat i + 1"
proof -
  have "unat i + 1 < 18446744073709551616" using assms unat_u64 [of r] by linarith
  then have "unat i + 1 < 2 ^ 64" by simp
  from unat_add_of_nat [OF this] show ?thesis by simp
qed

end
