(* ===== verification/Codec.thy ===== *)
theory Codec
  imports Prelude
begin

text \<open>
  The big-endian integer codecs of \<open>Segment.cpp\<close>: the four functions that read and
  write a \<open>uint32_t\<close> or a \<open>uint64_t\<close> byte by byte. A pointer argument
  \<open>buf + k\<close> is a buffer and a position. The lemmas give the length and content of a
  written buffer, that reading returns what was written, and that the bytes read are
  determined by the value (so that a parsed header can be put back together).
\<close>

section \<open>Bytes of a word, most significant first\<close>

definition be32 :: "u32 \<Rightarrow> bytes" where
  "be32 v = [ucast (drop_bit 24 v AND 0xFF), ucast (drop_bit 16 v AND 0xFF),
             ucast (drop_bit 8 v AND 0xFF), ucast (v AND 0xFF)]"

definition be64 :: "u64 \<Rightarrow> bytes" where
  "be64 v = [ucast (drop_bit 56 v AND 0xFF), ucast (drop_bit 48 v AND 0xFF),
             ucast (drop_bit 40 v AND 0xFF), ucast (drop_bit 32 v AND 0xFF),
             ucast (drop_bit 24 v AND 0xFF), ucast (drop_bit 16 v AND 0xFF),
             ucast (drop_bit 8 v AND 0xFF), ucast (v AND 0xFF)]"

section \<open>The functions of the source\<close>

definition read_crc_big :: "bytes \<Rightarrow> nat \<Rightarrow> u32" where
  "read_crc_big b p =
     push_bit 24 (ucast (b ! p)) OR push_bit 16 (ucast (b ! (p + 1))) OR
     push_bit 8 (ucast (b ! (p + 2))) OR push_bit 0 (ucast (b ! (p + 3)))"

definition read_u64_be :: "bytes \<Rightarrow> nat \<Rightarrow> u64" where
  "read_u64_be b p =
     push_bit 56 (ucast (b ! p)) OR push_bit 48 (ucast (b ! (p + 1))) OR
     push_bit 40 (ucast (b ! (p + 2))) OR push_bit 32 (ucast (b ! (p + 3))) OR
     push_bit 24 (ucast (b ! (p + 4))) OR push_bit 16 (ucast (b ! (p + 5))) OR
     push_bit 8 (ucast (b ! (p + 6))) OR ucast (b ! (p + 7))"

definition write_u32_be :: "bytes \<Rightarrow> nat \<Rightarrow> u32 \<Rightarrow> bytes" where
  "write_u32_be b p v =
     b[p     := ucast (drop_bit 24 v AND 0xFF),
       p + 1 := ucast (drop_bit 16 v AND 0xFF),
       p + 2 := ucast (drop_bit 8 v AND 0xFF),
       p + 3 := ucast (v AND 0xFF)]"

definition write_u64_be :: "bytes \<Rightarrow> nat \<Rightarrow> u64 \<Rightarrow> bytes" where
  "write_u64_be b p v =
     b[p     := ucast (drop_bit 56 v AND 0xFF),
       p + 1 := ucast (drop_bit 48 v AND 0xFF),
       p + 2 := ucast (drop_bit 40 v AND 0xFF),
       p + 3 := ucast (drop_bit 32 v AND 0xFF),
       p + 4 := ucast (drop_bit 24 v AND 0xFF),
       p + 5 := ucast (drop_bit 16 v AND 0xFF),
       p + 6 := ucast (drop_bit 8 v AND 0xFF),
       p + 7 := ucast (v AND 0xFF)]"

section \<open>Lengths and contents\<close>

lemma length_be32 [simp]: "length (be32 v) = 4"
  by (simp add: be32_def)

lemma length_be64 [simp]: "length (be64 v) = 8"
  by (simp add: be64_def)

lemma length_write_u32_be [simp]: "length (write_u32_be b p v) = length b"
  by (simp add: write_u32_be_def)

lemma length_write_u64_be [simp]: "length (write_u64_be b p v) = length b"
  by (simp add: write_u64_be_def)


section \<open>Joining and splitting a word\<close>

lemma mask8: "(0xFF :: 'a::len word) = mask 8"
  by (simp add: mask_eq_exp_minus_1)

lemma bit_byte: "bit (b :: u8) n \<Longrightarrow> n < 8"
  using bit_imp_le_length [of b n] by simp

lemma word_eq_list:
  fixes v w :: "'a::len word"
  assumes "list_all (\<lambda>n. bit v n = bit w n) [0..<LENGTH('a)]"
  shows "v = w"
  using assms by (auto intro: bit_word_eqI simp: list_all_iff)

lemma join32:
  "push_bit 24 (ucast (ucast (drop_bit 24 v AND 0xFF :: u32) :: u8)) OR
   push_bit 16 (ucast (ucast (drop_bit 16 v AND 0xFF :: u32) :: u8)) OR
   push_bit 8 (ucast (ucast (drop_bit 8 v AND 0xFF :: u32) :: u8)) OR
   push_bit 0 (ucast (ucast (v AND 0xFF :: u32) :: u8)) = (v :: u32)"
  unfolding mask8
  by (rule word_eq_list) (simp add: bit_simps upt_rec, simp add: numeral_eq_Suc)
lemma join64:
  "push_bit 56 (ucast (ucast (drop_bit 56 v AND 0xFF :: u64) :: u8)) OR
   push_bit 48 (ucast (ucast (drop_bit 48 v AND 0xFF :: u64) :: u8)) OR
   push_bit 40 (ucast (ucast (drop_bit 40 v AND 0xFF :: u64) :: u8)) OR
   push_bit 32 (ucast (ucast (drop_bit 32 v AND 0xFF :: u64) :: u8)) OR
   push_bit 24 (ucast (ucast (drop_bit 24 v AND 0xFF :: u64) :: u8)) OR
   push_bit 16 (ucast (ucast (drop_bit 16 v AND 0xFF :: u64) :: u8)) OR
   push_bit 8 (ucast (ucast (drop_bit 8 v AND 0xFF :: u64) :: u8)) OR
   ucast (ucast (v AND 0xFF :: u64) :: u8) = (v :: u64)"
  unfolding mask8
  by (rule word_eq_list) (simp add: bit_simps upt_rec, simp add: numeral_eq_Suc)
lemma split32:
  fixes a b c d :: u8
  defines "v \<equiv> (push_bit 24 (ucast a) OR push_bit 16 (ucast b) OR push_bit 8 (ucast c) OR push_bit 0 (ucast d) :: u32)"
  shows "ucast (drop_bit 24 v AND 0xFF) = a" "ucast (drop_bit 16 v AND 0xFF) = b"
   "ucast (drop_bit 8 v AND 0xFF) = c" "ucast (v AND 0xFF) = d"
  unfolding v_def mask8
  by (rule bit_word_eqI; auto simp: bit_simps dest: bit_byte)+
lemma split64:
  fixes a b c d e f g h:: u8
  defines "v \<equiv> (push_bit 56 (ucast a) OR push_bit 48 (ucast b) OR push_bit 40 (ucast c) OR push_bit 32 (ucast d)
   OR push_bit 24 (ucast e) OR push_bit 16 (ucast f) OR push_bit 8 (ucast g) OR ucast h :: u64)"
  shows "ucast (drop_bit 56 v AND 0xFF) = a" "ucast (drop_bit 48 v AND 0xFF) = b"
   "ucast (drop_bit 40 v AND 0xFF) = c" "ucast (drop_bit 32 v AND 0xFF) = d"
   "ucast (drop_bit 24 v AND 0xFF) = e" "ucast (drop_bit 16 v AND 0xFF) = f"
   "ucast (drop_bit 8 v AND 0xFF) = g" "ucast (v AND 0xFF) = h"
  unfolding v_def mask8
  by (rule bit_word_eqI; auto simp: bit_simps dest: bit_byte)+

section \<open>Reading and writing\<close>

lemma write_u32_be_eq:
  assumes "p + 4 \<le> length b"
  shows "write_u32_be b p v = take p b @ be32 v @ drop (p + 4) b"
proof -
  have b: "b = take p b @ [b!p, b!(p+1), b!(p+2), b!(p+3)] @ drop (p+4) b"
    using take4_drop[OF assms] by (metis append_take_drop_id drop_drop add.commute)
  show ?thesis unfolding write_u32_be_def
    by (subst b) (use assms in \<open>simp add: be32_def list_update_append\<close>)
qed
lemma write_u64_be_eq:
  assumes "p + 8 \<le> length b"
  shows "write_u64_be b p v = take p b @ be64 v @ drop (p + 8) b"
proof -
  have b: "b = take p b @ [b!p, b!(p+1), b!(p+2), b!(p+3), b!(p+4), b!(p+5), b!(p+6), b!(p+7)] @ drop (p+8) b"
    using take8_drop[OF assms] by (metis append_take_drop_id drop_drop add.commute)
  show ?thesis unfolding write_u64_be_def
    by (subst b) (use assms in \<open>simp add: be64_def list_update_append\<close>)
qed

lemma read_crc_big_be32 [simp]: "read_crc_big (be32 v) 0 = v"
  using join32 [of v] by (simp add: read_crc_big_def be32_def numeral_eq_Suc)

lemma read_u64_be_be64 [simp]: "read_u64_be (be64 v) 0 = v"
  using join64 [of v] by (simp add: read_u64_be_def be64_def numeral_eq_Suc)

lemma read_crc_big_appendR [codec_simps]:
  "length xs \<le> p \<Longrightarrow> read_crc_big (xs @ ys) p = read_crc_big ys (p - length xs)"
  by (simp add: read_crc_big_def nth_append Suc_diff_le)

lemma read_u64_be_appendR [codec_simps]:
  "length xs \<le> p \<Longrightarrow> read_u64_be (xs @ ys) p = read_u64_be ys (p - length xs)"
  by (simp add: read_u64_be_def nth_append Suc_diff_le)

lemma read_crc_big_appendL [codec_simps]:
  "p + 4 \<le> length xs \<Longrightarrow> read_crc_big (xs @ ys) p = read_crc_big xs p"
  by (simp add: read_crc_big_def nth_append)

lemma read_u64_be_appendL [codec_simps]:
  "p + 8 \<le> length xs \<Longrightarrow> read_u64_be (xs @ ys) p = read_u64_be xs p"
  by (simp add: read_u64_be_def nth_append)

lemma read_crc_big_drop:
  "p + k + 4 \<le> length b \<Longrightarrow> read_crc_big (drop k b) p = read_crc_big b (k + p)"
  by (simp add: read_crc_big_def add.assoc)

lemma read_u64_be_drop:
  "p + k + 8 \<le> length b \<Longrightarrow> read_u64_be (drop k b) p = read_u64_be b (k + p)"
  by (simp add: read_u64_be_def add.assoc)

lemma read_crc_big_take:
  "p + 4 \<le> k \<Longrightarrow> read_crc_big (take k b) p = read_crc_big b p"
  by (simp add: read_crc_big_def)

lemma read_u64_be_take:
  "p + 8 \<le> k \<Longrightarrow> read_u64_be (take k b) p = read_u64_be b p"
  by (simp add: read_u64_be_def)

text \<open>The bytes read are the bytes of the value: the other direction of the round trip.\<close>

lemma be32_read:
  assumes "p + 4 \<le> length b"
  shows "be32 (read_crc_big b p) = take 4 (drop p b)"
  unfolding take4_drop [OF assms] be32_def read_crc_big_def by (simp only: split32)

lemma be64_read:
  assumes "p + 8 \<le> length b"
  shows "be64 (read_u64_be b p) = take 8 (drop p b)"
  unfolding take8_drop [OF assms] be64_def read_u64_be_def by (simp only: split64)

lemma be32_inject [simp]: "be32 v = be32 w \<longleftrightarrow> v = w"
  by (metis read_crc_big_be32)

lemma be64_inject [simp]: "be64 v = be64 w \<longleftrightarrow> v = w"
  by (metis read_u64_be_be64)

lemma read_write_u32_be:
  "p + 4 \<le> length b \<Longrightarrow> read_crc_big (write_u32_be b p v) p = v"
  by (simp add: write_u32_be_eq codec_simps)

lemma read_write_u64_be:
  "p + 8 \<le> length b \<Longrightarrow> read_u64_be (write_u64_be b p v) p = v"
  by (simp add: write_u64_be_eq codec_simps)

end
