(* ===== verification/Message.thy ===== *)
theory Message
  imports Codec
begin

text \<open>
  The wire protocol of \<open>src/Message.cpp\<close> and \<open>include/Message.h\<close>: a frame is a
  four-byte big-endian length and the payload. \<open>encode\<close> builds one; the class
  \<open>messagedecode\<close> takes the bytes of a stream as they arrive (\<open>feed\<close>), cuts them
  into messages (\<open>take\<close>) and stops for good at a length above \<open>messagemaxlen\<close>
  (\<open>brokenmessage\<close>).

  The abstract specification is \<open>parse\<close>, the frames of one complete byte sequence. The
  lemmas show that the decoder refines it whatever the cuts between the chunks, that the
  decoder inverts \<open>encode\<close>, that the read position stays a small \<open>int\<close> and that the
  bytes kept between two calls are bounded.
\<close>

section \<open>The code\<close>

text \<open>\<open>htonl\<close> and the copy of its four bytes put the length on the wire most significant
  byte first; \<open>static_cast<uint32_t>\<close> wraps it.\<close>

definition encode :: "bytes \<Rightarrow> bytes" where
  "encode m = be32 (of_nat (length m)) @ m"

text \<open>The private fields of \<open>messagedecode\<close> with their initial values. \<open>idx\<close> is an
  \<open>int\<close>; \<open>feed_inv\<close> below bounds it by \<open>2^21\<close>, and shows that the difference
  \<open>Inputbuf.size()-idx\<close> never wraps.\<close>

record messagedecode =
  dec_Inputbuf :: bytes
  dec_msg :: "bytes list"
  dec_error :: bool
  dec_idx :: nat

definition messagedecode_init :: messagedecode where
  "messagedecode_init = \<lparr>dec_Inputbuf = [], dec_msg = [], dec_error = False, dec_idx = 0\<rparr>"

text \<open>The compaction at the head of the loop of \<open>feed\<close>: the consumed prefix is dropped
  once it is longer than half a mebibyte.\<close>

definition compact :: "messagedecode \<Rightarrow> messagedecode" where
  "compact d =
     (if 1024 * 512 < dec_idx d
      then d\<lparr>dec_Inputbuf := drop (dec_idx d) (dec_Inputbuf d), dec_idx := 0\<rparr>
      else d)"

lemma compact_left [simp]: "length (dec_Inputbuf (compact d)) - dec_idx (compact d) = length (dec_Inputbuf d) - dec_idx d"
  by (simp add: compact_def)

text \<open>The loop \<open>while(1)\<close> of \<open>feed\<close>. \<open>memcpy\<close> and \<open>ntohl\<close> read the length big-endian.\<close>

function feed_loop :: "messagedecode \<Rightarrow> messagedecode" where
  "feed_loop d0 =
     (let d = compact d0 in
      if length (dec_Inputbuf d) - dec_idx d < 4 then d
      else let msg_len = read_crc_big (dec_Inputbuf d) (dec_idx d) in
        if msg_len > messagemaxlen
        then d\<lparr>dec_error := True, dec_Inputbuf := [], dec_idx := 0\<rparr>
        else if length (dec_Inputbuf d) - dec_idx d - 4 < unat msg_len then d
        else let i = dec_idx d + 4;
                 ans = List.take (unat msg_len) (drop i (dec_Inputbuf d))
             in feed_loop (d\<lparr>dec_msg := dec_msg d @ [ans], dec_idx := i + unat msg_len\<rparr>))"
  by pat_completeness auto
termination
  by (relation "measure (\<lambda>d. length (dec_Inputbuf d) - dec_idx d)") (auto simp: compact_def Let_def)

declare feed_loop.simps [simp del]

definition feed :: "messagedecode \<Rightarrow> bytes \<Rightarrow> messagedecode" where
  "feed d data = (if dec_error d then d else feed_loop (d\<lparr>dec_Inputbuf := dec_Inputbuf d @ data\<rparr>))"

definition take_msgs :: "messagedecode \<Rightarrow> bytes list \<times> messagedecode" where
  "take_msgs d = (dec_msg d, d\<lparr>dec_msg := []\<rparr>)"

definition brokenmessage :: "messagedecode \<Rightarrow> bool" where
  "brokenmessage d = dec_error d"

section \<open>The specification: the frames of a byte sequence\<close>

text \<open>The messages of the complete frames, the bytes of the incomplete last frame, and
  whether a frame announced more than \<open>messagemaxlen\<close> bytes.\<close>

function parse :: "bytes \<Rightarrow> bytes list \<times> bytes \<times> bool" where
  "parse bs =
     (if length bs < 4 then ([], bs, False)
      else let n = read_crc_big bs 0 in
        if n > messagemaxlen then ([], [], True)
        else if length bs < 4 + unat n then ([], bs, False)
        else case parse (drop (4 + unat n) bs) of
          (ms, rest, bad) \<Rightarrow> (List.take (unat n) (drop 4 bs) # ms, rest, bad))"
  by pat_completeness auto
termination
  by (relation "measure length") auto

declare parse.simps [simp del]

text \<open>What a caller can observe of a decoder: the messages ready, the undecoded bytes, the
  error flag.\<close>

definition pending :: "messagedecode \<Rightarrow> bytes" where
  "pending d = drop (dec_idx d) (dec_Inputbuf d)"

definition view :: "messagedecode \<Rightarrow> bytes list \<times> bytes \<times> bool" where
  "view d = (dec_msg d, pending d, dec_error d)"

definition feed_inv :: "messagedecode \<Rightarrow> bool" where
  "feed_inv d \<longleftrightarrow> dec_idx d \<le> length (dec_Inputbuf d) \<and> dec_idx d \<le> 1024 * 512 + 4 + unat messagemaxlen
     \<and> (dec_error d \<longrightarrow> dec_Inputbuf d = [])"

subsection \<open>One turn of the loop\<close>

lemma compact_simps [simp]:
  "pending (compact d) = pending d"
  "dec_msg (compact d) = dec_msg d"
  "dec_error (compact d) = dec_error d"
  by (simp_all add: compact_def pending_def)

lemma compact_idx: "dec_idx (compact d) \<le> 1024 * 512"
  by (simp add: compact_def)

lemma compact_idx_le:
  "dec_idx d \<le> length (dec_Inputbuf d) \<Longrightarrow>
   dec_idx (compact d) \<le> length (dec_Inputbuf (compact d))"
  by (simp add: compact_def)

lemma compact_room:
  "dec_idx d \<le> length (dec_Inputbuf d) \<Longrightarrow> k \<le> length (pending d) \<Longrightarrow>
   dec_idx (compact d) + k \<le> length (dec_Inputbuf (compact d))"
  by (auto simp: compact_def pending_def)

lemma length_pending: "length (pending d) = length (dec_Inputbuf d) - dec_idx d"
  by (simp add: pending_def)

lemma read_pending:
  "4 \<le> length (pending d) \<Longrightarrow>
   read_crc_big (dec_Inputbuf d) (dec_idx d) = read_crc_big (pending d) 0"
  by (simp add: pending_def read_crc_big_drop)

text \<open>The decoder after a complete frame with \<open>n\<close> bytes of payload.\<close>

definition consume :: "messagedecode \<Rightarrow> nat \<Rightarrow> messagedecode" where
  "consume d n = d\<lparr>dec_msg := dec_msg d @ [take n (drop 4 (pending d))], dec_idx := dec_idx d + 4 + n\<rparr>"

lemma consume_simps [simp]:
  "pending (consume d n) = drop (4 + n) (pending d)"
  "dec_msg (consume d n) = dec_msg d @ [take n (drop 4 (pending d))]"
  "dec_error (consume d n) = dec_error d"
  "dec_Inputbuf (consume d n) = dec_Inputbuf d"
  "dec_idx (consume d n) = dec_idx d + 4 + n"
  by (simp_all add: consume_def pending_def add_ac)

lemma feed_loop_short: "length (pending d) < 4 \<Longrightarrow> feed_loop d = compact d"
  by (simp add: feed_loop.simps [of d] length_pending Let_def)

lemma feed_loop_bad:
  assumes "4 \<le> length (pending d)" "read_crc_big (pending d) 0 > messagemaxlen"
  shows "feed_loop d = (compact d)\<lparr>dec_error := True, dec_Inputbuf := [], dec_idx := 0\<rparr>"
proof -
  have "read_crc_big (dec_Inputbuf (compact d)) (dec_idx (compact d)) = read_crc_big (pending d) 0"
    using read_pending [of "compact d"] assms by simp
  then show ?thesis using assms by (simp add: feed_loop.simps [of d] length_pending Let_def)
qed

lemma feed_loop_partial:
  assumes "4 \<le> length (pending d)" "\<not> read_crc_big (pending d) 0 > messagemaxlen"
    "length (pending d) < 4 + unat (read_crc_big (pending d) 0)"
  shows "feed_loop d = compact d"
proof -
  have "read_crc_big (dec_Inputbuf (compact d)) (dec_idx (compact d)) = read_crc_big (pending d) 0"
    using read_pending [of "compact d"] assms by simp
  then show ?thesis using assms by (auto simp add: feed_loop.simps [of d] length_pending Let_def)
qed

lemma feed_loop_frame:
  assumes "4 + unat (read_crc_big (pending d) 0) \<le> length (pending d)"
    "\<not> read_crc_big (pending d) 0 > messagemaxlen"
  shows "feed_loop d = feed_loop (consume (compact d) (unat (read_crc_big (pending d) 0)))"
proof -
  have "read_crc_big (dec_Inputbuf (compact d)) (dec_idx (compact d)) = read_crc_big (pending d) 0"
    using read_pending [of "compact d"] assms by simp
  then show ?thesis using assms
    by (subst feed_loop.simps) (simp add: length_pending Let_def consume_def pending_def add_ac)
qed

lemmas feed_loop_steps = feed_loop_short feed_loop_bad feed_loop_partial feed_loop_frame

lemma parse_short: "length bs < 4 \<Longrightarrow> parse bs = ([], bs, False)"
  by (simp add: parse.simps [of bs])

lemma parse_bad:
  "4 \<le> length bs \<Longrightarrow> read_crc_big bs 0 > messagemaxlen \<Longrightarrow> parse bs = ([], [], True)"
  by (simp add: parse.simps [of bs])

lemma parse_partial:
  "4 \<le> length bs \<Longrightarrow> \<not> read_crc_big bs 0 > messagemaxlen \<Longrightarrow>
   length bs < 4 + unat (read_crc_big bs 0) \<Longrightarrow> parse bs = ([], bs, False)"
  by (simp add: parse.simps [of bs] Let_def)

lemma parse_frame:
  assumes "4 + unat (read_crc_big bs 0) \<le> length bs" "\<not> read_crc_big bs 0 > messagemaxlen"
  shows "parse bs = (case parse (drop (4 + unat (read_crc_big bs 0)) bs) of
    (ms, rest, bad) \<Rightarrow> (take (unat (read_crc_big bs 0)) (drop 4 bs) # ms, rest, bad))"
  using assms by (subst parse.simps) (simp add: Let_def)

lemma frame_cases:
  fixes bs :: bytes
  obtains (short) "length bs < 4"
  | (bad) "4 \<le> length bs" "read_crc_big bs 0 > messagemaxlen"
  | (partial) "4 \<le> length bs" "\<not> read_crc_big bs 0 > messagemaxlen"
      "length bs < 4 + unat (read_crc_big bs 0)"
  | (frame) "4 + unat (read_crc_big bs 0) \<le> length bs" "\<not> read_crc_big bs 0 > messagemaxlen"
  by linarith

lemma feed_loop_view:
  "dec_idx d \<le> length (dec_Inputbuf d) \<Longrightarrow> \<not> dec_error d \<Longrightarrow>
   view (feed_loop d) = (case parse (pending d) of (ms, rest, bad) \<Rightarrow> (dec_msg d @ ms, rest, bad))"
proof (induction "length (pending d)" arbitrary: d rule: less_induct)
  case less
  show ?case
  proof (cases "pending d" rule: frame_cases)
    case short
    then show ?thesis using less.prems by (simp add: feed_loop_short parse_short view_def)
  next
    case bad
    then show ?thesis by (simp add: feed_loop_bad parse_bad view_def pending_def)
  next
    case partial
    then show ?thesis using less.prems by (simp add: feed_loop_partial parse_partial view_def)
  next
    case frame
    let ?d = "consume (compact d) (unat (read_crc_big (pending d) 0))"
    have "dec_idx ?d \<le> length (dec_Inputbuf ?d)"
      using compact_room [OF less.prems(1) frame(1)] by simp
    then have "view (feed_loop ?d) = (case parse (pending ?d) of (ms, rest, bad) \<Rightarrow> (dec_msg ?d @ ms, rest, bad))"
      using frame less.prems by (intro less.hyps) simp_all
    then show ?thesis
      using frame by (simp add: feed_loop_frame parse_frame [of "pending d"] split: prod.splits)
  qed
qed

lemma feed_loop_inv: "feed_inv d \<Longrightarrow> \<not> dec_error d \<Longrightarrow> feed_inv (feed_loop d)"
proof (induction "length (pending d)" arbitrary: d rule: less_induct)
  case less
  have c: "feed_inv (compact d)" using less.prems by (simp add: feed_inv_def compact_def)
  show ?case
  proof (cases "pending d" rule: frame_cases)
    case frame
    let ?n = "unat (read_crc_big (pending d) 0)"
    have n: "?n \<le> unat messagemaxlen" using frame(2) by (simp only: not_less word_le_nat_alt)
    have "feed_inv (consume (compact d) ?n)"
      using compact_room [OF _ frame(1)] n c compact_idx [of d] less.prems
      by (simp add: feed_inv_def)
    then show ?thesis using frame less by (simp add: feed_loop_frame)
  qed (use c in \<open>simp_all add: feed_loop_steps feed_inv_def\<close>)
qed

subsection \<open>The specification: cuts and encodings\<close>

lemma parse_append:
  "parse a = (ms, r, bad) \<Longrightarrow>
   parse (a @ b) = (if bad then (ms, [], True)
     else case parse (r @ b) of (ms', r', bad') \<Rightarrow> (ms @ ms', r', bad'))"
proof (induction "length a" arbitrary: a ms rule: less_induct)
  case less
  show ?case
  proof (cases a rule: frame_cases)
    case short
    then show ?thesis using less.prems by (auto simp: parse_short split: prod.splits)
  next
    case bad
    then show ?thesis using less.prems by (simp add: parse_bad codec_simps)
  next
    case partial
    then show ?thesis using less.prems by (auto simp: parse_partial split: prod.splits)
  next
    case frame
    let ?n = "unat (read_crc_big a 0)"
    obtain ms' where p: "parse (drop (4 + ?n) a) = (ms', r, bad)"
      and ms: "ms = take ?n (drop 4 a) # ms'"
      using less.prems frame by (auto simp: parse_frame split: prod.splits)
    have rd: "read_crc_big (a @ b) 0 = read_crc_big a 0"
      using frame(1) by (intro read_crc_big_appendL) simp
    have "parse (drop (4 + ?n) a @ b) = (if bad then (ms', [], True)
       else case parse (r @ b) of (ms'', r', bad') \<Rightarrow> (ms' @ ms'', r', bad'))"
      using frame by (intro less.hyps p) simp
    then show ?thesis
      using frame ms by (simp add: parse_frame [of "a @ b"] rd split: prod.splits)
  qed
qed

lemma parse_rest_bound:
  "parse bs = (ms, r, bad) \<Longrightarrow> length r < 4 + unat messagemaxlen"
proof (induction "length bs" arbitrary: bs ms rule: less_induct)
  case less
  show ?case
  proof (cases bs rule: frame_cases)
    case partial
    then have "unat (read_crc_big bs 0) \<le> unat messagemaxlen"
      by (simp only: not_less word_le_nat_alt)
    with partial less.prems show ?thesis by (simp add: parse_partial)
  next
    case frame
    then have "length (drop (4 + unat (read_crc_big bs 0)) bs) < length bs" by simp
    with frame less.prems less.hyps [of "drop (4 + unat (read_crc_big bs 0)) bs"] show ?thesis
      by (auto simp: parse_frame split: prod.splits)
  qed (use less.prems in \<open>simp_all add: parse_short parse_bad\<close>)
qed

lemma unat_of_length: "n < 2 ^ 32 \<Longrightarrow> unat (of_nat n :: u32) = n"
  by (simp add: unat_of_nat)

lemma length_ok_iff:
  "n < 2 ^ 32 \<Longrightarrow> (of_nat n :: u32) > messagemaxlen \<longleftrightarrow> unat messagemaxlen < n"
  by (simp add: word_less_nat_alt unat_of_nat)

lemma parse_encode:
  assumes "length m \<le> unat messagemaxlen"
  shows "parse (encode m @ bs) = (case parse bs of (ms, r, bad) \<Rightarrow> (m # ms, r, bad))"
proof -
  have n: "unat (of_nat (length m) :: u32) = length m"
    using assms by (intro unat_of_length) simp
  have rd: "read_crc_big (encode m @ bs) 0 = of_nat (length m)"
    by (simp add: encode_def codec_simps)
  have ok: "\<not> (of_nat (length m) :: u32) > messagemaxlen"
    using assms by (subst length_ok_iff) simp_all
  show ?thesis
    by (subst parse_frame) (use ok in \<open>simp_all add: rd n, simp_all add: encode_def\<close>)
qed

lemma parse_encode_oversize:
  assumes "unat messagemaxlen < length m" "length m < 2 ^ 32"
  shows "parse (encode m @ bs) = ([], [], True)"
proof -
  have "read_crc_big (encode m @ bs) 0 = of_nat (length m)"
    by (simp add: encode_def codec_simps)
  then show ?thesis
    using assms length_ok_iff [of "length m"] by (intro parse_bad) (simp_all add: encode_def)
qed

lemma parse_encodes:
  "\<forall>m \<in> set ms. length m \<le> unat messagemaxlen \<Longrightarrow>
   parse (concat (map encode ms) @ bs) = (case parse bs of (ms', r, bad) \<Rightarrow> (ms @ ms', r, bad))"
  by (induction ms) (simp_all add: parse_encode split: prod.splits)

lemma parse_Nil [simp]: "parse [] = ([], [], False)"
  by (simp add: parse_short)

section \<open>The decoder refines the specification\<close>

lemma feed_inv_init: "feed_inv messagedecode_init"
  by (simp add: feed_inv_def messagedecode_init_def)

lemma feed_inv_feed: "feed_inv d \<Longrightarrow> feed_inv (feed d bs)"
  using feed_loop_inv [of "d\<lparr>dec_Inputbuf := dec_Inputbuf d @ bs\<rparr>"]
  by (cases "dec_error d") (auto simp: feed_def feed_inv_def)

lemma feed_inv_take: "feed_inv d \<Longrightarrow> feed_inv (snd (take_msgs d))"
  by (simp add: feed_inv_def take_msgs_def)

lemma feed_view:
  assumes "feed_inv d" "\<not> dec_error d"
  shows "view (feed d bs) =
    (case parse (pending d @ bs) of (ms, rest, bad) \<Rightarrow> (dec_msg d @ ms, rest, bad))"
  using assms feed_loop_view [of "d\<lparr>dec_Inputbuf := dec_Inputbuf d @ bs\<rparr>"]
  by (simp add: feed_def feed_inv_def pending_def)

text \<open>A decoder whose messages were all taken, fed with one more chunk.\<close>

lemma feed_parse:
  assumes "parse received = (ms, pending d, False)" "dec_msg d = []" "\<not> dec_error d" "feed_inv d"
  shows "parse (received @ data) = (ms @ dec_msg (feed d data), pending (feed d data), dec_error (feed d data))"
proof -
  obtain ms' rest bad where p: "parse (pending d @ data) = (ms', rest, bad)" by (metis prod_cases3)
  then have "dec_msg (feed d data) = ms'" "pending (feed d data) = rest" "dec_error (feed d data) = bad"
    using feed_view [OF assms(4,3), of data] assms(2) by (simp_all add: view_def)
  then show ?thesis using parse_append [OF assms(1), of data] p by simp
qed

definition feeds :: "messagedecode \<Rightarrow> bytes list \<Rightarrow> messagedecode" where
  "feeds = foldl feed"

lemma feeds_simps [simp]: "feeds d [] = d" "feeds d (c # cs) = feeds (feed d c) cs"
  by (simp_all add: feeds_def)

lemma feeds_snoc: "feeds d (cs @ [c]) = feed (feeds d cs) c"
  by (simp add: feeds_def)

lemma feeds_inv: "feed_inv d \<Longrightarrow> feed_inv (feeds d cs)"
  by (induction cs arbitrary: d) (simp_all add: feed_inv_feed)

lemma feeds_view: "view (feeds messagedecode_init cs) = parse (concat cs)"
proof (induction cs rule: rev_induct)
  case Nil
  show ?case by (simp add: view_def pending_def messagedecode_init_def)
next
  case (snoc c cs)
  let ?d = "feeds messagedecode_init cs"
  have inv: "feed_inv ?d" by (rule feeds_inv [OF feed_inv_init])
  from snoc have p: "parse (concat cs) = (dec_msg ?d, pending ?d, dec_error ?d)"
    by (simp add: view_def)
  show ?case
  proof (cases "dec_error ?d")
    case True
    then show ?thesis using parse_append [OF p] inv
      by (simp add: feeds_snoc feed_def view_def pending_def feed_inv_def)
  next
    case False
    then show ?thesis using parse_append [OF p] feed_view [OF inv False]
      by (simp add: feeds_snoc split: prod.splits)
  qed
qed

text \<open>Any sequence of calls: the messages taken, the decoder, and the bytes fed.\<close>

datatype decoder_call = Feed bytes | Take

fun decoder_run :: "messagedecode \<Rightarrow> decoder_call list \<Rightarrow> bytes list \<times> messagedecode" where
  "decoder_run d [] = ([], d)"
| "decoder_run d (Feed data # calls) = decoder_run (feed d data) calls"
| "decoder_run d (Take # calls) = (case take_msgs d of (ms, d) \<Rightarrow> case decoder_run d calls of (ts, d) \<Rightarrow> (ms @ ts, d))"

fun fed :: "decoder_call list \<Rightarrow> bytes" where
  "fed [] = []"
| "fed (Feed data # calls) = data @ fed calls"
| "fed (Take # calls) = fed calls"

lemma decoder_run_parse:
  assumes "feed_inv d" "parse received = (ts0 @ dec_msg d, pending d, dec_error d)" "decoder_run d calls = (ts, d')"
  shows "feed_inv d' \<and> parse (received @ fed calls) = ((ts0 @ ts) @ dec_msg d', pending d', dec_error d')"
  using assms
proof (induction d calls arbitrary: received ts0 ts rule: decoder_run.induct)
  case (2 d data calls)
  have "parse (received @ data) = (ts0 @ dec_msg (feed d data), pending (feed d data), dec_error (feed d data))"
  proof (cases "dec_error d")
    case True
    then show ?thesis using parse_append [OF "2.prems"(2), of data] "2.prems"(1)
      by (simp add: feed_def pending_def feed_inv_def)
  next
    case False
    then show ?thesis using parse_append [OF "2.prems"(2), of data] feed_view [OF "2.prems"(1) False, of data]
      by (auto simp: view_def split: prod.splits)
  qed
  from "2.IH" [OF feed_inv_feed [OF "2.prems"(1)] this, of ts] "2.prems"(3) show ?case by simp
next
  case (3 d calls)
  obtain ts' where r: "decoder_run (d\<lparr>dec_msg := []\<rparr>) calls = (ts', d')" "ts = dec_msg d @ ts'"
    using "3.prems"(3) by (auto simp: take_msgs_def split: prod.splits)
  have i: "feed_inv (d\<lparr>dec_msg := []\<rparr>)" using feed_inv_take [OF "3.prems"(1)] by (simp add: take_msgs_def)
  have "parse received = ((ts0 @ dec_msg d) @ dec_msg (d\<lparr>dec_msg := []\<rparr>), pending (d\<lparr>dec_msg := []\<rparr>), dec_error (d\<lparr>dec_msg := []\<rparr>))"
    using "3.prems"(2) by (simp add: pending_def)
  from "3.IH" [OF take_msgs_def [symmetric] i this r(1)] show ?case using r(2) by (simp add: take_msgs_def)
qed simp

lemma parse_size:
  "parse bs = (ms, rest, bad) \<Longrightarrow> sum_list (map (\<lambda>m. 4 + length m) ms) + length rest \<le> length bs"
proof (induction "length bs" arbitrary: bs ms rule: less_induct)
  case less
  show ?case
  proof (cases bs rule: frame_cases)
    case frame
    let ?n = "unat (read_crc_big bs 0)"
    obtain ms' where p: "parse (drop (4 + ?n) bs) = (ms', rest, bad)" and ms: "ms = take ?n (drop 4 bs) # ms'"
      using less.prems frame by (auto simp: parse_frame split: prod.splits)
    have "length (drop (4 + ?n) bs) < length bs" using frame by simp
    from less.hyps [OF this p] show ?thesis using ms frame by simp
  qed (use less.prems in \<open>simp_all add: parse_short parse_bad parse_partial\<close>)
qed

section \<open>Properties\<close>

text \<open>Property C1. The decoder refines the specification however the stream is cut: after any
  sequence of \<open>feed\<close> calls, the messages waiting, the undecoded bytes and the error flag
  are those of \<open>parse\<close> on the concatenation of the chunks.
\<close>

theorem decoder_refines_parse:
  "view (foldl feed messagedecode_init chunks) = parse (concat chunks)"
  using feeds_view by (simp add: feeds_def)

text \<open>Property C6. Round trip: whatever list of messages of at most one mebibyte each is encoded,
  and however the bytes are cut into chunks, \<open>take\<close> returns exactly these messages in
  order, the queue is then empty, no byte is left over and the decoder is not broken.
\<close>

theorem decode_encode:
  assumes "\<forall>m \<in> set ms. length m \<le> unat messagemaxlen"
    and "concat chunks = concat (map encode ms)"
  shows "let d = foldl feed messagedecode_init chunks in
    fst (take_msgs d) = ms \<and> dec_msg (snd (take_msgs d)) = [] \<and>
    pending d = [] \<and> \<not> brokenmessage d"
proof -
  have "parse (concat chunks) = (ms, [], False)"
    using parse_encodes [OF assms(1), of "[]"] assms(2) by simp
  then show ?thesis
    using feeds_view [of chunks] by (simp add: feeds_def view_def take_msgs_def brokenmessage_def Let_def)
qed

theorem decode_encode_witness:
  "let d = foldl feed messagedecode_init
       [[0, 0], [0, 2, 104], [105, 0, 0], [0], [0, 0, 0, 0], [1, 33]] in
    fst (take_msgs d) = [[104, 105], [], [33]] \<and> dec_msg (snd (take_msgs d)) = [] \<and>
    pending d = [] \<and> \<not> brokenmessage d"
  by (rule decode_encode) (simp_all add: encode_def be32_def)

text \<open>Property C7. Bounds of the decoder, after any sequence of \<open>feed\<close> and \<open>take\<close> calls: the read
  position is inside the buffer and below \<open>2^31\<close>, so it fits the code's \<open>int\<close>; fewer than 4 bytes
  plus one mebibyte wait undecoded, and the buffer is below a fixed size. The queue of decoded messages has no
  bound of its own: what was taken, what is queued and what is undecoded, with four bytes for
  each message, are together at most the bytes fed, and after a \<open>take\<close> the queue is empty.
\<close>

theorem decoder_bounds:
  "case decoder_run messagedecode_init calls of (taken, d) \<Rightarrow>
    dec_idx d \<le> length (dec_Inputbuf d) \<and> dec_idx d < 2 ^ 31 \<and>
    length (pending d) < 4 + unat messagemaxlen \<and>
    length (dec_Inputbuf d) < 2 * (4 + unat messagemaxlen) + 1024 * 512 \<and>
    sum_list (map (\<lambda>m. 4 + length m) (taken @ dec_msg d)) + length (pending d) \<le> length (fed calls) \<and>
    dec_msg (snd (take_msgs d)) = []"
proof -
  obtain taken d where run: "decoder_run messagedecode_init calls = (taken, d)" by fastforce
  have start: "parse [] = ([] @ dec_msg messagedecode_init, pending messagedecode_init, dec_error messagedecode_init)"
    by (simp add: pending_def messagedecode_init_def)
  have inv: "feed_inv d" and p: "parse (fed calls) = (taken @ dec_msg d, pending d, dec_error d)"
    using decoder_run_parse [OF feed_inv_init start run] by simp_all
  have "length (dec_Inputbuf d) < 2 * (4 + unat messagemaxlen) + 1024 * 512"
    using inv parse_rest_bound [OF p] unfolding feed_inv_def length_pending messagemaxlen_eq by simp linarith
  then show ?thesis
    using inv parse_rest_bound [OF p] parse_size [OF p]
    by (simp add: run feed_inv_def take_msgs_def)
qed

text \<open>Property C8. \<open>encode\<close> does not check the limit the decoder enforces: a message of more
  than one mebibyte (and less than \<open>2^32\<close> bytes) breaks the decoder of the peer for good,
  whatever was decoded before it, however the stream is cut, and nothing after it is delivered.
\<close>

theorem oversize_breaks_decoder:
  assumes "\<forall>m \<in> set ms. length m \<le> unat messagemaxlen"
    and "unat messagemaxlen < length big" "length big < 2 ^ 32"
    and "concat chunks = concat (map encode ms) @ encode big @ rest"
  shows "let d = foldl feed messagedecode_init chunks in
    brokenmessage d \<and> fst (take_msgs d) = ms \<and> pending d = [] \<and> feed d later = d"
proof -
  have "parse (concat chunks) = (ms, [], True)"
    using parse_encodes [OF assms(1), of "encode big @ rest"] assms(4)
    by (simp add: parse_encode_oversize [OF assms(2,3)])
  then show ?thesis
    using feeds_view [of chunks]
    by (simp add: feeds_def view_def take_msgs_def brokenmessage_def feed_def Let_def)
qed

theorem oversize_breaks_decoder_witness:
  "let d = foldl feed messagedecode_init
       [encode [1, 2], encode (replicate (1024 * 1024 + 1) 7), [9, 9]] in
    brokenmessage d \<and> fst (take_msgs d) = [[1, 2]] \<and> pending d = [] \<and> feed d [5] = d"
  by (rule oversize_breaks_decoder [where big = "replicate (1024 * 1024 + 1) 7" and rest = "[9, 9]"])
    (simp_all only: list.set length_replicate concat.simps list.map append_Nil2 append_assoc
      messagemaxlen_eq, simp_all)

end
