(* ===== verification/File_io.thy ===== *)
theory File_io
  imports Prelude
begin

text \<open>
  The file interface of \<open>include/mq/io/File_io.h\<close> and its implementation
  \<open>src/mq/io/File_io.cpp\<close>. The abstract class \<open>File_io\<close> is a record with one
  field per virtual method, over a type \<open>'w\<close> of worlds (the kernel's state); every call
  returns its result and the next world. \<open>PosixFileIo\<close> is a function from the system
  calls, which are not code of the repository and so a parameter \<open>'w os\<close>, to such a
  record. \<open>fdatasync\<close> retries for as long as the kernel answers \<open>EINTR\<close>: it may
  not return, so its result is an option.

  The locales state the interfaces: \<open>os_contract\<close> is what POSIX documents of the system
  calls, over an abstract file system \<open>fs\<close>; \<open>file_contract\<close> is what the clients of
  \<open>File_io\<close> rely on; the \<open>sublocale\<close> shows that \<open>PosixFileIo\<close> provides the
  second on top of the first. The \<open>_full\<close> variants add that a read of a regular file
  returns all the bytes there are. A kernel kept in memory, with a script of faults,
  interprets them and serves the witnesses.
\<close>

section \<open>The abstract class and the system calls\<close>

datatype open_flag = O_RDONLY | O_WRONLY | O_RDWR | O_CREAT | O_EXCL | O_DIRECTORY

text \<open>The flags joined by \<open>|\<close> are a list. \<open>pwrite(fd,buf,n,offset)\<close> gets the \<open>n\<close>
  bytes; \<open>pread\<close> returns the count and the bytes it stored at the head of the buffer;
  \<open>fstat\<close> returns its result and \<open>st_size\<close>. \<open>io_errno\<close> reads the thread's \<open>errno\<close>.\<close>

record 'w file_io =
  io_open :: "string \<Rightarrow> open_flag list \<Rightarrow> nat \<Rightarrow> 'w \<Rightarrow> int \<times> 'w"
  io_pwrite :: "int \<Rightarrow> bytes \<Rightarrow> int \<Rightarrow> 'w \<Rightarrow> int \<times> 'w"
  io_pread :: "int \<Rightarrow> nat \<Rightarrow> int \<Rightarrow> 'w \<Rightarrow> int \<times> bytes \<times> 'w"
  io_fdatasync :: "int \<Rightarrow> 'w \<Rightarrow> (int \<times> 'w) option"
  io_fsync_dir :: "string \<Rightarrow> 'w \<Rightarrow> int \<times> 'w"
  io_ftruncate :: "int \<Rightarrow> int \<Rightarrow> 'w \<Rightarrow> int \<times> 'w"
  io_fstat :: "int \<Rightarrow> 'w \<Rightarrow> int \<times> int \<times> 'w"
  io_unlink :: "string \<Rightarrow> 'w \<Rightarrow> int \<times> 'w"
  io_close :: "int \<Rightarrow> 'w \<Rightarrow> int \<times> 'w"
  io_errno :: "'w \<Rightarrow> errno"

record 'w os =
  sys_open :: "string \<Rightarrow> open_flag list \<Rightarrow> nat \<Rightarrow> 'w \<Rightarrow> int \<times> 'w"
  sys_pwrite :: "int \<Rightarrow> bytes \<Rightarrow> int \<Rightarrow> 'w \<Rightarrow> int \<times> 'w"
  sys_pread :: "int \<Rightarrow> nat \<Rightarrow> int \<Rightarrow> 'w \<Rightarrow> int \<times> bytes \<times> 'w"
  sys_fdatasync :: "int \<Rightarrow> 'w \<Rightarrow> int \<times> 'w"
  sys_fsync :: "int \<Rightarrow> 'w \<Rightarrow> int \<times> 'w"
  sys_ftruncate :: "int \<Rightarrow> int \<Rightarrow> 'w \<Rightarrow> int \<times> 'w"
  sys_fstat :: "int \<Rightarrow> 'w \<Rightarrow> int \<times> int \<times> 'w"
  sys_close :: "int \<Rightarrow> 'w \<Rightarrow> int \<times> 'w"
  sys_errno :: "'w \<Rightarrow> errno"

section \<open>PosixFileIo\<close>

definition posix_open :: "'w os \<Rightarrow> string \<Rightarrow> open_flag list \<Rightarrow> nat \<Rightarrow> 'w \<Rightarrow> int \<times> 'w" where
  "posix_open os path flags md w = sys_open os path flags md w"

definition posix_pwrite :: "'w os \<Rightarrow> int \<Rightarrow> bytes \<Rightarrow> int \<Rightarrow> 'w \<Rightarrow> int \<times> 'w" where
  "posix_pwrite os fd buf offset w = sys_pwrite os fd buf offset w"

definition posix_pread :: "'w os \<Rightarrow> int \<Rightarrow> nat \<Rightarrow> int \<Rightarrow> 'w \<Rightarrow> int \<times> bytes \<times> 'w" where
  "posix_pread os fd n offset w = sys_pread os fd n offset w"

partial_function (option) posix_fdatasync :: "'w os \<Rightarrow> int \<Rightarrow> 'w \<Rightarrow> (int \<times> 'w) option" where
  "posix_fdatasync os fd w =
     (case sys_fdatasync os fd w of (result, w') \<Rightarrow>
        if result = 0 then Some (result, w')
        else if sys_errno os w' = EINTR then posix_fdatasync os fd w'
        else Some (result, w'))"

definition posix_fsync_dir :: "'w os \<Rightarrow> string \<Rightarrow> 'w \<Rightarrow> int \<times> 'w" where
  "posix_fsync_dir os dirpath w =
     (case sys_open os dirpath [O_RDONLY, O_DIRECTORY] 0 w of (dir_fd, w1) \<Rightarrow>
        if dir_fd = -1 then (-1, w1)
        else case sys_fsync os dir_fd w1 of (r, w2) \<Rightarrow>
          if r = -1 then (-1, snd (sys_close os dir_fd w2))
          else case sys_close os dir_fd w2 of (c, w3) \<Rightarrow>
            if c = -1 then (-1, w3) else (0, w3))"

definition posix_ftruncate :: "'w os \<Rightarrow> int \<Rightarrow> int \<Rightarrow> 'w \<Rightarrow> int \<times> 'w" where
  "posix_ftruncate os fd len w = sys_ftruncate os fd len w"

definition posix_fstat :: "'w os \<Rightarrow> int \<Rightarrow> 'w \<Rightarrow> int \<times> int \<times> 'w" where
  "posix_fstat os fd w = sys_fstat os fd w"

text \<open>\<open>unlink\<close> is a stub: it answers success and removes nothing.\<close>

definition posix_unlink :: "'w os \<Rightarrow> string \<Rightarrow> 'w \<Rightarrow> int \<times> 'w" where
  "posix_unlink os path w = (0, w)"

definition posix_close :: "'w os \<Rightarrow> int \<Rightarrow> 'w \<Rightarrow> int \<times> 'w" where
  "posix_close os fd w = sys_close os fd w"

definition posix_file_io :: "'w os \<Rightarrow> 'w file_io" where
  "posix_file_io os =
     \<lparr>io_open = posix_open os, io_pwrite = posix_pwrite os, io_pread = posix_pread os,
      io_fdatasync = posix_fdatasync os, io_fsync_dir = posix_fsync_dir os,
      io_ftruncate = posix_ftruncate os, io_fstat = posix_fstat os,
      io_unlink = posix_unlink os, io_close = posix_close os, io_errno = sys_errno os\<rparr>"

lemmas posix_defs = posix_open_def posix_pwrite_def posix_pread_def posix_fsync_dir_def
  posix_ftruncate_def posix_fstat_def posix_unlink_def posix_close_def

section \<open>The documented behaviour of the calls\<close>

text \<open>An abstract file system: the bytes of each regular file and, for each open
  descriptor, the file it refers to and the flags it was opened with.\<close>

record fs =
  fs_files :: "string \<rightharpoonup> bytes"
  fs_fds :: "int \<rightharpoonup> string \<times> open_flag list"

definition readable :: "open_flag list \<Rightarrow> bool" where
  "readable fl \<longleftrightarrow> O_WRONLY \<notin> set fl"

definition writable :: "open_flag list \<Rightarrow> bool" where
  "writable fl \<longleftrightarrow> O_WRONLY \<in> set fl \<or> O_RDWR \<in> set fl"

definition fd_bytes :: "fs \<Rightarrow> int \<Rightarrow> bytes option" where
  "fd_bytes v fd = (case fs_fds v fd of None \<Rightarrow> None | Some (p, fl) \<Rightarrow> fs_files v p)"

text \<open>The file system after the bytes of the file behind a descriptor were replaced.\<close>

definition fd_store :: "fs \<Rightarrow> int \<Rightarrow> bytes \<Rightarrow> fs" where
  "fd_store v fd bs = (case fs_fds v fd of None \<Rightarrow> v
     | Some (p, fl) \<Rightarrow> v\<lparr>fs_files := (fs_files v)(p \<mapsto> bs)\<rparr>)"

definition open_ok :: "fs \<Rightarrow> string \<Rightarrow> open_flag list \<Rightarrow> int \<Rightarrow> fs \<Rightarrow> errno \<Rightarrow> bool" where
  "open_ok v path fl fd v' e \<longleftrightarrow>
     (fd = -1 \<and> v' = v \<and> (e = EEXIST \<longrightarrow> path \<in> dom (fs_files v))) \<or>
     (0 \<le> fd \<and> fs_fds v fd = None \<and>
      (O_CREAT \<in> set fl \<and> O_EXCL \<in> set fl \<longrightarrow> path \<notin> dom (fs_files v)) \<and>
      (O_CREAT \<notin> set fl \<and> O_DIRECTORY \<notin> set fl \<longrightarrow> path \<in> dom (fs_files v)) \<and>
      v' = v\<lparr>fs_fds := (fs_fds v)(fd \<mapsto> (path, fl)),
             fs_files := (if O_CREAT \<in> set fl \<and> path \<notin> dom (fs_files v)
                          then (fs_files v)(path \<mapsto> []) else fs_files v)\<rparr>)"

definition pwrite_ok :: "fs \<Rightarrow> int \<Rightarrow> bytes \<Rightarrow> int \<Rightarrow> int \<Rightarrow> fs \<Rightarrow> bool" where
  "pwrite_ok v fd buf off n v' \<longleftrightarrow>
     (n = -1 \<and> v' = v) \<or>
     (0 \<le> off \<and> 0 \<le> n \<and> n \<le> int (length buf) \<and>
      (\<exists>p fl bs. fs_fds v fd = Some (p, fl) \<and> writable fl \<and> fs_files v p = Some bs \<and>
         v' = fd_store v fd (write_at bs (nat off) (take (nat n) buf))))"

definition pread_ok :: "fs \<Rightarrow> int \<Rightarrow> nat \<Rightarrow> int \<Rightarrow> int \<Rightarrow> bytes \<Rightarrow> fs \<Rightarrow> bool" where
  "pread_ok v fd k off n data v' \<longleftrightarrow>
     v' = v \<and>
     ((n = -1 \<and> data = []) \<or>
      (0 \<le> off \<and> n = int (length data) \<and> length data \<le> k \<and>
       (\<exists>bs. fd_bytes v fd = Some bs \<and> data = take (length data) (drop (nat off) bs))))"

definition ftruncate_ok :: "fs \<Rightarrow> int \<Rightarrow> int \<Rightarrow> int \<Rightarrow> fs \<Rightarrow> bool" where
  "ftruncate_ok v fd len rc v' \<longleftrightarrow>
     (rc = -1 \<and> v' = v) \<or>
     (rc = 0 \<and> 0 \<le> len \<and>
      (\<exists>p fl bs. fs_fds v fd = Some (p, fl) \<and> writable fl \<and> fs_files v p = Some bs \<and>
         v' = fd_store v fd (set_size bs (nat len))))"

definition fstat_ok :: "fs \<Rightarrow> int \<Rightarrow> int \<Rightarrow> int \<Rightarrow> fs \<Rightarrow> bool" where
  "fstat_ok v fd rc sz v' \<longleftrightarrow>
     v' = v \<and> (rc = -1 \<or> rc = 0 \<and> (\<forall>bs. fd_bytes v fd = Some bs \<longrightarrow> sz = int (length bs)))"

definition sync_ok :: "fs \<Rightarrow> int \<Rightarrow> fs \<Rightarrow> bool" where
  "sync_ok v rc v' \<longleftrightarrow> v' = v \<and> (rc = -1 \<or> rc = 0)"

definition close_ok :: "fs \<Rightarrow> int \<Rightarrow> int \<Rightarrow> fs \<Rightarrow> bool" where
  "close_ok v fd rc v' \<longleftrightarrow> v' = v\<lparr>fs_fds := (fs_fds v)(fd := None)\<rparr> \<and> (rc = -1 \<or> rc = 0)"

text \<open>What a client knows of a descriptor: the file it refers to, the flags, the bytes; and
  the file system after one file got new bytes and nothing else changed.\<close>

definition at_file :: "fs \<Rightarrow> int \<Rightarrow> string \<Rightarrow> open_flag list \<Rightarrow> bytes \<Rightarrow> bool" where
  "at_file v fd p fl bs \<longleftrightarrow> fs_fds v fd = Some (p, fl) \<and> fs_files v p = Some bs"

definition file_put :: "fs \<Rightarrow> string \<Rightarrow> bytes \<Rightarrow> fs" where
  "file_put v p bs = v\<lparr>fs_files := (fs_files v)(p \<mapsto> bs)\<rparr>"

lemma file_put_simps [simp]:
  "fs_fds (file_put v p bs) = fs_fds v"
  "fs_files (file_put v p bs) = (fs_files v)(p \<mapsto> bs)"
  "file_put (file_put v p bs) p bs' = file_put v p bs'"
  by (simp_all add: file_put_def)

lemma file_put_same: "fs_files v p = Some bs \<Longrightarrow> file_put v p bs = v"
  by (simp add: file_put_def fun_upd_idem)

lemma at_file_put [simp]:
  "at_file (file_put v p bs') fd p fl bs \<longleftrightarrow> fs_fds v fd = Some (p, fl) \<and> bs' = bs"
  by (auto simp: at_file_def)

lemma at_file_fd: "at_file v fd p fl bs \<Longrightarrow> fs_fds v fd = Some (p, fl)"
  and at_file_files: "at_file v fd p fl bs \<Longrightarrow> fs_files v p = Some bs"
  and at_file_bytes: "at_file v fd p fl bs \<Longrightarrow> fd_bytes v fd = Some bs"
  and at_file_same: "at_file v fd p fl bs \<Longrightarrow> file_put v p bs = v"
  and at_file_store: "at_file v fd p fl bs \<Longrightarrow> fd_store v fd bs' = file_put v p bs'"
  by (simp_all add: at_file_def fd_bytes_def fd_store_def file_put_def fun_upd_idem)

section \<open>The interfaces\<close>

locale os_contract =
  fixes os :: "'w os"
    and fsv :: "'w \<Rightarrow> fs"
  assumes sys_open_law: "sys_open os p fl m w = (fd, w') \<Longrightarrow>
      open_ok (fsv w) p fl fd (fsv w') (sys_errno os w')"
    and sys_pwrite_law: "sys_pwrite os fd buf off w = (n, w') \<Longrightarrow>
      pwrite_ok (fsv w) fd buf off n (fsv w')"
    and sys_pread_law: "sys_pread os fd k off w = (n, data, w') \<Longrightarrow>
      pread_ok (fsv w) fd k off n data (fsv w')"
    and sys_fdatasync_law: "sys_fdatasync os fd w = (rc, w') \<Longrightarrow> sync_ok (fsv w) rc (fsv w')"
    and sys_fsync_law: "sys_fsync os fd w = (rc, w') \<Longrightarrow> sync_ok (fsv w) rc (fsv w')"
    and sys_ftruncate_law: "sys_ftruncate os fd len w = (rc, w') \<Longrightarrow>
      ftruncate_ok (fsv w) fd len rc (fsv w')"
    and sys_fstat_law: "sys_fstat os fd w = (rc, sz, w') \<Longrightarrow> fstat_ok (fsv w) fd rc sz (fsv w')"
    and sys_close_law: "sys_close os fd w = (rc, w') \<Longrightarrow> close_ok (fsv w) fd rc (fsv w')"

text \<open>What the clients of \<open>File_io\<close> rely on. A directory sync leaves the file system as it
  was: the descriptor it opens is closed again on every path.\<close>

locale file_contract =
  fixes io :: "'w file_io"
    and fsv :: "'w \<Rightarrow> fs"
  assumes open_law: "io_open io p fl m w = (fd, w') \<Longrightarrow>
      open_ok (fsv w) p fl fd (fsv w') (io_errno io w')"
    and pwrite_law: "io_pwrite io fd buf off w = (n, w') \<Longrightarrow>
      pwrite_ok (fsv w) fd buf off n (fsv w')"
    and pread_law: "io_pread io fd k off w = (n, data, w') \<Longrightarrow>
      pread_ok (fsv w) fd k off n data (fsv w')"
    and fdatasync_law: "io_fdatasync io fd w = Some (rc, w') \<Longrightarrow> sync_ok (fsv w) rc (fsv w')"
    and fsync_dir_law: "io_fsync_dir io dp w = (rc, w') \<Longrightarrow> sync_ok (fsv w) rc (fsv w')"
    and ftruncate_law: "io_ftruncate io fd len w = (rc, w') \<Longrightarrow>
      ftruncate_ok (fsv w) fd len rc (fsv w')"
    and fstat_law: "io_fstat io fd w = (rc, sz, w') \<Longrightarrow> fstat_ok (fsv w) fd rc sz (fsv w')"
    and close_law: "io_close io fd w = (rc, w') \<Longrightarrow> close_ok (fsv w) fd rc (fsv w')"

text \<open>On a descriptor open for reading, a read of a regular file is never short: it fails, or it returns
  all the bytes there are.\<close>

locale os_contract_reads = os_contract +
  assumes sys_pread_reads: "fs_fds (fsv w) fd = Some (p, fl) \<Longrightarrow> readable fl \<Longrightarrow>
      fs_files (fsv w) p = Some bs \<Longrightarrow> 0 \<le> off \<Longrightarrow>
      sys_pread os fd k off w = (n, data, w') \<Longrightarrow> n = -1 \<or> data = take k (drop (nat off) bs) \<and> n = int (length data)"

locale file_contract_reads = file_contract +
  assumes pread_reads: "fs_fds (fsv w) fd = Some (p, fl) \<Longrightarrow> readable fl \<Longrightarrow>
      fs_files (fsv w) p = Some bs \<Longrightarrow> 0 \<le> off \<Longrightarrow>
      io_pread io fd k off w = (n, data, w') \<Longrightarrow> n = -1 \<or> data = take k (drop (nat off) bs) \<and> n = int (length data)"

text \<open>The same where no read and no \<open>fstat\<close> fails.\<close>

locale os_contract_full = os_contract +
  assumes sys_pread_full: "fs_fds (fsv w) fd = Some (p, fl) \<Longrightarrow> readable fl \<Longrightarrow>
      fs_files (fsv w) p = Some bs \<Longrightarrow> 0 \<le> off \<Longrightarrow>
      sys_pread os fd k off w = (n, data, w') \<Longrightarrow> data = take k (drop (nat off) bs) \<and> n = int (length data)"
    and sys_fstat_full: "fs_fds (fsv w) fd = Some (p, fl) \<Longrightarrow> sys_fstat os fd w = (rc, sz, w') \<Longrightarrow> rc = 0"

locale file_contract_full = file_contract +
  assumes pread_full: "fs_fds (fsv w) fd = Some (p, fl) \<Longrightarrow> readable fl \<Longrightarrow>
      fs_files (fsv w) p = Some bs \<Longrightarrow> 0 \<le> off \<Longrightarrow>
      io_pread io fd k off w = (n, data, w') \<Longrightarrow> data = take k (drop (nat off) bs) \<and> n = int (length data)"
    and fstat_full: "fs_fds (fsv w) fd = Some (p, fl) \<Longrightarrow> io_fstat io fd w = (rc, sz, w') \<Longrightarrow> rc = 0"

text \<open>The laws on a descriptor whose file is known, in the form the clients use.\<close>

context file_contract
begin

lemma pwrite_at:
  assumes "io_pwrite io fd buf off w = (n, w')" "at_file (fsv w) fd p fl bs"
  obtains (failed) "n = -1" "fsv w' = fsv w"
  | (wrote) k where "n = int k" "k \<le> length buf" "0 \<le> off" "writable fl"
      "fsv w' = file_put (fsv w) p (write_at bs (nat off) (take k buf))"
proof -
  consider "n = -1" "fsv w' = fsv w"
    | "0 \<le> off" "0 \<le> n" "n \<le> int (length buf)" "writable fl"
      "fsv w' = fd_store (fsv w) fd (write_at bs (nat off) (take (nat n) buf))"
    using pwrite_law [OF assms(1)] assms(2) by (auto simp: pwrite_ok_def at_file_def)
  then show thesis
    using assms(2) failed wrote [of "nat n"] by cases (simp_all add: at_file_store)
qed

lemma ftruncate_at:
  assumes "io_ftruncate io fd len w = (rc, w')" "at_file (fsv w) fd p fl bs"
  obtains (failed) "rc = -1" "fsv w' = fsv w"
  | (cut) "rc = 0" "0 \<le> len" "fsv w' = file_put (fsv w) p (set_size bs (nat len))"
  using ftruncate_law [OF assms(1)] assms(2)
  by (auto simp: ftruncate_ok_def at_file_def at_file_store [OF assms(2)])

lemma fdatasync_same: "io_fdatasync io fd w = Some (rc, w') \<Longrightarrow> fsv w' = fsv w"
  and fsync_dir_same: "io_fsync_dir io dp w = (rc, w') \<Longrightarrow> fsv w' = fsv w"
  and fstat_same: "io_fstat io fd w = (rc, sz, w') \<Longrightarrow> fsv w' = fsv w"
  and pread_same: "io_pread io fd k off w = (n, data, w') \<Longrightarrow> fsv w' = fsv w"
  by (auto dest!: fdatasync_law fsync_dir_law fstat_law pread_law
      simp: sync_ok_def fstat_ok_def pread_ok_def)

lemma fstat_at:
  "io_fstat io fd w = (rc, sz, w') \<Longrightarrow> at_file (fsv w) fd p fl bs \<Longrightarrow> rc = 0 \<Longrightarrow>
   sz = int (length bs)"
  by (auto dest!: fstat_law simp: fstat_ok_def at_file_bytes)

lemma pread_at:
  assumes "io_pread io fd k off w = (n, data, w')" "at_file (fsv w) fd p fl bs" "n \<noteq> -1"
  shows "n = int (length data) \<and> length data \<le> k \<and> 0 \<le> off \<and>
    data = take (length data) (drop (nat off) bs)"
  using pread_law [OF assms(1)] assms(2,3) by (auto simp: pread_ok_def at_file_bytes)

end

sublocale os_contract_full \<subseteq> os_contract_reads
  by unfold_locales (simp add: sys_pread_full)

sublocale file_contract_full \<subseteq> file_contract_reads
  by unfold_locales (simp add: pread_full)

context file_contract_reads
begin

lemma pread_reads_at:
  assumes "at_file (fsv w) fd p fl bs" "readable fl" "0 \<le> off" "io_pread io fd k off w = (n, data, w')"
  obtains (failed) "n = -1" "fsv w' = fsv w"
  | (all) "data = take k (drop (nat off) bs)" "n = int (length data)" "fsv w' = fsv w"
proof -
  have "n = -1 \<or> data = take k (drop (nat off) bs) \<and> n = int (length data)"
    by (rule pread_reads [OF at_file_fd [OF assms(1)] assms(2) at_file_files [OF assms(1)] assms(3,4)])
  then show thesis using failed all pread_same [OF assms(4)] by metis
qed

end

context file_contract_full
begin

lemma pread_full_at:
  "at_file (fsv w) fd p fl bs \<Longrightarrow> readable fl \<Longrightarrow> 0 \<le> off \<Longrightarrow>
   io_pread io fd k off w = (n, data, w') \<Longrightarrow>
   data = take k (drop (nat off) bs) \<and> n = int (length data) \<and> fsv w' = fsv w"
  using pread_full pread_same by (simp add: at_file_def) metis

lemma fstat_full_at:
  "at_file (fsv w) fd p fl bs \<Longrightarrow> io_fstat io fd w = (rc, sz, w') \<Longrightarrow>
   rc = 0 \<and> sz = int (length bs) \<and> fsv w' = fsv w"
  using fstat_full fstat_at fstat_same by (simp add: at_file_def) metis

end

section \<open>PosixFileIo provides the interface\<close>

context os_contract
begin

lemma posix_fdatasync_ok:
  assumes "posix_fdatasync os fd w = Some (rc, w')"
  shows "sync_ok (fsv w) rc (fsv w')"
proof -
  have "sync_ok (fsv w) (fst r) (fsv (snd r))" if "posix_fdatasync os fd w = Some r" for r
  proof (rule posix_fdatasync.raw_induct
      [where P = "\<lambda>os' fd' w r. os' = os \<longrightarrow> sync_ok (fsv w) (fst r) (fsv (snd r))", OF _ that, THEN mp])
    fix f os' fd' w r
    assume IH: "\<And>os' fd' w r. f os' fd' w = Some r \<Longrightarrow> os' = os \<longrightarrow> sync_ok (fsv w) (fst r) (fsv (snd r))"
      and eq: "(case sys_fdatasync os' fd' w of (result, w') \<Rightarrow>
        if result = 0 then Some (result, w')
        else if sys_errno os' w' = EINTR then f os' fd' w' else Some (result, w')) = Some r"
    obtain result w1 where c: "sys_fdatasync os' fd' w = (result, w1)" by fastforce
    show "os' = os \<longrightarrow> sync_ok (fsv w) (fst r) (fsv (snd r))"
      using eq c IH [of os' fd' w1 r] sys_fdatasync_law [of fd' w result w1]
      by (cases r) (auto simp: sync_ok_def split: if_splits)
  qed simp
  from this [OF assms] show ?thesis by simp
qed

lemma posix_fsync_dir_ok:
  assumes "posix_fsync_dir os dp w = (rc, w')"
  shows "sync_ok (fsv w) rc (fsv w')"
proof -
  obtain d w1 where o: "sys_open os dp [O_RDONLY, O_DIRECTORY] 0 w = (d, w1)" by fastforce
  obtain r w2 where f: "sys_fsync os d w1 = (r, w2)" by fastforce
  obtain c w3 where l: "sys_close os d w2 = (c, w3)" by fastforce
  show ?thesis
    using sys_open_law [OF o] sys_fsync_law [OF f] sys_close_law [OF l] assms o f l
    by (auto simp: posix_fsync_dir_def open_ok_def sync_ok_def close_ok_def fun_upd_idem split: if_splits)
qed

end

sublocale os_contract \<subseteq> file_contract "posix_file_io os" fsv
proof
qed (simp_all add: posix_file_io_def posix_defs sys_open_law sys_pwrite_law sys_pread_law
  posix_fdatasync_ok posix_fsync_dir_ok [unfolded posix_defs] sys_ftruncate_law sys_fstat_law sys_close_law)

sublocale os_contract_reads \<subseteq> file_contract_reads "posix_file_io os" fsv
proof
qed (simp_all add: posix_file_io_def posix_defs sys_pread_reads)

sublocale os_contract_full \<subseteq> file_contract_full "posix_file_io os" fsv
proof
qed (simp_all add: posix_file_io_def posix_defs sys_pread_full sys_fstat_full)

section \<open>A kernel in memory\<close>

text \<open>
  A concrete kernel: the files and descriptors, the next descriptor number, and a script of
  the kernel's answers to the next calls. Each of \<open>open\<close>, \<open>pwrite\<close>, \<open>fdatasync\<close>,
  \<open>fsync\<close> and \<open>ftruncate\<close> takes one answer: an empty script and \<open>Ok\<close> let it
  succeed, \<open>Fail e\<close> makes it return \<open>-1\<close> with that error, \<open>Short k\<close> cuts a write
  after \<open>k\<close> bytes.
\<close>

datatype answer = Ok | Fail errno | Short nat

record mem =
  mem_fs :: fs
  mem_next :: int
  mem_script :: "answer list"
  mem_errno :: errno

definition mem_answer :: "mem \<Rightarrow> answer \<times> mem" where
  "mem_answer w = (case mem_script w of [] \<Rightarrow> (Ok, w)
     | a # as \<Rightarrow> (a, case a of Fail e \<Rightarrow> w\<lparr>mem_script := as, mem_errno := e\<rparr> | _ \<Rightarrow> w\<lparr>mem_script := as\<rparr>))"

definition mem_open :: "string \<Rightarrow> open_flag list \<Rightarrow> nat \<Rightarrow> mem \<Rightarrow> int \<times> mem" where
  "mem_open p fl md w0 = (case mem_answer w0 of (a, w) \<Rightarrow>
     let v = mem_fs w; fd = mem_next w; there = (fs_files v p \<noteq> None) in
     if O_CREAT \<in> set fl \<and> O_EXCL \<in> set fl \<and> there then (-1, w\<lparr>mem_errno := EEXIST\<rparr>)
     else if (O_CREAT \<notin> set fl \<and> O_DIRECTORY \<notin> set fl \<and> \<not> there) \<or> a \<noteq> Ok \<or> fd < 0 \<or> fs_fds v fd \<noteq> None
       then (-1, w\<lparr>mem_errno := EMFILE\<rparr>)
     else (fd, w\<lparr>mem_next := fd + 1,
       mem_fs := v\<lparr>fs_fds := (fs_fds v)(fd \<mapsto> (p, fl)),
         fs_files := (if O_CREAT \<in> set fl \<and> \<not> there then (fs_files v)(p \<mapsto> []) else fs_files v)\<rparr>\<rparr>))"

definition mem_pwrite :: "int \<Rightarrow> bytes \<Rightarrow> int \<Rightarrow> mem \<Rightarrow> int \<times> mem" where
  "mem_pwrite fd buf off w0 = (case mem_answer w0 of (a, w) \<Rightarrow>
     case fs_fds (mem_fs w) fd of None \<Rightarrow> (-1, w)
     | Some (p, fl) \<Rightarrow> (case fs_files (mem_fs w) p of None \<Rightarrow> (-1, w)
       | Some bs \<Rightarrow>
         let n = (case a of Short k \<Rightarrow> min k (length buf) | _ \<Rightarrow> length buf) in
         if off < 0 \<or> \<not> writable fl \<or> (case a of Fail _ \<Rightarrow> True | _ \<Rightarrow> False) then (-1, w)
         else (int n, w\<lparr>mem_fs := fd_store (mem_fs w) fd (write_at bs (nat off) (take n buf))\<rparr>)))"

definition mem_pread :: "int \<Rightarrow> nat \<Rightarrow> int \<Rightarrow> mem \<Rightarrow> int \<times> bytes \<times> mem" where
  "mem_pread fd k off w = (case fs_fds (mem_fs w) fd of None \<Rightarrow> (-1, [], w)
     | Some (p, fl) \<Rightarrow> (case fs_files (mem_fs w) p of None \<Rightarrow> (-1, [], w)
       | Some bs \<Rightarrow>
         if off < 0 \<or> \<not> readable fl then (-1, [], w)
         else let data = take k (drop (nat off) bs) in (int (length data), data, w)))"

definition mem_sync :: "int \<Rightarrow> mem \<Rightarrow> int \<times> mem" where
  "mem_sync fd w0 = (case mem_answer w0 of (a, w) \<Rightarrow> (if a = Ok then 0 else -1, w))"

definition mem_ftruncate :: "int \<Rightarrow> int \<Rightarrow> mem \<Rightarrow> int \<times> mem" where
  "mem_ftruncate fd len w0 = (case mem_answer w0 of (a, w) \<Rightarrow>
     case fs_fds (mem_fs w) fd of None \<Rightarrow> (-1, w)
     | Some (p, fl) \<Rightarrow> (case fs_files (mem_fs w) p of None \<Rightarrow> (-1, w)
       | Some bs \<Rightarrow>
         if len < 0 \<or> \<not> writable fl \<or> a \<noteq> Ok then (-1, w)
         else (0, w\<lparr>mem_fs := fd_store (mem_fs w) fd (set_size bs (nat len))\<rparr>)))"

definition mem_fstat :: "int \<Rightarrow> mem \<Rightarrow> int \<times> int \<times> mem" where
  "mem_fstat fd w = (case fs_fds (mem_fs w) fd of None \<Rightarrow> (-1, 0, w)
     | Some (p, fl) \<Rightarrow> (0, case fs_files (mem_fs w) p of None \<Rightarrow> 0 | Some bs \<Rightarrow> int (length bs), w))"

definition mem_close :: "int \<Rightarrow> mem \<Rightarrow> int \<times> mem" where
  "mem_close fd w = (0, w\<lparr>mem_fs := (mem_fs w)\<lparr>fs_fds := (fs_fds (mem_fs w))(fd := None)\<rparr>\<rparr>)"

definition mem_os :: "mem os" where
  "mem_os = \<lparr>sys_open = mem_open, sys_pwrite = mem_pwrite, sys_pread = mem_pread,
     sys_fdatasync = mem_sync, sys_fsync = mem_sync, sys_ftruncate = mem_ftruncate,
     sys_fstat = mem_fstat, sys_close = mem_close, sys_errno = mem_errno\<rparr>"

lemmas mem_defs = mem_open_def mem_pwrite_def mem_pread_def mem_sync_def mem_ftruncate_def
  mem_fstat_def mem_close_def mem_answer_def

lemma mem_answer_fs: "mem_answer w0 = (a, w) \<Longrightarrow> mem_fs w = mem_fs w0"
  by (auto simp: mem_answer_def split: list.splits answer.splits)

lemma mem_open_ok:
  "mem_open p fl m w = (fd, w') \<Longrightarrow> open_ok (mem_fs w) p fl fd (mem_fs w') (mem_errno w')"
  by (auto simp: mem_open_def open_ok_def Let_def domIff simp del: not_None_eq dest!: mem_answer_fs split: prod.splits if_splits)

lemma mem_pwrite_ok:
  "mem_pwrite fd buf off w = (n, w') \<Longrightarrow> pwrite_ok (mem_fs w) fd buf off n (mem_fs w')"
  by (auto simp: mem_pwrite_def pwrite_ok_def Let_def dest!: mem_answer_fs
      split: prod.splits if_splits option.splits answer.splits)

lemma mem_pread_ok:
  "mem_pread fd k off w = (n, data, w') \<Longrightarrow> pread_ok (mem_fs w) fd k off n data (mem_fs w')"
  by (auto simp: mem_pread_def pread_ok_def fd_bytes_def Let_def min_def split: option.splits if_splits)

lemma mem_sync_ok: "mem_sync fd w = (rc, w') \<Longrightarrow> sync_ok (mem_fs w) rc (mem_fs w')"
  by (auto simp: mem_sync_def sync_ok_def dest!: mem_answer_fs split: prod.splits)

lemma mem_ftruncate_ok:
  "mem_ftruncate fd len w = (rc, w') \<Longrightarrow> ftruncate_ok (mem_fs w) fd len rc (mem_fs w')"
  by (auto simp: mem_ftruncate_def ftruncate_ok_def dest!: mem_answer_fs
      split: prod.splits if_splits option.splits)

lemma mem_fstat_ok:
  "mem_fstat fd w = (rc, sz, w') \<Longrightarrow> fstat_ok (mem_fs w) fd rc sz (mem_fs w')"
  by (auto simp: mem_fstat_def fstat_ok_def fd_bytes_def split: option.splits)

lemma mem_close_ok: "mem_close fd w = (rc, w') \<Longrightarrow> close_ok (mem_fs w) fd rc (mem_fs w')"
  by (auto simp: mem_close_def close_ok_def)

interpretation memk: os_contract_full mem_os mem_fs
  by unfold_locales
    (auto simp: mem_os_def mem_open_ok mem_pwrite_ok mem_pread_ok mem_sync_ok mem_ftruncate_ok
      mem_fstat_ok mem_close_ok, auto simp: mem_pread_def mem_fstat_def split: option.splits)

abbreviation mem_io :: "mem file_io" where
  "mem_io \<equiv> posix_file_io mem_os"

lemma mem_os_sel [simp]:
  "sys_open mem_os = mem_open" "sys_pwrite mem_os = mem_pwrite" "sys_pread mem_os = mem_pread"
  "sys_fdatasync mem_os = mem_sync" "sys_fsync mem_os = mem_sync"
  "sys_ftruncate mem_os = mem_ftruncate" "sys_fstat mem_os = mem_fstat"
  "sys_close mem_os = mem_close" "sys_errno mem_os = mem_errno"
  by (simp_all add: mem_os_def)

lemma mem_io_sel [simp]:
  "io_open mem_io = mem_open" "io_pwrite mem_io = mem_pwrite" "io_pread mem_io = mem_pread"
  "io_fdatasync mem_io = posix_fdatasync mem_os" "io_fsync_dir mem_io = posix_fsync_dir mem_os"
  "io_ftruncate mem_io = mem_ftruncate" "io_fstat mem_io = mem_fstat" "io_close mem_io = mem_close"
  "io_unlink mem_io = posix_unlink mem_os" "io_errno mem_io = mem_errno"
  by (simp_all add: posix_file_io_def posix_defs fun_eq_iff)

lemma mem_fdatasync_Ok: "mem_script w = [] \<Longrightarrow> posix_fdatasync mem_os fd w = Some (0, w)"
  by (subst posix_fdatasync.simps) (simp add: mem_sync_def mem_answer_def)

lemma mem_io_contract: "file_contract mem_io mem_fs"
  by (rule memk.file_contract_axioms)

lemma mem_io_contract_full: "file_contract_full mem_io mem_fs"
  by (rule memk.file_contract_full_axioms)

text \<open>The same kernel on a disk with a bad block: reads at the offset \<open>bad\<close> fail.\<close>

definition bad_pread :: "int \<Rightarrow> int \<Rightarrow> nat \<Rightarrow> int \<Rightarrow> mem \<Rightarrow> int \<times> bytes \<times> mem" where
  "bad_pread bad fd k off w = (if off = bad then (-1, [], w) else mem_pread fd k off w)"

definition bad_os :: "int \<Rightarrow> mem os" where
  "bad_os bad = mem_os\<lparr>sys_pread := bad_pread bad\<rparr>"

lemma bad_pread_ok: "bad_pread bad fd k off w = (n, data, w') \<Longrightarrow> pread_ok (mem_fs w) fd k off n data (mem_fs w')"
  using mem_pread_ok [of fd k off w n data w'] by (auto simp: bad_pread_def pread_ok_def split: if_splits)

lemma bad_pread_reads:
  "fs_fds (mem_fs w) fd = Some (p, fl) \<Longrightarrow> readable fl \<Longrightarrow> fs_files (mem_fs w) p = Some bs \<Longrightarrow> 0 \<le> off \<Longrightarrow>
   bad_pread bad fd k off w = (n, data, w') \<Longrightarrow> n = -1 \<or> data = take k (drop (nat off) bs) \<and> n = int (length data)"
  by (auto simp: bad_pread_def mem_pread_def split: if_splits)

interpretation badk: os_contract_reads "bad_os bad" mem_fs for bad
  by unfold_locales
    (auto simp: bad_os_def mem_open_ok mem_pwrite_ok bad_pread_ok mem_sync_ok mem_ftruncate_ok mem_fstat_ok mem_close_ok
      dest: bad_pread_reads)

abbreviation bad_io :: "int \<Rightarrow> mem file_io" where
  "bad_io bad \<equiv> posix_file_io (bad_os bad)"

lemma bad_os_sel [simp]:
  "sys_open (bad_os b) = mem_open" "sys_pwrite (bad_os b) = mem_pwrite" "sys_pread (bad_os b) = bad_pread b"
  "sys_fdatasync (bad_os b) = mem_sync" "sys_fsync (bad_os b) = mem_sync"
  "sys_ftruncate (bad_os b) = mem_ftruncate" "sys_fstat (bad_os b) = mem_fstat"
  "sys_close (bad_os b) = mem_close" "sys_errno (bad_os b) = mem_errno"
  by (simp_all add: bad_os_def)

lemma bad_io_sel [simp]:
  "io_open (bad_io b) = mem_open" "io_pwrite (bad_io b) = mem_pwrite" "io_pread (bad_io b) = bad_pread b"
  "io_fsync_dir (bad_io b) = posix_fsync_dir (bad_os b)"
  "io_ftruncate (bad_io b) = mem_ftruncate" "io_fstat (bad_io b) = mem_fstat" "io_errno (bad_io b) = mem_errno"
  by (simp_all add: posix_file_io_def posix_defs fun_eq_iff)

lemma bad_io_contract: "file_contract_reads (bad_io b) mem_fs"
  by (rule badk.file_contract_reads_axioms)

lemma mem_io_contract_reads: "file_contract_reads mem_io mem_fs"
  by (rule memk.file_contract_reads_axioms)

section \<open>Properties\<close>

text \<open>The kernel after \<open>n\<close> calls of \<open>fdatasync\<close>.\<close>

primrec sync_world :: "'w os \<Rightarrow> int \<Rightarrow> nat \<Rightarrow> 'w \<Rightarrow> 'w" where
  "sync_world os fd 0 w = w"
| "sync_world os fd (Suc n) w = sync_world os fd n (snd (sys_fdatasync os fd w))"

definition interrupted :: "'w os \<Rightarrow> int \<Rightarrow> 'w \<Rightarrow> bool" where
  "interrupted os fd w \<longleftrightarrow>
     fst (sys_fdatasync os fd w) \<noteq> 0 \<and> sys_errno os (snd (sys_fdatasync os fd w)) = EINTR"

text \<open>\<open>fdatasync\<close> of \<open>PosixFileIo\<close> returns as soon as one answer of the kernel is
  not an interruption, and it returns that answer: after \<open>n\<close> interruptions, the result is
  that of call \<open>n + 1\<close>. An interruption is never reported to the caller.
\<close>

theorem fdatasync_retries:
  assumes "\<forall>i<n. interrupted os fd (sync_world os fd i w)"
    and "\<not> interrupted os fd (sync_world os fd n w)"
  shows "posix_fdatasync os fd w = Some (sys_fdatasync os fd (sync_world os fd n w))"
  using assms
proof (induction n arbitrary: w)
  case 0
  then show ?case
    by (auto simp: posix_fdatasync.simps [of os fd w] interrupted_def split: prod.splits)
next
  case (Suc n)
  from Suc.prems(1) have "interrupted os fd w" by force
  then have "posix_fdatasync os fd w = posix_fdatasync os fd (snd (sys_fdatasync os fd w))"
    by (auto simp: posix_fdatasync.simps [of os fd w] interrupted_def split: prod.splits)
  also have "\<dots> = Some (sys_fdatasync os fd (sync_world os fd n (snd (sys_fdatasync os fd w))))"
  proof (rule Suc.IH)
    show "\<forall>i<n. interrupted os fd (sync_world os fd i (snd (sys_fdatasync os fd w)))"
      using Suc.prems(1) by (metis Suc_less_eq sync_world.simps(2))
  qed (use Suc.prems(2) in simp)
  finally show ?case by simp
qed

definition mem_init :: "answer list \<Rightarrow> mem" where
  "mem_init script = \<lparr>mem_fs = \<lparr>fs_files = Map.empty, fs_fds = Map.empty\<rparr>, mem_next = 3,
     mem_script = script, mem_errno = EOTHER 0\<rparr>"

definition mem_file :: "answer list \<Rightarrow> string \<Rightarrow> open_flag list \<Rightarrow> bytes \<Rightarrow> mem" where
  "mem_file script p fl bs = \<lparr>mem_fs = \<lparr>fs_files = [p \<mapsto> bs], fs_fds = [3 \<mapsto> (p, fl)]\<rparr>,
     mem_next = 4, mem_script = script, mem_errno = EOTHER 0\<rparr>"

lemma at_mem_file [simp]: "at_file (mem_fs (mem_file script p fl bs)) 3 p fl bs"
  by (simp add: at_file_def mem_file_def)

lemmas mem_eval = mem_defs mem_init_def mem_file_def posix_fsync_dir_def mem_fdatasync_Ok
  fd_store_def readable_def writable_def Let_def

theorem fdatasync_retries_witness:
  "posix_fdatasync mem_os 3 (mem_init [Fail EINTR, Fail EINTR, Fail (EOTHER 5)]) =
     Some (-1, (mem_init [])\<lparr>mem_errno := EOTHER 5\<rparr>)"
  using fdatasync_retries [of 2 mem_os 3 "mem_init [Fail EINTR, Fail EINTR, Fail (EOTHER 5)]"]
  by (simp add: numeral_eq_Suc less_Suc_eq interrupted_def mem_sync_def
      mem_answer_def mem_init_def)

text \<open>Syncing a directory never leaks a descriptor: on every path (the open, the
  sync or the close failing) the file system and the table of open descriptors are as before.
\<close>

theorem fsync_dir_no_leak:
  assumes "os_contract os fsv" and "posix_fsync_dir os dirpath w = (rc, w')"
  shows "fsv w' = fsv w \<and> (rc = 0 \<or> rc = -1)"
  using os_contract.posix_fsync_dir_ok [OF assms] by (auto simp: sync_ok_def)

theorem fsync_dir_no_leak_witness:
  "mem_fs (snd (posix_fsync_dir mem_os ''/d'' (mem_init [Ok, Fail (EOTHER 5)]))) = mem_fs (mem_init [])"
  using fsync_dir_no_leak [OF memk.os_contract_axioms prod.collapse [symmetric],
      of "''/d''" "mem_init [Ok, Fail (EOTHER 5)]"]
  by (simp add: mem_init_def)

end
