(* ===== verification/Zlib.thy ===== *)
theory Zlib
  imports Prelude
begin

text \<open>
  The checksum the log files use. zlib is not code of the repository: its \<open>crc32\<close> is a
  parameter of the model, a record \<open>zlib\<close> with the value \<open>crc32(0,Z_NULL,0)\<close> and the
  running update \<open>crc32(crc,buf,len)\<close> on \<open>uLong\<close> (64 bits). \<open>zlib_ok\<close> names what
  the documentation says and the code relies on: the values have 32 bits, and an update with
  no bytes changes nothing. \<open>crc32_ref\<close> is the checksum of RFC 1952 computed bit by bit;
  it
  satisfies \<open>zlib_ok\<close>, so the hypothesis can hold.
\<close>

record zlib =
  crc_init :: u64
  crc_upd :: "u64 \<Rightarrow> bytes \<Rightarrow> u64"

definition zlib_ok :: "zlib \<Rightarrow> bool" where
  "zlib_ok z \<longleftrightarrow> crc_init z < 2 ^ 32 \<and> (\<forall>c bs. crc_upd z c bs < 2 ^ 32) \<and>
     (\<forall>c < 2 ^ 32. crc_upd z c [] = c)"

lemma zlib_okD:
  assumes "zlib_ok z"
  shows "crc_init z < 2 ^ 32" "crc_upd z c bs < 2 ^ 32" "crc_upd z (crc_upd z c bs) [] = crc_upd z c bs"
  using assms by (simp_all add: zlib_ok_def)

section \<open>The checksum of RFC 1952\<close>

definition crc_bit :: "u32 \<Rightarrow> u32" where
  "crc_bit c = (if bit c 0 then drop_bit 1 c XOR 0xEDB88320 else drop_bit 1 c)"

definition crc_byte :: "u32 \<Rightarrow> u8 \<Rightarrow> u32" where
  "crc_byte c b = crc_bit (crc_bit (crc_bit (crc_bit (crc_bit (crc_bit (crc_bit (crc_bit
     (c XOR ucast b))))))))"

fun crc_bytes :: "u32 \<Rightarrow> bytes \<Rightarrow> u32" where
  "crc_bytes c [] = c"
| "crc_bytes c (b # bs) = crc_bytes (crc_byte c b) bs"

definition crc32_ref :: zlib where
  "crc32_ref = \<lparr>crc_init = 0,
     crc_upd = (\<lambda>c bs. ucast (crc_bytes (ucast c XOR 0xFFFFFFFF) bs XOR 0xFFFFFFFF))\<rparr>"

lemma ucast_u32_less: "(ucast (c :: u32) :: u64) < 2 ^ 32"
proof -
  have c: "unat c < 2 ^ LENGTH(32)" by (rule unsigned_less)
  then have "unat (ucast c :: u64) = unat c"
    by (simp add: unsigned_ucast_eq take_bit_nat_eq_self_iff)
  with c show ?thesis by (simp add: word_less_nat_alt)
qed

lemma ucast_u64_u32: "(c :: u64) < 2 ^ 32 \<Longrightarrow> ucast (ucast c :: u32) = c"
proof -
  assume "c < 2 ^ 32"
  then have "unat c < 2 ^ 32" by (simp add: word_less_nat_alt)
  then have "unat (ucast (ucast c :: u32) :: u64) = unat c"
    by (simp add: unsigned_ucast_eq unsigned_take_bit_eq take_bit_nat_eq_self)
  then show ?thesis by (rule unsigned_word_eqI)
qed

lemma ucast_u32_u64 [simp]: "ucast (ucast (w :: u32) :: u64) = w"
  by (rule bit_word_eqI) (simp add: bit_simps)

lemma crc32_ref_ok: "zlib_ok crc32_ref"
  using ucast_u32_less ucast_u64_u32
  by (simp add: zlib_ok_def crc32_ref_def xor.assoc word_less_nat_alt)

text \<open>The checksum of the single byte \<open>a\<close>.\<close>

lemma crc32_ref_check: "crc_upd crc32_ref (crc_init crc32_ref) [97] = 0xE8B7BE43"
  by (simp add: crc32_ref_def crc_byte_def crc_bit_def)

text \<open>A second instance, the sum of the bytes: the witnesses that evaluate many frames use it,
  as the kernel adds much faster than it shifts.\<close>

definition sum_ref :: zlib where
  "sum_ref = \<lparr>crc_init = 0, crc_upd = (\<lambda>c bs. ucast (ucast c + sum_list (map ucast bs) :: u32))\<rparr>"

lemma sum_ref_ok: "zlib_ok sum_ref"
  using ucast_u32_less ucast_u64_u32 by (simp add: zlib_ok_def sum_ref_def word_less_nat_alt)

end
