(* ===== verification/Segment.thy ===== *)
theory Segment
  imports Codec File_io Zlib
begin

text \<open>
  The log segment of \<open>src/Segment.cpp\<close> and \<open>include/Segment.h\<close>: a file of a 32-byte
  header and frames of a 20-byte head and a payload. \<open>write_seghead_bg\<close>,
  \<open>compare_magic_crc\<close>, \<open>write_frame_bg\<close> and \<open>check_frame\<close> are the codec;
  \<open>segment\<close> with \<open>write_len\<close>, \<open>creat\<close>, \<open>open_append\<close>, \<open>append\<close> and
  \<open>sysnc\<close> is the class \<open>Segment\<close>.

  The lemmas show that the parsers accept exactly what the writers produce, and what an
  append leaves in the file on every path, the failing ones included, for any implementation
  of \<open>File_io\<close> that keeps the laws of \<open>file_contract\<close>.
\<close>

section \<open>Frames and headers\<close>

definition FRAME_HEAD :: nat where
  "FRAME_HEAD = 20"

lemma FRAME_HEAD_eq [simp]: "FRAME_HEAD = 20"
  by (simp add: FRAME_HEAD_def)

datatype fkind = Valid | Torn | Corrupt

text \<open>\<open>enum CorruptAt\<close>, stored in a \<open>uint8_t\<close>.\<close>

definition at_len :: u8 where "at_len = 0"
definition at_offset :: u8 where "at_offset = 1"
definition at_epoch :: u8 where "at_epoch = 2"
definition at_crc :: u8 where "at_crc = 3"

lemmas corrupt_at_defs = at_len_def at_offset_def at_epoch_def at_crc_def

record Framecheck =
  fc_kind :: fkind
  fc_len :: u32
  fc_torn_len :: int
  fc_epoch :: u32
  fc_corrupt_at :: u8

text \<open>The magic \<open>PLOGSEGV\<close>.\<close>

definition magic :: bytes where
  "magic = [80, 76, 79, 71, 83, 69, 71, 86]"

text \<open>The writers fill a buffer on the stack of the caller.\<close>

definition write_seghead_bg :: "zlib \<Rightarrow> bytes \<Rightarrow> u32 \<Rightarrow> u64 \<Rightarrow> u64 \<Rightarrow> bytes" where
  "write_seghead_bg z buf version base_offset walltime =
     (let buf = write_at buf 0 magic;
          buf = write_u32_be buf 8 version;
          buf = write_u64_be buf 12 base_offset;
          buf = write_u64_be buf 20 walltime;
          crc = crc_init z;
          crc = crc_upd z crc (take 28 buf)
      in write_u32_be buf 28 (ucast crc))"

definition write_frame_bg :: "zlib \<Rightarrow> bytes \<Rightarrow> u64 \<Rightarrow> u32 \<Rightarrow> bytes \<Rightarrow> bytes" where
  "write_frame_bg z buf offset epoch payload =
     (let len = (of_nat (length payload) :: u32);
          buf = write_u64_be buf 0 offset;
          buf = write_u32_be buf 8 len;
          buf = write_u32_be buf 12 epoch;
          crc = crc_init z;
          crc = crc_upd z crc (take 8 (drop 8 buf));
          crc = (if len \<noteq> 0 then crc_upd z crc (take (unat len) payload) else crc)
      in write_u32_be buf 16 (ucast crc))"

text \<open>\<open>Some (base_offset, walltime)\<close> for the result \<open>true\<close> and the two out-parameters.\<close>

definition compare_magic_crc :: "zlib \<Rightarrow> bytes \<Rightarrow> (u64 \<times> u64) option" where
  "compare_magic_crc z buf =
     (if take 8 buf \<noteq> magic then None
      else if read_crc_big buf 8 \<noteq> 1 then None
      else let crc = crc_init z;
               crc = crc_upd z crc (take 28 buf)
        in if (ucast crc :: u32) \<noteq> read_crc_big buf 28 then None
           else Some (read_u64_be buf 12, read_u64_be buf 20))"

text \<open>\<open>check.kind\<close> is not initialised; it is set on every path. The checksum is compared as a
  64-bit value.\<close>

definition check_frame :: "zlib \<Rightarrow> bytes \<Rightarrow> nat \<Rightarrow> u64 \<Rightarrow> u32 \<Rightarrow> Framecheck" where
  "check_frame z header avail expected_offset prev_epoch =
     (let check = \<lparr>fc_kind = Valid, fc_len = 0, fc_torn_len = 0, fc_epoch = 0, fc_corrupt_at = 0\<rparr>
      in if read_crc_big header 8 > messagemaxlen
         then check\<lparr>fc_corrupt_at := at_len, fc_kind := Corrupt\<rparr>
         else let len = read_crc_big header 8;
                  check = check\<lparr>fc_epoch := read_crc_big header 12\<rparr>
           in if fc_epoch check < prev_epoch
              then check\<lparr>fc_corrupt_at := at_epoch, fc_kind := Corrupt\<rparr>
              else if avail < unat (len + of_nat FRAME_HEAD)
              then check\<lparr>fc_kind := Torn, fc_torn_len := int avail\<rparr>
              else let crc = crc_init z;
                       crc = crc_upd z crc (take 8 (drop 8 header));
                       crc = crc_upd z crc (take (unat len) (drop FRAME_HEAD header))
                in if crc \<noteq> ucast (read_crc_big header 16)
                   then check\<lparr>fc_corrupt_at := at_crc, fc_kind := Corrupt\<rparr>
                   else if read_u64_be header 0 \<noteq> expected_offset
                   then check\<lparr>fc_corrupt_at := at_offset, fc_kind := Corrupt\<rparr>
                   else check\<lparr>fc_kind := Valid, fc_len := len\<rparr>)"

section \<open>The class Segment\<close>

record segment =
  sg_fd :: int
  sg_path :: string
  sg_offset :: int
  sg_base_offset :: u64
  sg_walltime :: u64
  sg_last_epoch :: u32

definition segment_new :: "string \<Rightarrow> segment" where
  "segment_new pat = \<lparr>sg_fd = -1, sg_path = pat, sg_offset = 0, sg_base_offset = 0,
     sg_walltime = 0, sg_last_epoch = 0\<rparr>"

definition segment_destroy :: "'w file_io \<Rightarrow> segment \<Rightarrow> 'w \<Rightarrow> 'w" where
  "segment_destroy io s w = (if sg_fd s \<ge> 0 then snd (io_close io (sg_fd s) w) else w)"

text \<open>\<open>rfind('/')\<close> and \<open>substr(0,pos)\<close>; without a slash the directory is \<open>.\<close>.\<close>

definition dir_name :: "string \<Rightarrow> string" where
  "dir_name p = (if CHR ''/'' \<notin> set p then ''.''
     else rev (tl (dropWhile (\<lambda>c. c \<noteq> CHR ''/'') (rev p))))"

text \<open>The milliseconds of the system clock, cast to \<open>uint64_t\<close>; the clock's count is an input.\<close>

definition now_millis :: "int \<Rightarrow> u64" where
  "now_millis count = of_int count"

definition write_len :: "'w file_io \<Rightarrow> segment \<Rightarrow> bytes \<Rightarrow> 'w \<Rightarrow> bool \<times> segment \<times> 'w" where
  "write_len io s buf w =
     (case io_pwrite io (sg_fd s) buf (sg_offset s) w of (n, w1) \<Rightarrow>
        if n = -1 then (False, s, w1)
        else if n < int (length buf)
        then (False, s, snd (io_ftruncate io (sg_fd s) (sg_offset s) w1))
        else (True, s\<lparr>sg_offset := sg_offset s + int (length buf)\<rparr>, w1))"

text \<open>\<open>None\<close> where the retry loop of \<open>fdatasync\<close> does not end. The bytes of \<open>buf\<close>
  before the call do not matter (\<open>write_seghead_eq\<close>).\<close>

definition creat :: "'w file_io \<Rightarrow> zlib \<Rightarrow> int \<Rightarrow> segment \<Rightarrow> 'w \<Rightarrow> (bool \<times> segment \<times> 'w) option" where
  "creat io z clock s w =
     (case io_open io (sg_path s) [O_CREAT, O_EXCL, O_WRONLY] 420 w of (fd, w1) \<Rightarrow>
      let s = s\<lparr>sg_fd := fd\<rparr> in
      if fd = -1 then Some (False, s, w1)
      else let buf = write_seghead_bg z (replicate 32 0) 1 (sg_base_offset s) (now_millis clock) in
        case write_len io s buf w1 of (ok, s, w2) \<Rightarrow>
          if \<not> ok then Some (False, s, snd (io_ftruncate io (sg_fd s) (sg_offset s) w2))
          else case io_fdatasync io (sg_fd s) w2 of None \<Rightarrow> None
            | Some (r, w3) \<Rightarrow>
              if r = -1 then Some (False, s, w3)
              else case io_fsync_dir io (dir_name (sg_path s)) w3 of (d, w4) \<Rightarrow>
                if d = -1 then Some (False, s, w4) else Some (True, s, w4))"

definition open_append :: "'w file_io \<Rightarrow> zlib \<Rightarrow> segment \<Rightarrow> 'w \<Rightarrow> bool \<times> segment \<times> 'w" where
  "open_append io z s w =
     (case io_open io (sg_path s) [O_RDWR] 420 w of (fd, w1) \<Rightarrow>
      let s = s\<lparr>sg_fd := fd\<rparr> in
      if fd = -1 then (False, s, w1)
      else case io_pread io fd 32 0 w1 of (n, buf, w2) \<Rightarrow>
        if n \<noteq> 32 then (False, s, w2)
        else case compare_magic_crc z buf of None \<Rightarrow> (False, s, w2)
          | Some (base, wall) \<Rightarrow>
            let s = s\<lparr>sg_base_offset := base, sg_walltime := wall\<rparr> in
            case io_fstat io fd w2 of (rc, st_size, w3) \<Rightarrow>
              if rc = -1 then (False, s, w3)
              else (True, s\<lparr>sg_offset := st_size\<rparr>, w3))"

definition segment_append :: "'w file_io \<Rightarrow> zlib \<Rightarrow> segment \<Rightarrow> bytes \<Rightarrow> u64 \<Rightarrow> u32 \<Rightarrow> 'w \<Rightarrow> bool \<times> segment \<times> 'w" where
  "segment_append io z s payload byte_off epoch w =
     (if int (length payload) > int (unat messagemaxlen) then (False, s, w)
      else if epoch < sg_last_epoch s then (False, s, w)
      else let buf = write_frame_bg z (replicate FRAME_HEAD 0) byte_off epoch payload in
        case write_len io s buf w of (ok, s1, w1) \<Rightarrow>
          if \<not> ok then (False, s1, w1)
          else case write_len io s1 payload w1 of (ok2, s2, w2) \<Rightarrow>
            if ok2 then (True, s2\<lparr>sg_last_epoch := epoch\<rparr>, w2)
            else let s3 = s2\<lparr>sg_offset := sg_offset s2 - int FRAME_HEAD\<rparr> in
              (False, s3, snd (io_ftruncate io (sg_fd s3) (sg_offset s3) w2)))"

definition sysnc :: "'w file_io \<Rightarrow> segment \<Rightarrow> 'w \<Rightarrow> (bool \<times> 'w) option" where
  "sysnc io s w = (case io_fdatasync io (sg_fd s) w of None \<Rightarrow> None
     | Some (r, w') \<Rightarrow> Some (r = 0, w'))"

section \<open>What the writers produce\<close>

definition crc_of :: "zlib \<Rightarrow> bytes list \<Rightarrow> u32" where
  "crc_of z parts = ucast (foldl (crc_upd z) (crc_init z) parts)"

definition frame_head :: "zlib \<Rightarrow> u64 \<Rightarrow> u32 \<Rightarrow> bytes \<Rightarrow> bytes" where
  "frame_head z off epoch payload =
     be64 off @ be32 (of_nat (length payload)) @ be32 epoch @
     be32 (crc_of z [be32 (of_nat (length payload)) @ be32 epoch, payload])"

definition frame_bytes :: "zlib \<Rightarrow> u64 \<Rightarrow> u32 \<Rightarrow> bytes \<Rightarrow> bytes" where
  "frame_bytes z off epoch payload = frame_head z off epoch payload @ payload"

definition seghead_bytes :: "zlib \<Rightarrow> u64 \<Rightarrow> u64 \<Rightarrow> bytes" where
  "seghead_bytes z base wall =
     (let h = magic @ be32 1 @ be64 base @ be64 wall in h @ be32 (crc_of z [h]))"

lemma length_magic [simp]: "length magic = 8"
  by (simp add: magic_def)

lemma length_frame_head [simp]: "length (frame_head z off epoch payload) = 20"
  by (simp add: frame_head_def)

lemma length_frame_bytes [simp]: "length (frame_bytes z off epoch payload) = 20 + length payload"
  by (simp add: frame_bytes_def)

lemma length_seghead_bytes [simp]: "length (seghead_bytes z base wall) = 32"
  by (simp add: seghead_bytes_def Let_def)

lemma write_seghead_eq:
  assumes "length buf = 32"
  shows "write_seghead_bg z buf 1 base wall = seghead_bytes z base wall"
  using assms
  by (simp add: write_seghead_bg_def Let_def write_u32_be_eq write_u64_be_eq seghead_bytes_def crc_of_def)

lemma write_frame_eq:
  assumes "length buf = 20" "length payload < 2 ^ 32" "zlib_ok z"
  shows "write_frame_bg z buf off epoch payload = frame_head z off epoch payload"
proof -
  have n: "unat (of_nat (length payload) :: u32) = length payload"
    using assms(2) by (simp add: unat_of_nat)
  then have z: "(of_nat (length payload) :: u32) = 0 \<longleftrightarrow> payload = []"
    by (metis length_0_conv unat_eq_0)
  show ?thesis
    using assms(1) zlib_okD(3) [OF assms(3)]
    by (cases "payload = []")
      (simp_all add: write_frame_bg_def Let_def write_u32_be_eq write_u64_be_eq frame_head_def
        crc_of_def n z)
qed

section \<open>The parsers accept exactly what the writers produce\<close>

lemma bytes_eq_split:
  assumes "length bs = length xs + length ys" "take (length xs) bs = xs" "drop (length xs) bs = ys"
  shows "bs = xs @ ys"
  using assms by (metis append_take_drop_id)

lemma seghead_fields:
  "take 8 (seghead_bytes z base wall) = magic"
  "read_crc_big (seghead_bytes z base wall @ r) 8 = 1"
  "read_u64_be (seghead_bytes z base wall @ r) 12 = base"
  "read_u64_be (seghead_bytes z base wall @ r) 20 = wall"
  "read_crc_big (seghead_bytes z base wall @ r) 28 = crc_of z [take 28 (seghead_bytes z base wall)]"
  by (simp_all add: seghead_bytes_def Let_def codec_simps)

lemma take_split4: "take (a + 4) bs = take a bs @ take 4 (drop a bs)"
  and take_split8: "take (a + 8) bs = take a bs @ take 8 (drop a bs)"
  by (simp_all add: take_add)

lemma seghead_parts:
  assumes "32 \<le> length bs"
  shows "take 28 bs = take 8 bs @ be32 (read_crc_big bs 8) @ be64 (read_u64_be bs 12) @ be64 (read_u64_be bs 20)"
    and "take 32 bs = take 28 bs @ be32 (read_crc_big bs 28)"
  using assms take_split4 [of 8 bs] take_split8 [of 12 bs] take_split8 [of 20 bs] take_split4 [of 28 bs]
  by (simp_all add: be32_read be64_read)

lemma compare_magic_crc_iff:
  assumes "32 \<le> length bs"
  shows "compare_magic_crc z bs = Some (base, wall) \<longleftrightarrow> take 32 bs = seghead_bytes z base wall"
proof
  assume "compare_magic_crc z bs = Some (base, wall)"
  then have "take 8 bs = magic" "read_crc_big bs 8 = 1" "read_crc_big bs 28 = crc_of z [take 28 bs]"
     "read_u64_be bs 12 = base" "read_u64_be bs 20 = wall"
    by (auto simp: compare_magic_crc_def crc_of_def Let_def split: if_splits)
  then show "take 32 bs = seghead_bytes z base wall"
    using seghead_parts [OF assms] by (simp add: seghead_bytes_def Let_def)
next
  assume h: "take 32 bs = seghead_bytes z base wall"
  then have bs: "bs = seghead_bytes z base wall @ drop 32 bs"
    by (metis append_take_drop_id)
  show "compare_magic_crc z bs = Some (base, wall)"
    by (subst bs) (simp add: compare_magic_crc_def Let_def seghead_fields crc_of_def)
qed

lemma frame_parts:
  assumes "20 \<le> length bs"
  shows "take 8 bs = be64 (read_u64_be bs 0)"
    and "take 8 (drop 8 bs) = be32 (read_crc_big bs 8) @ be32 (read_crc_big bs 12)"
    and "take 20 bs = be64 (read_u64_be bs 0) @ be32 (read_crc_big bs 8) @ be32 (read_crc_big bs 12)
      @ be32 (read_crc_big bs 16)"
  using assms take_split8 [of 0 bs] take_split4 [of 8 bs] take_split4 [of 12 bs] take_split4 [of 16 bs]
    take_split4 [of 4 "drop 8 bs"]
  by (simp_all add: be32_read be64_read)

lemma frame_fields:
  "read_u64_be (frame_head z off ep p @ r) 0 = off"
  "read_crc_big (frame_head z off ep p @ r) 8 = of_nat (length p)"
  "read_crc_big (frame_head z off ep p @ r) 12 = ep"
  "read_crc_big (frame_head z off ep p @ r) 16 =
     crc_of z [be32 (of_nat (length p)) @ be32 ep, p]"
  "take 8 (drop 8 (frame_head z off ep p)) = be32 (of_nat (length p)) @ be32 ep"
  by (simp_all add: frame_head_def codec_simps)

lemma crc_eq_iff:
  assumes "zlib_ok z"
  shows "crc_upd z (crc_upd z c xs) ys = ucast (w :: u32) \<longleftrightarrow> ucast (crc_upd z (crc_upd z c xs) ys) = w"
proof
  assume "crc_upd z (crc_upd z c xs) ys = ucast w"
  then show "ucast (crc_upd z (crc_upd z c xs) ys) = w" by simp
next
  assume "ucast (crc_upd z (crc_upd z c xs) ys) = w"
  then show "crc_upd z (crc_upd z c xs) ys = ucast w"
    using ucast_u64_u32 [OF zlib_okD(2) [OF assms, of "crc_upd z c xs" ys]] by simp
qed

lemma len_add_head:
  "\<not> (n :: u32) > messagemaxlen \<Longrightarrow> unat (n + of_nat FRAME_HEAD) = unat n + 20"
  by (subst unat_add_lem [THEN iffD1]) (simp_all add: word_le_nat_alt not_less)

text \<open>\<open>check_frame\<close> answers \<open>Valid\<close> exactly when the available bytes start with a frame
  that \<open>write_frame_bg\<close> builds for the expected offset, with an epoch that does not go back.\<close>

lemma check_frame_valid:
  assumes "zlib_ok z" "length p \<le> unat messagemaxlen" "prev \<le> ep"
    and "20 + length p \<le> avail" "take (20 + length p) bs = frame_bytes z off ep p"
  shows "check_frame z bs avail off prev =
    \<lparr>fc_kind = Valid, fc_len = of_nat (length p), fc_torn_len = 0, fc_epoch = ep, fc_corrupt_at = 0\<rparr>"
proof -
  have n: "unat (of_nat (length p) :: u32) = length p"
    using assms(2) by (simp add: unat_of_nat)
  have le: "\<not> (of_nat (length p) :: u32) > messagemaxlen"
    using assms(2) n by (simp add: word_less_nat_alt)
  have bs: "bs = frame_head z off ep p @ p @ drop (20 + length p) bs"
    by (metis append_assoc append_take_drop_id assms(5) frame_bytes_def)
  show ?thesis
    apply (subst bs)
    using assms le n
    by (simp add: check_frame_def Let_def frame_fields len_add_head [OF le, simplified]
        crc_eq_iff [OF assms(1)] crc_of_def)
qed

lemma check_frame_sound:
  assumes "zlib_ok z" "20 \<le> length bs" "avail \<le> length bs"
    and "fc_kind (check_frame z bs avail off prev) = Valid"
  defines "len \<equiv> read_crc_big bs 8" and "ep \<equiv> read_crc_big bs 12"
    and "p \<equiv> take (unat (read_crc_big bs 8)) (drop 20 bs)"
  shows "length p = unat len" "unat len \<le> unat messagemaxlen" "prev \<le> ep" "20 + unat len \<le> avail"
    "take (20 + length p) bs = frame_bytes z off ep p"
    "check_frame z bs avail off prev =
       \<lparr>fc_kind = Valid, fc_len = len, fc_torn_len = 0, fc_epoch = ep, fc_corrupt_at = 0\<rparr>"
proof -
  have le: "\<not> len > messagemaxlen" and ep: "\<not> ep < prev"
    using assms(4) by (auto simp: check_frame_def Let_def len_def ep_def split: if_splits)
  note add = len_add_head [OF le]
  have rest: "\<not> avail < unat (len + of_nat FRAME_HEAD)"
    and crc: "crc_upd z (crc_upd z (crc_init z) (take 8 (drop 8 bs))) p = ucast (read_crc_big bs 16)"
    and off: "read_u64_be bs 0 = off"
    and eq: "check_frame z bs avail off prev =
       \<lparr>fc_kind = Valid, fc_len = len, fc_torn_len = 0, fc_epoch = ep, fc_corrupt_at = 0\<rparr>"
    using assms(4) le ep by (auto simp: check_frame_def Let_def len_def ep_def p_def split: if_splits)
  show "unat len \<le> unat messagemaxlen" using le by (simp only: not_less word_le_nat_alt)
  show "prev \<le> ep" using ep by (simp add: not_less)
  show avail: "20 + unat len \<le> avail" using rest add by simp
  show p: "length p = unat len" using avail assms(3) by (simp add: p_def len_def)
  show "check_frame z bs avail off prev =
       \<lparr>fc_kind = Valid, fc_len = len, fc_torn_len = 0, fc_epoch = ep, fc_corrupt_at = 0\<rparr>" by (rule eq)
  have "take 20 bs = frame_head z off ep p"
    using crc frame_parts [OF assms(2)] off p
    by (simp add: crc_eq_iff [OF assms(1)] frame_head_def crc_of_def len_def ep_def)
  moreover have "take (20 + length p) bs = take 20 bs @ p"
    using p by (simp add: take_add p_def len_def)
  ultimately show "take (20 + length p) bs = frame_bytes z off ep p"
    by (simp add: frame_bytes_def)
qed

lemma check_frame_valid_iff:
  assumes "zlib_ok z" "20 \<le> length bs" "avail \<le> length bs"
  shows "fc_kind (check_frame z bs avail off prev) = Valid \<longleftrightarrow>
    (\<exists>ep p. length p \<le> unat messagemaxlen \<and> prev \<le> ep \<and> 20 + length p \<le> avail \<and>
       take (20 + length p) bs = frame_bytes z off ep p)" (is "?l \<longleftrightarrow> ?r")
proof
  assume ?l
  then show ?r
    using check_frame_sound [OF assms \<open>?l\<close>]
    by (intro exI [of _ "read_crc_big bs 12"] exI [of _ "take (unat (read_crc_big bs 8)) (drop 20 bs)"]) simp
next
  assume ?r
  then obtain ep p where "length p \<le> unat messagemaxlen" "prev \<le> ep" "20 + length p \<le> avail"
       "take (20 + length p) bs = frame_bytes z off ep p" by blast
  from check_frame_valid [OF assms(1) this] show ?l by simp
qed
lemma frame_head_neq [simp]: "frame_head z off epoch payload \<noteq> []"
  using length_frame_head [of z off epoch payload] by (metis list.size(3) zero_neq_numeral)

section \<open>What the operations leave in the file\<close>

context file_contract
begin

lemma write_len_cases:
  assumes "write_len io s buf w = (ok, s', w')" "at_file (fsv w) (sg_fd s) p fl bs"
    "0 \<le> sg_offset s" "sg_offset s \<le> int (length bs)"
  obtains (wrote) "ok" "s' = s\<lparr>sg_offset := sg_offset s + int (length buf)\<rparr>"
      "fsv w' = file_put (fsv w) p (write_at bs (nat (sg_offset s)) buf)"
  | (kept) bs' where "\<not> ok" "s' = s" "fsv w' = file_put (fsv w) p bs'"
      "sg_offset s \<le> int (length bs')"
      "take (nat (sg_offset s)) bs' = take (nat (sg_offset s)) bs"
proof -
  let ?o = "nat (sg_offset s)"
  obtain n w1 where pw: "io_pwrite io (sg_fd s) buf (sg_offset s) w = (n, w1)" by fastforce
  obtain rc w2 where ft: "io_ftruncate io (sg_fd s) (sg_offset s) w1 = (rc, w2)" by fastforce
  have o: "?o \<le> length bs" using assms(4) by simp
  from pw assms(2) show thesis
  proof (cases rule: pwrite_at)
    case failed
    then have "\<not> ok" "s' = s" "fsv w' = fsv w"
      using assms(1) pw by (auto simp: write_len_def)
    then show thesis using assms(2-4) by (intro kept [of bs]) (simp_all add: at_file_same)
  next
    case (wrote k)
    let ?new = "write_at bs ?o (take k buf)"
    have new: "?o \<le> length ?new" "take ?o ?new = take ?o bs"
      using o by (simp_all add: le_length_write_at)
    have at1: "at_file (fsv w1) (sg_fd s) p fl ?new"
      using wrote assms(2) by (simp add: at_file_fd)
    show thesis
    proof (cases "k = length buf")
      case True
      then have "ok" "s' = s\<lparr>sg_offset := sg_offset s + int (length buf)\<rparr>" "w' = w1"
        using assms(1) pw wrote by (auto simp: write_len_def)
      then show thesis using True wrote by (intro that(1)) simp_all
    next
      case False
      then have r: "\<not> ok" "s' = s" "w' = w2"
        using assms(1) pw ft wrote by (auto simp: write_len_def)
      from ft at1 show thesis
      proof (cases rule: ftruncate_at)
        case failed
        then show thesis using r wrote new assms(3) by (intro kept [of ?new]) simp_all
      next
        case cut
        then show thesis using r wrote new o assms(3) by (intro kept [of "take ?o ?new"]) simp_all
      qed
    qed
  qed
qed

lemma segment_append_cases:
  assumes "segment_append io z s payload byte_off epoch w = (ok, s', w')"
    "at_file (fsv w) (sg_fd s) p fl bs" "0 \<le> sg_offset s" "sg_offset s \<le> int (length bs)" "zlib_ok z"
  obtains (appended) "ok" "length payload \<le> unat messagemaxlen" "sg_last_epoch s \<le> epoch"
      "s' = s\<lparr>sg_offset := sg_offset s + 20 + int (length payload), sg_last_epoch := epoch\<rparr>"
      "fsv w' = file_put (fsv w) p (write_at bs (nat (sg_offset s)) (frame_bytes z byte_off epoch payload))"
  | (kept) bs' where "\<not> ok" "s' = s" "fsv w' = file_put (fsv w) p bs'"
      "sg_offset s \<le> int (length bs')"
      "take (nat (sg_offset s)) bs' = take (nat (sg_offset s)) bs"
proof (cases "int (length payload) > int (unat messagemaxlen) \<or> epoch < sg_last_epoch s")
  case True
  then have "\<not> ok" "s' = s" "w' = w"
    using assms(1) by (auto simp: segment_append_def split: if_splits)
  then show thesis using assms(2-4) by (intro kept [of bs]) (simp_all add: at_file_same)
next
  case guards: False
  let ?o = "nat (sg_offset s)" and ?head = "frame_head z byte_off epoch payload"
  have o: "?o \<le> length bs" using assms(4) by simp
  have buf: "write_frame_bg z (replicate 20 0) byte_off epoch payload = ?head"
    using guards assms(5) by (intro write_frame_eq) simp_all
  obtain ok1 s1 w1 where wl1: "write_len io s ?head w = (ok1, s1, w1)" by (metis prod_cases3)
  obtain ok2 s2 w2 where wl2: "write_len io s1 payload w1 = (ok2, s2, w2)" by (metis prod_cases3)
  have app: "(ok, s', w') = (if \<not> ok1 then (False, s1, w1)
      else if ok2 then (True, s2\<lparr>sg_last_epoch := epoch\<rparr>, w2)
      else (False, s2\<lparr>sg_offset := sg_offset s2 - 20\<rparr>,
        snd (io_ftruncate io (sg_fd s2) (sg_offset s2 - 20) w2)))"
    using assms(1) guards by (simp add: segment_append_def buf Let_def wl1 wl2 split: if_splits)
  from wl1 assms(2-4) show thesis
  proof (cases rule: write_len_cases)
    case (kept bs')
    then show thesis using app by (intro that(2) [of bs']) simp_all
  next
    case wrote
    let ?bs1 = "write_at bs ?o ?head"
    have at1: "at_file (fsv w1) (sg_fd s1) p fl ?bs1"
      using wrote assms(2) by (simp add: at_file_fd)
    have o1: "sg_offset s1 = sg_offset s + 20" "?o + 20 \<le> length ?bs1"
      using wrote o by (simp_all add: length_write_at)
    then have "0 \<le> sg_offset s1" "sg_offset s1 \<le> int (length ?bs1)" "nat (sg_offset s1) = ?o + 20"
      using assms(3) by simp_all
    note off1 = this
    from wl2 at1 off1(1,2) show thesis
    proof (cases rule: write_len_cases)
      case w2: wrote
      have "write_at ?bs1 (?o + 20) payload = write_at bs ?o (?head @ payload)"
        using write_at_append [OF o, of ?head payload] by simp
      then show thesis
        using app guards wrote w2 off1
        by (intro that(1)) (simp_all add: frame_bytes_def not_less)
    next
      case k2: (kept bs2)
      obtain rc w3 where ft: "io_ftruncate io (sg_fd s) (sg_offset s) w2 = (rc, w3)" by fastforce
      have r: "\<not> ok" "s' = s" "w' = w3"
        using app wrote k2 ft by simp_all
      have bs2: "?o \<le> length bs2" "take ?o bs2 = take ?o bs"
      proof -
        have "take ?o (take (?o + 20) bs2) = take ?o (take (?o + 20) ?bs1)"
          using k2 off1 by simp
        then show "take ?o bs2 = take ?o bs" using o by (simp add: min_def)
        show "?o \<le> length bs2" using k2 off1 by simp
      qed
      have at2: "at_file (fsv w2) (sg_fd s) p fl bs2"
        using k2 wrote assms(2) by (simp add: at_file_fd)
      from ft at2 show thesis
      proof (cases rule: ftruncate_at)
        case failed
        then show thesis using r k2 wrote bs2 assms(3) by (intro that(2) [of bs2]) simp_all
      next
        case cut
        then show thesis using r k2 wrote bs2 o assms(3) by (intro that(2) [of "take ?o bs2"]) simp_all
      qed
    qed
  qed
qed

end

context file_contract
begin

lemma creat_ok:
  assumes "creat io z clock s w = Some (True, s', w')" "sg_offset s = 0"
  shows "0 \<le> sg_fd s' \<and> fs_fds (fsv w) (sg_fd s') = None \<and> sg_path s \<notin> dom (fs_files (fsv w)) \<and>
    s' = s\<lparr>sg_fd := sg_fd s', sg_offset := 32\<rparr> \<and>
    fsv w' = file_put ((fsv w)\<lparr>fs_fds := (fs_fds (fsv w))(sg_fd s' \<mapsto> (sg_path s, [O_CREAT, O_EXCL, O_WRONLY]))\<rparr>)
      (sg_path s) (seghead_bytes z (sg_base_offset s) (now_millis clock))"
proof -
  obtain fd w1 where op: "io_open io (sg_path s) [O_CREAT, O_EXCL, O_WRONLY] 420 w = (fd, w1)" by fastforce
  let ?s1 = "s\<lparr>sg_fd := fd\<rparr>" and ?h = "seghead_bytes z (sg_base_offset s) (now_millis clock)"
  let ?v = "(fsv w)\<lparr>fs_fds := (fs_fds (fsv w))(fd \<mapsto> (sg_path s, [O_CREAT, O_EXCL, O_WRONLY]))\<rparr>"
  obtain ok s2 w2 where wl: "write_len io ?s1 ?h w1 = (ok, s2, w2)" by (metis prod_cases3)
  have fd: "fd \<noteq> -1" and ok: "ok"
    using assms(1) op wl by (auto simp: creat_def Let_def write_seghead_eq split: if_splits)
  obtain r w3 where sy: "io_fdatasync io (sg_fd s2) w2 = Some (r, w3)"
    using assms(1) op wl fd ok by (auto simp: creat_def Let_def write_seghead_eq split: option.splits)
  obtain d w4 where di: "io_fsync_dir io (dir_name (sg_path s2)) w3 = (d, w4)" by fastforce
  have res: "s' = s2" "w' = w4"
    using assms(1) op wl fd ok sy di by (auto simp: creat_def Let_def write_seghead_eq split: if_splits)
  have opened: "0 \<le> fd" "fs_fds (fsv w) fd = None" "sg_path s \<notin> dom (fs_files (fsv w))"
      "fsv w1 = file_put ?v (sg_path s) []"
    using open_law [OF op] fd by (auto simp: open_ok_def file_put_def)
  then have at: "at_file (fsv w1) (sg_fd ?s1) (sg_path s) [O_CREAT, O_EXCL, O_WRONLY] []"
    by simp
  have o: "0 \<le> sg_offset ?s1" "sg_offset ?s1 \<le> int (length ([] :: bytes))"
    using assms(2) by simp_all
  have w2: "s2 = ?s1\<lparr>sg_offset := 32\<rparr> \<and> fsv w2 = file_put ?v (sg_path s) ?h"
    using wl at o
  proof (cases rule: write_len_cases)
    case wrote
    then show ?thesis using assms(2) opened(4) by (simp add: write_at_def)
  next
    case kept
    then show ?thesis using ok by simp
  qed
  then show ?thesis
    using opened res fdatasync_same [OF sy] fsync_dir_same [OF di] by simp
qed

lemma open_append_ok:
  assumes "open_append io z s w = (True, s', w')"
  obtains bs where "fs_files (fsv w) (sg_path s) = Some bs" "32 \<le> length bs"
    "take 32 bs = seghead_bytes z (sg_base_offset s') (sg_walltime s')"
    "0 \<le> sg_fd s'" "fs_fds (fsv w) (sg_fd s') = None"
    "s' = s\<lparr>sg_fd := sg_fd s', sg_base_offset := sg_base_offset s', sg_walltime := sg_walltime s',
       sg_offset := int (length bs)\<rparr>"
    "fsv w' = (fsv w)\<lparr>fs_fds := (fs_fds (fsv w))(sg_fd s' \<mapsto> (sg_path s, [O_RDWR]))\<rparr>"
proof -
  obtain fd w1 where op: "io_open io (sg_path s) [O_RDWR] 420 w = (fd, w1)" by fastforce
  obtain n buf w2 where rd: "io_pread io fd 32 0 w1 = (n, buf, w2)" by (metis prod_cases3)
  obtain rc sz w3 where st: "io_fstat io fd w2 = (rc, sz, w3)" by (metis prod_cases3)
  have fd: "fd \<noteq> -1" and n: "n = 32"
    using assms op rd by (auto simp: open_append_def Let_def split: if_splits)
  obtain base wall where h: "compare_magic_crc z buf = Some (base, wall)"
    using assms op rd fd n by (auto simp: open_append_def Let_def split: option.splits)
  have rc: "rc \<noteq> -1"
    and res: "s' = s\<lparr>sg_fd := fd, sg_base_offset := base, sg_walltime := wall, sg_offset := sz\<rparr>" "w' = w3"
    using assms op rd fd n h st by (auto simp: open_append_def Let_def split: if_splits)
  obtain bs where opened: "0 \<le> fd" "fs_fds (fsv w) fd = None" "fs_files (fsv w) (sg_path s) = Some bs"
      "fsv w1 = (fsv w)\<lparr>fs_fds := (fs_fds (fsv w))(fd \<mapsto> (sg_path s, [O_RDWR]))\<rparr>"
    using open_law [OF op] fd by (auto simp: open_ok_def)
  then have at: "at_file (fsv w1) fd (sg_path s) [O_RDWR] bs"
    by (simp add: at_file_def)
  have buf: "length buf = 32" "buf = take 32 bs"
    using pread_at [OF rd at] n by auto
  have at2: "at_file (fsv w2) fd (sg_path s) [O_RDWR] bs"
    using at pread_same [OF rd] by simp
  have "rc = 0" using fstat_law [OF st] rc by (auto simp: fstat_ok_def)
  then have "sz = int (length bs)" using fstat_at [OF st at2] by simp
  moreover have "take 32 bs = seghead_bytes z base wall"
    using compare_magic_crc_iff [of buf z base wall] h buf by simp
  moreover have "32 \<le> length bs" using buf by simp
  ultimately show thesis
    using opened res pread_same [OF rd] fstat_same [OF st] by (intro that [of bs]) simp_all
qed

end

section \<open>A sequence of appends\<close>

text \<open>An entry is a payload with its offset and epoch. \<open>append_run\<close> performs the appends of a
  list and returns the entries that were accepted.\<close>

type_synonym entry = "bytes \<times> u64 \<times> u32"

fun append_run :: "'w file_io \<Rightarrow> zlib \<Rightarrow> segment \<Rightarrow> entry list \<Rightarrow> 'w \<Rightarrow> entry list \<times> segment \<times> 'w" where
  "append_run io z s [] w = ([], s, w)"
| "append_run io z s ((payload, off, epoch) # es) w =
     (case segment_append io z s payload off epoch w of (ok, s1, w1) \<Rightarrow>
      case append_run io z s1 es w1 of (acc, s2, w2) \<Rightarrow>
        (if ok then (payload, off, epoch) # acc else acc, s2, w2))"

definition entry_bytes :: "zlib \<Rightarrow> entry \<Rightarrow> bytes" where
  "entry_bytes z e = (case e of (payload, off, epoch) \<Rightarrow> frame_bytes z off epoch payload)"

definition log_bytes :: "zlib \<Rightarrow> entry list \<Rightarrow> bytes" where
  "log_bytes z es = concat (map (entry_bytes z) es)"

lemma log_bytes_simps [simp]:
  "log_bytes z [] = []"
  "log_bytes z (e # es) = entry_bytes z e @ log_bytes z es"
  by (simp_all add: log_bytes_def)

definition epochs_from :: "u32 \<Rightarrow> entry list \<Rightarrow> bool" where
  "epochs_from e0 es \<longleftrightarrow> sorted (e0 # map (snd \<circ> snd) es)"

lemma epochs_from_Cons:
  "e0 \<le> epoch \<Longrightarrow> epochs_from epoch es \<Longrightarrow> epochs_from e0 ((payload, off, epoch) # es)"
  by (auto simp: epochs_from_def)

context file_contract
begin

lemma append_run_log:
  assumes "append_run io z s es w = (acc, s', w')"
    "at_file (fsv w) (sg_fd s) p fl bs" "0 \<le> sg_offset s" "sg_offset s \<le> int (length bs)" "zlib_ok z"
  shows "\<exists>bs'. fsv w' = file_put (fsv w) p bs' \<and>
      sg_offset s' = sg_offset s + int (length (log_bytes z acc)) \<and>
      sg_offset s' \<le> int (length bs') \<and>
      take (nat (sg_offset s')) bs' = take (nat (sg_offset s)) bs @ log_bytes z acc \<and>
      epochs_from (sg_last_epoch s) acc \<and>
      (\<forall>e \<in> set acc. length (fst e) \<le> unat messagemaxlen)"
  using assms
proof (induction es arbitrary: s w bs acc)
  case Nil
  then show ?case
    by (intro exI [of _ bs]) (simp add: at_file_same epochs_from_def)
next
  case (Cons e es)
  obtain payload off epoch where e: "e = (payload, off, epoch)" by (metis prod_cases3)
  obtain ok s1 w1 where ap: "segment_append io z s payload off epoch w = (ok, s1, w1)" by (metis prod_cases3)
  obtain acc1 where run: "append_run io z s1 es w1 = (acc1, s', w')"
    and acc: "acc = (if ok then e # acc1 else acc1)"
    using Cons.prems(1) e ap by (auto split: prod.splits)
  let ?o = "nat (sg_offset s)"
  have o: "?o \<le> length bs" using Cons.prems(4) by simp
  from ap Cons.prems(2-5) show ?case
  proof (cases rule: segment_append_cases)
    case appended
    let ?f = "frame_bytes z off epoch payload"
    let ?bs1 = "write_at bs ?o ?f"
    have "at_file (fsv w1) (sg_fd s1) p fl ?bs1"
      using appended Cons.prems(2) by (simp add: at_file_fd)
    moreover have f: "?f \<noteq> []" by (simp add: frame_bytes_def)
    moreover have "0 \<le> sg_offset s1" "sg_offset s1 \<le> int (length ?bs1)"
      using appended Cons.prems(3) o f by (simp_all add: length_write_at)
    ultimately obtain bs' where IH: "fsv w' = file_put (fsv w1) p bs'"
      "sg_offset s' = sg_offset s1 + int (length (log_bytes z acc1))"
      "sg_offset s' \<le> int (length bs')"
      "take (nat (sg_offset s')) bs' = take (nat (sg_offset s1)) ?bs1 @ log_bytes z acc1"
      "epochs_from (sg_last_epoch s1) acc1"
      "\<forall>e \<in> set acc1. length (fst e) \<le> unat messagemaxlen"
      using Cons.IH [OF run _ _ _ Cons.prems(5)] by blast
    have "take (nat (sg_offset s1)) ?bs1 = take ?o bs @ ?f"
      using take_add_write_at [OF o, of ?f] appended Cons.prems(3)
      by (simp add: nat_add_distrib add.assoc)
    then show ?thesis
      using IH appended e acc
      by (intro exI [of _ bs']) (auto simp: entry_bytes_def intro: epochs_from_Cons)
  next
    case (kept bs1)
    have "at_file (fsv w1) (sg_fd s1) p fl bs1"
      using kept Cons.prems(2) by (simp add: at_file_fd)
    then obtain bs' where "fsv w' = file_put (fsv w1) p bs'"
      "sg_offset s' = sg_offset s1 + int (length (log_bytes z acc1))"
      "sg_offset s' \<le> int (length bs')"
      "take (nat (sg_offset s')) bs' = take (nat (sg_offset s1)) bs1 @ log_bytes z acc1"
      "epochs_from (sg_last_epoch s1) acc1"
      "\<forall>e \<in> set acc1. length (fst e) \<le> unat messagemaxlen"
      using Cons.IH [OF run _ _ _ Cons.prems(5)] kept Cons.prems(3) by blast
    then show ?thesis
      using kept acc by (intro exI [of _ bs']) simp
  qed
qed

end

section \<open>Properties\<close>

lemma length_write_frame_bg [simp]: "length (write_frame_bg z buf off epoch payload) = length buf"
  by (simp add: write_frame_bg_def Let_def)

lemma written_frame:
  "length payload \<le> 1048576 \<Longrightarrow> zlib_ok z \<Longrightarrow>
   write_frame_bg z (replicate 20 0) off epoch payload @ payload = frame_bytes z off epoch payload"
  by (simp add: frame_bytes_def write_frame_eq)

context file_contract
begin

lemma segment_append_result:
  assumes "segment_append io z s payload byte_off epoch w = (ok, s', w')"
    "at_file (fsv w) (sg_fd s) p fl bs" "0 \<le> sg_offset s" "sg_offset s \<le> int (length bs)" "zlib_ok z"
  shows "if ok
    then length payload \<le> unat messagemaxlen \<and> sg_last_epoch s \<le> epoch \<and>
      s' = s\<lparr>sg_offset := sg_offset s + 20 + int (length payload), sg_last_epoch := epoch\<rparr> \<and>
      fsv w' = file_put (fsv w) p (write_at bs (nat (sg_offset s))
        (write_frame_bg z (replicate FRAME_HEAD 0) byte_off epoch payload @ payload))
    else s' = s \<and> (\<exists>bs'. fsv w' = file_put (fsv w) p bs' \<and> sg_offset s \<le> int (length bs') \<and>
      take (nat (sg_offset s)) bs' = take (nat (sg_offset s)) bs)"
  using assms
proof (cases rule: segment_append_cases)
  case appended
  then show ?thesis by (simp add: written_frame assms(5))
next
  case (kept bs')
  then show ?thesis by (simp add: exI [of _ bs'])
qed

end

text \<open>Property C9. \<open>check_frame\<close> answers valid exactly when the available bytes begin with a frame
  that \<open>write_frame_bg\<close> produces for the expected offset, some epoch not below the previous
  one and a payload within the limit: no written frame is rejected, and no other bytes pass.
\<close>

theorem check_frame_accepts_written:
  assumes "zlib_ok z" "20 \<le> length bs" "avail \<le> length bs"
  shows "fc_kind (check_frame z bs avail off prev) = Valid \<longleftrightarrow>
    (\<exists>epoch payload. length payload \<le> unat messagemaxlen \<and> prev \<le> epoch \<and>
       20 + length payload \<le> avail \<and>
       take (20 + length payload) bs =
         write_frame_bg z (replicate FRAME_HEAD 0) off epoch payload @ payload)"
  unfolding check_frame_valid_iff [OF assms]
  by (simp add: written_frame assms(1) cong: conj_cong)

theorem check_frame_accepts_written_witness:
  "fc_kind (check_frame sum_ref (write_frame_bg sum_ref (replicate FRAME_HEAD 0) 7 3 [1, 2] @ [1, 2, 9]) 23 7 1) = Valid"
  by (subst check_frame_accepts_written [OF sum_ref_ok])
    (simp, simp, rule exI [of _ 3], rule exI [of _ "[1, 2]"], simp)

text \<open>\<open>compare_magic_crc\<close> accepts exactly the headers that
  \<open>write_seghead_bg\<close> writes with version 1, and returns the offset and the time they were written with.
\<close>

theorem header_round_trip:
  assumes "32 \<le> length bs"
  shows "compare_magic_crc z bs = Some (base_offset, walltime) \<longleftrightarrow>
    take 32 bs = write_seghead_bg z (replicate 32 0) 1 base_offset walltime"
  by (simp add: compare_magic_crc_iff [OF assms] write_seghead_eq)

theorem header_round_trip_witness:
  "compare_magic_crc sum_ref (write_seghead_bg sum_ref (replicate 32 0) 1 4096 17) = Some (4096, 17)"
  by (subst header_round_trip) (simp_all add: write_seghead_eq)

text \<open>Property C10. An append is all or nothing, whatever the calls to the file answer (errors,
  short writes, failing truncations). If it returns \<open>true\<close>, the guards held, the file is the
  old one with the frame written at the old position, and the position and last epoch moved. If
  it returns \<open>false\<close>, the object is unchanged and every byte below its position is as before.
  No other file and no descriptor changes.
\<close>

theorem segment_append_atomic:
  assumes "file_contract io fsv" "zlib_ok z"
    and "at_file (fsv w) (sg_fd s) p fl bs" "0 \<le> sg_offset s" "sg_offset s \<le> int (length bs)"
    and "segment_append io z s payload byte_off epoch w = (ok, s', w')"
  shows "if ok
    then length payload \<le> unat messagemaxlen \<and> sg_last_epoch s \<le> epoch \<and>
      s' = s\<lparr>sg_offset := sg_offset s + 20 + int (length payload), sg_last_epoch := epoch\<rparr> \<and>
      fsv w' = file_put (fsv w) p (write_at bs (nat (sg_offset s))
        (write_frame_bg z (replicate FRAME_HEAD 0) byte_off epoch payload @ payload))
    else s' = s \<and> (\<exists>bs'. fsv w' = file_put (fsv w) p bs' \<and> sg_offset s \<le> int (length bs') \<and>
      take (nat (sg_offset s)) bs' = take (nat (sg_offset s)) bs)"
  by (rule file_contract.segment_append_result [OF assms(1,6,3,4,5,2)])

text \<open>The witness: the head is written, the payload is cut after one byte and every truncation
  fails, so 21 bytes of debris stay behind the two old bytes.\<close>

theorem segment_append_atomic_witness:
  "\<exists>bs'. mem_fs (snd (snd (segment_append mem_io sum_ref
        ((segment_new ''s'')\<lparr>sg_fd := 3, sg_offset := 2\<rparr>) [1, 2, 3] 5 1
        (mem_file [Ok, Short 1, Fail (EOTHER 5), Fail (EOTHER 5)] ''s'' [O_RDWR] [8, 9]))))
      = file_put (mem_fs (mem_file [] ''s'' [O_RDWR] [8, 9])) ''s'' bs' \<and> take 2 bs' = [8, 9]"
proof -
  let ?s = "(segment_new ''s'')\<lparr>sg_fd := 3, sg_offset := 2\<rparr>"
  let ?w = "mem_file [Ok, Short 1, Fail (EOTHER 5), Fail (EOTHER 5)] ''s'' [O_RDWR] [8, 9]"
  obtain ok s' w' where r: "segment_append mem_io sum_ref ?s [1, 2, 3] 5 1 ?w = (ok, s', w')"
    by (metis prod_cases3)
  have "\<not> ok"
    using r by (simp add: segment_append_def segment_new_def write_len_def mem_eval split: if_splits)
  then show ?thesis
    using segment_append_atomic [OF mem_io_contract sum_ref_ok _ _ _ r, of "''s''" "[O_RDWR]" "[8, 9]"] r
    by (auto simp: segment_new_def mem_file_def at_file_def)
qed

text \<open>Property C11. The log is exactly what was accepted. After a segment was created and any list
  of appends was tried on it, some of them failing at any point, the file up to the object's
  position is the header followed by the frames of the accepted entries, in order; the position
  is their length, the epochs never go back and every payload is within the limit.
\<close>

theorem segment_log_exact:
  assumes "file_contract io fsv" "zlib_ok z"
    and "creat io z clock (segment_new path) w = Some (True, s, w1)"
    and "append_run io z s entries w1 = (accepted, s', w2)"
  shows "\<exists>bs. fs_files (fsv w2) path = Some bs \<and>
    sg_offset s' = 32 + int (length (log_bytes z accepted)) \<and> sg_offset s' \<le> int (length bs) \<and>
    take (nat (sg_offset s')) bs =
      write_seghead_bg z (replicate 32 0) 1 0 (now_millis clock) @ log_bytes z accepted \<and>
    epochs_from 0 accepted \<and> (\<forall>e \<in> set accepted. length (fst e) \<le> unat messagemaxlen)"
proof -
  let ?h = "seghead_bytes z 0 (now_millis clock)"
  have s: "s = (segment_new path)\<lparr>sg_fd := sg_fd s, sg_offset := 32\<rparr>"
    and file_facts: "fs_fds (fsv w1) (sg_fd s) = Some (path, [O_CREAT, O_EXCL, O_WRONLY])"
      "fs_files (fsv w1) path = Some ?h"
    using file_contract.creat_ok [OF assms(1,3)] by (simp_all add: segment_new_def)
  have c: "sg_offset s = 32" "sg_last_epoch s = 0"
    by (subst s, simp add: segment_new_def)+
  from file_facts have "at_file (fsv w1) (sg_fd s) path [O_CREAT, O_EXCL, O_WRONLY] ?h"
    by (simp add: at_file_def)
  from file_contract.append_run_log [OF assms(1,4) this _ _ assms(2)] c
  show ?thesis by (auto simp: write_seghead_eq)
qed

text \<open>The witness: the second entry is refused because its epoch goes back.\<close>

theorem segment_log_exact_witness:
  "\<exists>s w1 s' w2 bs.
     creat mem_io sum_ref 17 (segment_new ''/d/s'') (mem_init []) = Some (True, s, w1) \<and>
     append_run mem_io sum_ref s [([1, 2], 0, 4), ([3], 22, 3)] w1 = ([([1, 2], 0, 4)], s', w2) \<and>
     fs_files (mem_fs w2) ''/d/s'' = Some bs \<and> sg_offset s' = 54 \<and>
     take 54 bs = write_seghead_bg sum_ref (replicate 32 0) 1 0 17 @ log_bytes sum_ref [([1, 2], 0, 4)]"
proof -
  obtain s w1 where c: "creat mem_io sum_ref 17 (segment_new ''/d/s'') (mem_init []) = Some (True, s, w1)"
    and s: "sg_last_epoch s = 0" "sg_fd s = 3" "sg_offset s = 32" "mem_script w1 = []"
    and w1: "\<exists>bs. fs_files (mem_fs w1) ''/d/s'' = Some bs"
      "fs_fds (mem_fs w1) 3 = Some (''/d/s'', [O_CREAT, O_EXCL, O_WRONLY])"
    by (simp add: creat_def write_seghead_eq write_len_def segment_new_def mem_eval)
  obtain acc s' w2 where r: "append_run mem_io sum_ref s [([1, 2], 0, 4), ([3], 22, 3)] w1 = (acc, s', w2)"
    by (metis prod_cases3)
  have "acc = [([1, 2], 0, 4)]"
    using r s w1 by (auto simp: segment_append_def write_len_def mem_eval)
  with segment_log_exact [OF mem_io_contract sum_ref_ok c r] c r show ?thesis
    by (auto simp: entry_bytes_def now_millis_def)
qed

text \<open>Opening a segment for appending succeeds only on a file that starts with a
  header \<open>write_seghead_bg\<close> writes; it restores the header's fields, puts the position at the
  end of the file whatever stands there, and leaves the last epoch as it was (0 for a new
  object): the epochs of the frames already in the file are not read back.
\<close>

theorem open_append_state:
  assumes "file_contract io fsv" and "open_append io z s w = (True, s', w')"
  shows "\<exists>bs. fs_files (fsv w) (sg_path s) = Some bs \<and> 32 \<le> length bs \<and>
    take 32 bs = write_seghead_bg z (replicate 32 0) 1 (sg_base_offset s') (sg_walltime s') \<and>
    sg_offset s' = int (length bs) \<and> sg_last_epoch s' = sg_last_epoch s \<and> 0 \<le> sg_fd s' \<and>
    at_file (fsv w') (sg_fd s') (sg_path s) [O_RDWR] bs \<and> fs_files (fsv w') = fs_files (fsv w)"
proof -
  from file_contract.open_append_ok [OF assms] obtain bs where
    b: "fs_files (fsv w) (sg_path s) = Some bs" "32 \<le> length bs"
    "take 32 bs = seghead_bytes z (sg_base_offset s') (sg_walltime s')" "0 \<le> sg_fd s'"
    "s' = s\<lparr>sg_fd := sg_fd s', sg_base_offset := sg_base_offset s', sg_walltime := sg_walltime s',
       sg_offset := int (length bs)\<rparr>"
    "fsv w' = (fsv w)\<lparr>fs_fds := (fs_fds (fsv w))(sg_fd s' \<mapsto> (sg_path s, [O_RDWR]))\<rparr>" by metis
  have "sg_offset s' = int (length bs)" "sg_last_epoch s' = sg_last_epoch s"
    by (subst b(5), simp)+
  with b show ?thesis by (intro exI [of _ bs]) (simp add: write_seghead_eq at_file_def)
qed

theorem open_append_state_witness:
  "\<exists>s' w'. open_append mem_io sum_ref (segment_new ''s'')
       (mem_file [] ''s'' [O_RDWR] (seghead_bytes sum_ref 4096 17 @ [1, 2, 3])) = (True, s', w') \<and>
     sg_offset s' = 35 \<and> sg_last_epoch s' = 0"
proof -
  let ?w = "mem_file [] ''s'' [O_RDWR] (seghead_bytes sum_ref 4096 17 @ [1, 2, 3])"
  have "compare_magic_crc sum_ref (seghead_bytes sum_ref 4096 17) = Some (4096, 17)"
    by (simp add: compare_magic_crc_iff)
  then obtain s' w' where r: "open_append mem_io sum_ref (segment_new ''s'') ?w = (True, s', w')"
    by (simp add: open_append_def segment_new_def mem_eval)
  with open_append_state [OF mem_io_contract r] show ?thesis
    by (auto simp: segment_new_def mem_file_def)
qed

end
