(* ===== verification/Segment_recovery.thy ===== *)
theory Segment_recovery
  imports Segment "HOL-Library.Sublist"
begin

text \<open>
  The recovery of a segment after a restart, \<open>src/Segment_recovery.cpp\<close>: the scanner
  walks the frames of the file from byte 32 on, checks each with \<open>check_frame\<close>, records
  sparse index anchors and classifies the end of the file; \<open>find_idx\<close> looks an offset up
  in the anchors by binary search; \<open>turncate_segment\<close> cuts a torn tail off.

  The scanner reads the length field of the next frame from its buffer before it knows how
  many bytes the read returned, so bytes of the previous read (or of the uninitialised
  allocation) take part in the decision; the model keeps the buffer for that reason. The
  remainder by \<open>inteval\<close> traps for 0, which is the result \<open>Trap\<close>.
\<close>

section \<open>State\<close>

datatype scan_kind = Clean | Torn_tail | Scan_corrupt | Head_bad

record scan_end =
  se_kind :: scan_kind
  se_vaild_end :: u64
  se_torn_end :: u64
  se_corrupt_at :: u8
  se_last_epoch :: u32

record recovery =
  sr_buf :: bytes
  sr_idx :: "u64 list"
  sr_inteval :: int
  sr_fd :: int
  sr_offset :: u64
  sr_prev_epoch :: u32

text \<open>The contents of the fresh allocation \<open>new uint8_t[20+messagemaxlen]\<close> are unknown: they
  are an argument. The member \<open>base_offset\<close> is never used.\<close>

definition recovery_new :: "int \<Rightarrow> int \<Rightarrow> bytes \<Rightarrow> recovery" where
  "recovery_new inteval fd garbage =
     \<lparr>sr_buf = garbage, sr_idx = [], sr_inteval = inteval, sr_fd = fd, sr_offset = 32, sr_prev_epoch = 0\<rparr>"

text \<open>The destructor forgets the descriptor without closing it: the caller owns it.\<close>

definition recovery_destroy :: "recovery \<Rightarrow> recovery" where
  "recovery_destroy r = (if sr_fd r \<ge> 0 then r\<lparr>sr_fd := -1\<rparr> else r)"

section \<open>Truncation and the index\<close>

definition turncate_segment :: "'w file_io \<Rightarrow> recovery \<Rightarrow> u64 \<Rightarrow> 'w \<Rightarrow> 'w" where
  "turncate_segment io r offset w = snd (io_ftruncate io (sr_fd r) (sint offset) w)"

definition server_idx :: "recovery \<Rightarrow> u64 \<Rightarrow> recovery" where
  "server_idx r offset = r\<lparr>sr_idx := sr_idx r @ [offset]\<rparr>"

text \<open>The loop of \<open>find_idx\<close>. \<open>int result_idx\<close> is a 32-bit signed integer: assigning an
  anchor to it keeps the low 32 bits, and returning it extends the sign.\<close>

function find_loop :: "u64 list \<Rightarrow> u64 \<Rightarrow> int \<Rightarrow> int \<Rightarrow> 32 word \<Rightarrow> u64" where
  "find_loop idx target left right result_idx =
     (if left \<le> right
      then let medium = left + (right - left) div 2; a = idx ! nat medium in
        if target = a then a
        else if target > a then find_loop idx target (medium + 1) right (ucast a)
        else find_loop idx target left (medium - 1) result_idx
      else if result_idx \<noteq> -1 then scast result_idx else 0)"
  by pat_completeness auto
termination
  by (relation "measure (\<lambda>(idx, target, left, right, result_idx). nat (right + 1 - left))") auto

declare find_loop.simps [simp del]

definition find_idx :: "recovery \<Rightarrow> u64 \<Rightarrow> u64" where
  "find_idx r target =
     (if sr_idx r = [] then 0
      else find_loop (sr_idx r) target 0 (int (length (sr_idx r)) - 1) (-1))"

section \<open>The scanner\<close>

text \<open>The segment header at the head of the file: its base offset, or 0.\<close>

definition read_segment32 :: "'w file_io \<Rightarrow> zlib \<Rightarrow> int \<Rightarrow> 'w \<Rightarrow> u64 \<times> 'w" where
  "read_segment32 io z fd w =
     (case io_pread io fd 32 0 w of (n, buf, w1) \<Rightarrow>
        if n \<noteq> 32 then (0, w1)
        else case compare_magic_crc z buf of None \<Rightarrow> (0, w1) | Some (base_offset, wall) \<Rightarrow> (base_offset, w1))"

text \<open>The locals of the loop: the two counters, the answer being filled, and the object.\<close>

record scan_state =
  ss_rec :: recovery
  ss_times :: u64
  ss_byte_since :: u64
  ss_ans :: scan_end

datatype scan_iter = Return scan_state | Continue scan_state | Trap

text \<open>A valid frame: counters, anchor, position (lines 71 to 76). The remainder is taken in
  \<open>uint64_t\<close>.\<close>

definition accept_frame :: "u64 \<Rightarrow> u64 \<Rightarrow> u32 \<Rightarrow> Framecheck \<Rightarrow> scan_state \<Rightarrow> scan_iter" where
  "accept_frame base_offset filelen len result st =
     (let r = ss_rec st;
          times = ss_times st + 1;
          byte_since = ss_byte_since st + (20 + ucast len);
          ans = (ss_ans st)\<lparr>se_last_epoch := fc_epoch result\<rparr>
      in if sr_inteval r = 0 then Trap
         else let anchor = (times mod of_int (sr_inteval r) = 0 \<or> byte_since \<ge> 1024 * 64);
                  r1 = (if anchor then server_idx r (base_offset + (sr_offset r - 32)) else r);
                  r2 = r1\<lparr>sr_offset := sr_offset r1 + ucast (fc_len result + 20),
                          sr_prev_epoch := fc_epoch result\<rparr>;
                  ans = ans\<lparr>se_vaild_end := sr_offset r2\<rparr>;
                  st = \<lparr>ss_rec = r2, ss_times = (if anchor then 0 else times),
                        ss_byte_since = (if anchor then 0 else byte_since), ss_ans = ans\<rparr>
           in if se_vaild_end ans = filelen
              then Return (st\<lparr>ss_ans := ans\<lparr>se_kind := Clean\<rparr>\<rparr>)
              else Continue st)"

text \<open>One turn of the loop, with the bytes a read returned: lines 58 to 81. \<open>n\<close> is an
  \<open>int\<close>, \<open>len\<close> a \<open>uint32_t\<close> held in an \<open>int\<close>.\<close>

definition scan_frame :: "zlib \<Rightarrow> u64 \<Rightarrow> u64 \<Rightarrow> int \<Rightarrow> bytes \<Rightarrow> scan_state \<Rightarrow> scan_iter" where
  "scan_frame z base_offset filelen n data st =
     (let r = (ss_rec st)\<lparr>sr_buf := write_at (sr_buf (ss_rec st)) 0 data\<rparr>;
          st = st\<lparr>ss_rec := r\<rparr>;
          ans = ss_ans st;
          len = read_crc_big (sr_buf r) 8;
          torn = (\<lambda>ans. Return (st\<lparr>ss_ans := ans\<lparr>se_torn_end := sr_offset r, se_vaild_end := sr_offset r,
                                              se_kind := Torn_tail\<rparr>\<rparr>))
      in if len > messagemaxlen
         then Return (st\<lparr>ss_ans := ans\<lparr>se_kind := Scan_corrupt, se_corrupt_at := at_len\<rparr>\<rparr>)
         else if n < 20 then torn ans
         else if n \<ge> 20 + int (unat len)
         then let result = check_frame z (sr_buf r) (nat n) (base_offset + sr_offset r - 32) (sr_prev_epoch r);
                  ans = ans\<lparr>se_corrupt_at := fc_corrupt_at result\<rparr>
           in case fc_kind result of
                Corrupt \<Rightarrow> Return (st\<lparr>ss_ans := ans\<lparr>se_kind := Scan_corrupt\<rparr>\<rparr>)
              | Torn \<Rightarrow> torn ans
              | Valid \<Rightarrow> accept_frame base_offset filelen len result (st\<lparr>ss_ans := ans\<rparr>)
         else torn ans)"

text \<open>The loop \<open>while(1)\<close>, with the read at its head. \<open>None\<close> where it does not end,
  \<open>Some (None, w)\<close> where it traps.\<close>

definition scan_want :: "u64 \<Rightarrow> u64 \<Rightarrow> u64" where
  "scan_want filelen offset = 20 + min (ucast messagemaxlen) (filelen - offset)"

partial_function (option) scan_loop ::
  "'w file_io \<Rightarrow> zlib \<Rightarrow> u64 \<Rightarrow> u64 \<Rightarrow> scan_state \<Rightarrow> 'w \<Rightarrow> (scan_state option \<times> 'w) option" where
  "scan_loop io z base_offset filelen st w =
     (case io_pread io (sr_fd (ss_rec st)) (unat (scan_want filelen (sr_offset (ss_rec st))))
             (sint (sr_offset (ss_rec st))) w of (n, data, w1) \<Rightarrow>
      case scan_frame z base_offset filelen n data st of
        Return st1 \<Rightarrow> Some (Some st1, w1)
      | Trap \<Rightarrow> Some (None, w1)
      | Continue st1 \<Rightarrow> scan_loop io z base_offset filelen st1 w1)"

definition scan_end_init :: scan_end where
  "scan_end_init = \<lparr>se_kind = Clean, se_vaild_end = 0, se_torn_end = 0, se_corrupt_at = 0, se_last_epoch = 0\<rparr>"

text \<open>\<open>Scan_end::kind\<close> is not initialised; every return sets it. The result is the answer
  with the object, \<open>None\<close> inside for the trap.\<close>

definition segment_scanner ::
  "'w file_io \<Rightarrow> zlib \<Rightarrow> recovery \<Rightarrow> 'w \<Rightarrow> ((scan_end \<times> recovery) option \<times> 'w) option" where
  "segment_scanner io z r w =
     (case read_segment32 io z (sr_fd r) w of (base_offset, w1) \<Rightarrow>
      case io_fstat io (sr_fd r) w1 of (rc, st_size, w2) \<Rightarrow>
        if rc = -1 then Some (Some (scan_end_init\<lparr>se_kind := Scan_corrupt\<rparr>, r), w2)
        else if base_offset = 0 then Some (Some (scan_end_init\<lparr>se_kind := Head_bad\<rparr>, r), w2)
        else case scan_loop io z base_offset (of_int st_size)
               \<lparr>ss_rec = r, ss_times = 0, ss_byte_since = 0, ss_ans = scan_end_init\<rparr> w2 of
          None \<Rightarrow> None
        | Some (None, w3) \<Rightarrow> Some (None, w3)
        | Some (Some st, w3) \<Rightarrow> Some (Some (ss_ans st, ss_rec st), w3))"

section \<open>Logs a scanner accepts\<close>

text \<open>The entries of a segment as the scanner expects them: offsets that continue one
  another from \<open>e0\<close>, epochs that do not go back from \<open>ep0\<close>, payloads within the limit.\<close>

fun valid_log :: "u64 \<Rightarrow> u32 \<Rightarrow> entry list \<Rightarrow> bool" where
  "valid_log e0 ep0 [] = True"
| "valid_log e0 ep0 ((payload, off, epoch) # es) =
     (off = e0 \<and> ep0 \<le> epoch \<and> length payload \<le> unat messagemaxlen \<and>
      valid_log (e0 + of_nat (20 + length payload)) epoch es)"

fun last_epoch :: "u32 \<Rightarrow> entry list \<Rightarrow> u32" where
  "last_epoch ep0 [] = ep0"
| "last_epoch ep0 ((payload, off, epoch) # es) = last_epoch epoch es"

lemma length_entry_bytes: "length (entry_bytes z e) = 20 + length (fst e)"
  by (simp add: entry_bytes_def split: prod.splits)

section \<open>One turn of the loop\<close>

lemma unat_want:
  assumes "unat filelen < 2 ^ 63" "off \<le> filelen"
  shows "unat (scan_want filelen off) = 20 + min 1048576 (unat filelen - unat off)"
proof -
  have "unat (min 1048576 (filelen - off)) = min 1048576 (unat filelen - unat off)"
    using assms(2) by (auto simp: min_def unat_sub word_le_nat_alt)
  moreover have "unat (20 :: u64) + unat (min 1048576 (filelen - off)) < 2 ^ 64"
    by (simp add: calculation)
  ultimately show ?thesis
    by (simp add: scan_want_def unat_add_lem [THEN iffD1])
qed

text \<open>The bytes a turn looks at: the rest of the file, up to the size of the buffer.\<close>

abbreviation scan_data :: "bytes \<Rightarrow> bytes" where
  "scan_data rest \<equiv> take (20 + 1048576) rest"

definition with_data :: "bytes \<Rightarrow> scan_state \<Rightarrow> scan_state" where
  "with_data data st = st\<lparr>ss_rec := (ss_rec st)\<lparr>sr_buf := write_at (sr_buf (ss_rec st)) 0 data\<rparr>\<rparr>"

lemma with_data_simps [simp]:
  "sr_offset (ss_rec (with_data data st)) = sr_offset (ss_rec st)"
  "sr_prev_epoch (ss_rec (with_data data st)) = sr_prev_epoch (ss_rec st)"
  "sr_inteval (ss_rec (with_data data st)) = sr_inteval (ss_rec st)"
  "sr_fd (ss_rec (with_data data st)) = sr_fd (ss_rec st)"
  "sr_idx (ss_rec (with_data data st)) = sr_idx (ss_rec st)"
  "sr_buf (ss_rec (with_data data st)) = write_at (sr_buf (ss_rec st)) 0 data"
  "ss_ans (with_data data st) = ss_ans st"
  "ss_times (with_data data st) = ss_times st"
  "ss_byte_since (with_data data st) = ss_byte_since st"
  by (simp_all add: with_data_def)

text \<open>The bytes start with a frame the scanner accepts.\<close>

definition starts_frame :: "zlib \<Rightarrow> u64 \<Rightarrow> u32 \<Rightarrow> bytes \<Rightarrow> bool" where
  "starts_frame z e0 ep0 bs \<longleftrightarrow> (\<exists>ep p. length p \<le> unat messagemaxlen \<and> ep0 \<le> ep \<and>
     20 + length p \<le> length bs \<and> take (20 + length p) bs = frame_bytes z e0 ep p)"

abbreviation expected :: "u64 \<Rightarrow> scan_state \<Rightarrow> u64" where
  "expected base st \<equiv> base + sr_offset (ss_rec st) - 32"

text \<open>A complete valid frame is accepted.\<close>

lemma scan_frame_valid:
  assumes "zlib_ok z" "data = scan_data (frame_bytes z (expected base st) ep p @ rest)"
    "length p \<le> unat messagemaxlen" "sr_prev_epoch (ss_rec st) \<le> ep"
  shows "scan_frame z base filelen (int (length data)) data st =
    accept_frame base filelen (of_nat (length p))
      \<lparr>fc_kind = Valid, fc_len = of_nat (length p), fc_torn_len = 0, fc_epoch = ep, fc_corrupt_at = 0\<rparr>
      ((with_data data st)\<lparr>ss_ans := (ss_ans st)\<lparr>se_corrupt_at := 0\<rparr>\<rparr>)"
proof -
  let ?f = "frame_bytes z (expected base st) ep p"
  let ?b = "write_at (sr_buf (ss_rec st)) 0 data"
  have len: "unat (of_nat (length p) :: u32) = length p"
    using assms(3) by (simp add: unat_of_nat)
  have d: "data = ?f @ take (1048576 - length p) rest"
    using assms(2,3) by simp
  have n: "20 + length p \<le> length data"
    using d by simp
  have b: "take (20 + length p) ?b = ?f"
    using d n take_write_at_0 [of data "sr_buf (ss_rec st)"]
    by (metis append_eq_conv_conj length_frame_bytes take_take_drop)
  have l8: "read_crc_big ?b 8 = of_nat (length p)"
    using read_crc_big_take [of 8 "20 + length p" ?b]
    by (simp add: b) (simp add: frame_bytes_def frame_fields(2))
  have le: "\<not> (of_nat (length p) :: u32) > messagemaxlen"
    using assms(3) len by (simp add: word_less_nat_alt)
  show ?thesis
    using check_frame_valid [OF assms(1,3,4) n b] n l8 le len
    by (simp add: scan_frame_def Let_def with_data_def)
qed

text \<open>Anything else ends the scan: with a torn tail if the length field is within the limit and the
  frame incomplete, else with corruption. The length field is read from the buffer: where the
  rest has fewer than 12 bytes, the missing ones are those that \<open>buf\<close>, the buffer before, had there.\<close>

definition stop_kind :: "bytes \<Rightarrow> bytes \<Rightarrow> scan_kind" where
  "stop_kind buf rest = (let len = read_crc_big (write_at buf 0 rest) 8 in
     if len \<le> messagemaxlen \<and> length rest < 20 + unat len then Torn_tail else Scan_corrupt)"

lemma write_at_start: "write_at buf 0 new = new @ drop (length new) buf"
  by (cases "new = []") (simp_all add: write_at_def)

text \<open>Only the first twelve bytes of the buffer matter, and none if the rest has as many.\<close>

lemma head_cong:
  assumes "take 12 b = take 12 b'"
  shows "read_crc_big b 8 = read_crc_big b' 8"
  using read_crc_big_take [of 8 12 b] read_crc_big_take [of 8 12 b'] assms by simp

lemma take_write_at_start: "take k (write_at buf 0 new) = take k new @ drop (length new) (take k buf)"
  by (simp add: write_at_start drop_take)

lemma stop_kind_cong: "take 12 buf = take 12 buf' \<Longrightarrow> stop_kind buf rest = stop_kind buf' rest"
  using head_cong [of "write_at buf 0 rest" "write_at buf' 0 rest"] by (simp add: stop_kind_def take_write_at_start)

lemma stop_kind_long:
  assumes "12 \<le> length rest"
  shows "stop_kind buf rest = (if read_crc_big rest 8 \<le> messagemaxlen \<and> length rest < 20 + unat (read_crc_big rest 8)
    then Torn_tail else Scan_corrupt)"
  using head_cong [of "write_at buf 0 rest" rest] assms by (simp add: stop_kind_def Let_def take_write_at_start)

lemma scan_frame_stop:
  assumes "zlib_ok z" "data = scan_data rest" "\<not> starts_frame z (expected base st) (sr_prev_epoch (ss_rec st)) rest"
  defines "k \<equiv> stop_kind (sr_buf (ss_rec st)) rest"
  shows "\<exists>c. scan_frame z base filelen (int (length data)) data st =
      Return ((with_data data st)\<lparr>ss_ans := (if k = Torn_tail
        then (ss_ans st)\<lparr>se_corrupt_at := c, se_torn_end := sr_offset (ss_rec st),
               se_vaild_end := sr_offset (ss_rec st), se_kind := k\<rparr>
        else (ss_ans st)\<lparr>se_corrupt_at := c, se_kind := k\<rparr>)\<rparr>)"
proof -
  let ?b = "write_at (sr_buf (ss_rec st)) 0 data" and ?n = "length data"
  define len where "len = read_crc_big ?b 8"
  have head: "take 12 ?b = take 12 (write_at (sr_buf (ss_rec st)) 0 rest)"
    using assms(2) by (auto simp: take_write_at_start min_def drop_take)
  then have k: "k = (if len \<le> messagemaxlen \<and> length rest < 20 + unat len then Torn_tail else Scan_corrupt)"
    using head_cong [OF head] by (simp add: k_def stop_kind_def len_def Let_def)
  let ?chk = "check_frame z ?b ?n (expected base st) (sr_prev_epoch (ss_rec st))"
  have inv: "fc_kind ?chk \<noteq> Valid" if n20: "20 \<le> ?n"
  proof
    assume "fc_kind ?chk = Valid"
    then obtain ep p where p: "length p \<le> unat messagemaxlen" "sr_prev_epoch (ss_rec st) \<le> ep" "20 + length p \<le> ?n"
        "take (20 + length p) ?b = frame_bytes z (expected base st) ep p"
      using check_frame_valid_iff [OF assms(1), of ?b ?n] n20 length_write_at_ge [of data]
      by (meson order_trans)
    then have "take (20 + length p) rest = frame_bytes z (expected base st) ep p"
      using assms(2) by (simp add: take_write_at_ge)
    moreover have "20 + length p \<le> length rest" using p(3) assms(2) by simp
    ultimately show False using assms(3) p unfolding starts_frame_def by blast
  qed
  consider (long) "len > messagemaxlen" | (short) "\<not> len > messagemaxlen" "?n < 20 + unat len"
    | (bad) "\<not> len > messagemaxlen" "20 + unat len \<le> ?n" by linarith
  then show ?thesis
  proof cases
    case long
    then have "k = Scan_corrupt" using k by auto
    then show ?thesis
      using long by (intro exI [of _ at_len])
        (simp add: scan_frame_def Let_def with_data_def len_def)
  next
    case short
    have lt: "\<not> 20 + int (unat len) \<le> int ?n" using short(2) by linarith
    have "length rest = ?n"
    proof -
      have "unat len \<le> 1048576" using short(1) by (simp add: word_le_nat_alt not_less)
      then show ?thesis using short(2) assms(2) by (simp add: min_def split: if_splits)
    qed
    then have "k = Torn_tail" using short k by (auto simp: not_less)
    moreover have "scan_frame z base filelen (int ?n) data st =
       Return ((with_data data st)\<lparr>ss_ans := (ss_ans st)\<lparr>se_corrupt_at := se_corrupt_at (ss_ans st),
          se_torn_end := sr_offset (ss_rec st), se_vaild_end := sr_offset (ss_rec st), se_kind := Torn_tail\<rparr>\<rparr>)"
      using short(1) lt by (auto simp: scan_frame_def Let_def with_data_def len_def)
    ultimately show ?thesis
      by (intro exI [of _ "se_corrupt_at (ss_ans st)"]) simp
  next
    case bad
    then have n20: "20 \<le> ?n" and ge: "20 + int (unat len) \<le> int ?n" by linarith+
    have "\<not> ?n < unat (len + of_nat FRAME_HEAD)"
      using bad len_add_head [OF bad(1)] by simp
    then have "fc_kind ?chk \<noteq> Torn"
      using bad(1) by (simp add: check_frame_def Let_def len_def)
    then have corrupt: "fc_kind ?chk = Corrupt"
      using inv [OF n20] by (cases "fc_kind ?chk") simp_all
    have "k = Scan_corrupt" using k bad assms(2) by auto
    moreover have "scan_frame z base filelen (int ?n) data st =
       Return ((with_data data st)\<lparr>ss_ans := (ss_ans st)\<lparr>se_corrupt_at := fc_corrupt_at ?chk, se_kind := Scan_corrupt\<rparr>\<rparr>)"
      using bad(1) ge n20 corrupt by (simp add: scan_frame_def Let_def with_data_def len_def)
    ultimately show ?thesis
      by (intro exI [of _ "fc_corrupt_at ?chk"]) simp
  qed
qed

lemma accept_len:
  assumes "length p \<le> unat messagemaxlen"
  shows "ucast ((of_nat (length p) :: u32) + 20) = (of_nat (20 + length p) :: u64)"
proof (rule unsigned_word_eqI)
  have "unat (of_nat (length p) + 20 :: u32) = length p + 20"
    using assms by (subst unat_add_lem [THEN iffD1]) (simp_all add: unat_of_nat)
  moreover have "unat (of_nat (20 + length p) :: u64) = 20 + length p"
    using assms by (subst unat_of_nat) (simp add: take_bit_nat_eq_self)
  ultimately show "unat (ucast ((of_nat (length p) :: u32) + 20) :: u64) = unat (of_nat (20 + length p) :: u64)"
    using assms by (simp only: unsigned_ucast_eq) (simp add: take_bit_nat_eq_self)
qed

lemma accept_frame_step:
  assumes "sr_inteval (ss_rec st) \<noteq> 0" "length p \<le> unat messagemaxlen" "fc_epoch res = ep"
    "fc_len res = of_nat (length p)"
  obtains st' where
    "accept_frame base filelen (of_nat (length p)) res st =
       (if sr_offset (ss_rec st') = filelen then Return (st'\<lparr>ss_ans := (ss_ans st')\<lparr>se_kind := Clean\<rparr>\<rparr>) else Continue st')"
    "sr_offset (ss_rec st') = sr_offset (ss_rec st) + of_nat (20 + length p)"
    "sr_prev_epoch (ss_rec st') = ep" "sr_fd (ss_rec st') = sr_fd (ss_rec st)"
    "sr_inteval (ss_rec st') = sr_inteval (ss_rec st)"
    "se_vaild_end (ss_ans st') = sr_offset (ss_rec st')" "se_last_epoch (ss_ans st') = ep"
    "sr_idx (ss_rec st') = sr_idx (ss_rec st) \<or>
     sr_idx (ss_rec st') = sr_idx (ss_rec st) @ [base + (sr_offset (ss_rec st) - 32)]"
    "sr_buf (ss_rec st') = sr_buf (ss_rec st)"
proof -
  define times where "times = ss_times st + 1"
  define since where "since = ss_byte_since st + (20 + ucast (of_nat (length p) :: u32))"
  define anchor where "anchor \<longleftrightarrow> times mod of_int (sr_inteval (ss_rec st)) = 0 \<or> since \<ge> 1024 * 64"
  define r1 where "r1 = (if anchor then server_idx (ss_rec st) (base + (sr_offset (ss_rec st) - 32)) else ss_rec st)"
  define off where "off = sr_offset (ss_rec st) + of_nat (20 + length p)"
  define st' where "st' = \<lparr>ss_rec = r1\<lparr>sr_offset := off, sr_prev_epoch := ep\<rparr>,
     ss_times = (if anchor then 0 else times), ss_byte_since = (if anchor then 0 else since),
     ss_ans = (ss_ans st)\<lparr>se_last_epoch := ep, se_vaild_end := off\<rparr>\<rparr>"
  have r1: "sr_offset r1 = sr_offset (ss_rec st)" "sr_fd r1 = sr_fd (ss_rec st)" "sr_inteval r1 = sr_inteval (ss_rec st)"
    "sr_buf r1 = sr_buf (ss_rec st)"
    "sr_idx r1 = sr_idx (ss_rec st) \<or> sr_idx r1 = sr_idx (ss_rec st) @ [base + (sr_offset (ss_rec st) - 32)]"
    by (simp_all add: r1_def server_idx_def)
  show thesis
  proof (rule that [of st'])
    show "accept_frame base filelen (of_nat (length p)) res st =
       (if sr_offset (ss_rec st') = filelen then Return (st'\<lparr>ss_ans := (ss_ans st')\<lparr>se_kind := Clean\<rparr>\<rparr>) else Continue st')"
      unfolding accept_frame_def Let_def times_def [symmetric] since_def [symmetric]
        anchor_def [symmetric] r1_def [symmetric] assms(3,4) accept_len [OF assms(2)] r1(1) off_def [symmetric]
      using assms(1) by (simp add: st'_def)
  qed (use r1 in \<open>simp_all add: st'_def off_def\<close>)
qed

lemma starts_frameE:
  assumes "starts_frame z e0 ep0 bs"
  obtains ep p rest where "length p \<le> unat messagemaxlen" "ep0 \<le> ep" "bs = frame_bytes z e0 ep p @ rest"
  using assms unfolding starts_frame_def by (metis append_take_drop_id)

lemma starts_frameI:
  "length p \<le> unat messagemaxlen \<Longrightarrow> ep0 \<le> ep \<Longrightarrow> starts_frame z e0 ep0 (frame_bytes z e0 ep p @ rest)"
  unfolding starts_frame_def by (intro exI [of _ ep] exI [of _ p]) simp


section \<open>The whole scan\<close>

definition entry_off :: "entry \<Rightarrow> u64" where
  "entry_off e = fst (snd e)"

text \<open>The answer and the new index when, from position \<open>off\<close> on, the file holds the frames
  \<open>es\<close> and then \<open>rest\<close>, at which no further frame starts; \<open>vend\<close> and \<open>lep\<close> are the
  values of the answer before, \<open>buf\<close> is the buffer before. At the stop, the buffer starts with the last frame.\<close>

definition scan_outcome ::
  "zlib \<Rightarrow> bytes \<Rightarrow> u64 \<Rightarrow> u64 \<Rightarrow> u32 \<Rightarrow> entry list \<Rightarrow> bytes \<Rightarrow> scan_end \<Rightarrow> u64 list \<Rightarrow> bool" where
  "scan_outcome z buf off vend lep es rest ans anchors \<longleftrightarrow>
     se_kind ans = (if rest = [] \<and> es \<noteq> [] then Clean
       else stop_kind (if es = [] then buf else entry_bytes z (last es)) rest) \<and>
     se_vaild_end ans = (if se_kind ans = Scan_corrupt \<and> es = [] then vend
                         else off + of_nat (length (log_bytes z es))) \<and>
     (se_kind ans = Torn_tail \<longrightarrow> se_torn_end ans = se_vaild_end ans) \<and>
     se_last_epoch ans = (if es = [] then lep else last_epoch 0 es) \<and>
     subseq anchors (map entry_off es)"

lemma stop_kind_cases: "stop_kind buf rest = Torn_tail \<or> stop_kind buf rest = Scan_corrupt"
  by (simp add: stop_kind_def Let_def)

lemma scan_outcome_stop:
  assumes "k = stop_kind buf rest"
  shows "scan_outcome z buf off (se_vaild_end ans) (se_last_epoch ans) [] rest
    (if k = Torn_tail then ans\<lparr>se_corrupt_at := c, se_torn_end := off, se_vaild_end := off, se_kind := k\<rparr>
     else ans\<lparr>se_corrupt_at := c, se_kind := k\<rparr>) []"
  using assms stop_kind_cases [of buf rest] by (auto simp: scan_outcome_def)

lemma scan_outcome_clean:
  assumes "se_vaild_end ans = off + of_nat (20 + length p)" "se_last_epoch ans = ep"
    "anchors = [] \<or> anchors = [e0]"
  shows "scan_outcome z buf off vend lep [(p, e0, ep)] [] (ans\<lparr>se_kind := Clean\<rparr>) anchors"
  using assms by (auto simp: scan_outcome_def entry_off_def length_entry_bytes)

lemma scan_outcome_Cons:
  assumes "scan_outcome z buf' (off + of_nat (20 + length p)) (off + of_nat (20 + length p)) ep es rest ans anchors"
    "rest \<noteq> [] \<or> es \<noteq> []" "as = [] \<or> as = [e0]" "take 12 buf' = take 12 (entry_bytes z (p, e0, ep))"
  shows "scan_outcome z buf off vend lep ((p, e0, ep) # es) rest ans (as @ anchors)"
  using assms stop_kind_cong [OF assms(4), of rest] stop_kind_cases [of buf' rest]
  by (cases es) (auto simp: scan_outcome_def entry_off_def length_entry_bytes add_ac
     intro: list_emb_Cons)

context file_contract_full
begin

lemma scan_loop_outcome:
  assumes z: "zlib_ok z"
    and "at_file (fsv w) (sr_fd (ss_rec st)) p fl bs" "readable fl" "length bs < 2 ^ 63"
      "sr_inteval (ss_rec st) \<noteq> 0 \<or> \<not> starts_frame z (expected base st) (sr_prev_epoch (ss_rec st)) rest"
      "drop (unat (sr_offset (ss_rec st))) bs = rest" "unat (sr_offset (ss_rec st)) \<le> length bs"
  shows "\<exists>es tail st' w' as.
    scan_loop io z base (of_nat (length bs)) st w = Some (Some st', w') \<and> fsv w' = fsv w \<and>
    rest = log_bytes z es @ tail \<and> valid_log (expected base st) (sr_prev_epoch (ss_rec st)) es \<and>
    \<not> starts_frame z (expected base st + of_nat (length (log_bytes z es)))
        (last_epoch (sr_prev_epoch (ss_rec st)) es) tail \<and>
    sr_idx (ss_rec st') = sr_idx (ss_rec st) @ as \<and> sr_fd (ss_rec st') = sr_fd (ss_rec st) \<and>
    scan_outcome z (sr_buf (ss_rec st)) (sr_offset (ss_rec st)) (se_vaild_end (ss_ans st)) (se_last_epoch (ss_ans st)) es tail (ss_ans st') as"
  using assms(2-)
proof (induction "length rest" arbitrary: rest st w rule: less_induct)
  case less
  let ?off = "sr_offset (ss_rec st)" and ?prev = "sr_prev_epoch (ss_rec st)" and ?len = "of_nat (length bs) :: u64"
  have ulen: "unat ?len = length bs"
    using less.prems(3) by (simp add: unat_of_nat take_bit_nat_eq_self)
  obtain n data w1 where rd: "io_pread io (sr_fd (ss_rec st)) (unat (scan_want ?len ?off)) (sint ?off) w = (n, data, w1)"
    by (metis prod_cases3)
  have off: "unat ?off < 2 ^ 63" using less.prems(3,6) by linarith
  have want: "unat (scan_want ?len ?off) = 20 + min 1048576 (length rest)"
    using less.prems(3,5,6) ulen unat_want [of ?len ?off] by (auto simp: word_le_nat_alt)
  have "0 \<le> sint ?off" by (simp only: sint_unat [OF off])
  note full = pread_full_at [OF less.prems(1,2) this rd]
  have data: "data = scan_data rest" and n: "n = int (length data)" and w1: "fsv w1 = fsv w"
    using full less.prems(5) by (simp_all add: want sint_unat [OF off] min_def)
  note loop = scan_loop.simps [of io z base ?len st w, unfolded rd prod.case n]
  show ?case
  proof (cases "starts_frame z (expected base st) ?prev rest")
    case False
    define k where "k = stop_kind (sr_buf (ss_rec st)) rest"
    from scan_frame_stop [OF z data False, of ?len, folded k_def] obtain c where
      k: "scan_frame z base ?len (int (length data)) data st = Return ((with_data data st)\<lparr>ss_ans := (if k = Torn_tail
        then (ss_ans st)\<lparr>se_corrupt_at := c, se_torn_end := ?off, se_vaild_end := ?off, se_kind := k\<rparr>
        else (ss_ans st)\<lparr>se_corrupt_at := c, se_kind := k\<rparr>)\<rparr>)" by blast
    show ?thesis
      using loop scan_outcome_stop [OF k_def, of z ?off "ss_ans st" c] False w1
      by (intro exI [of _ "[]"] exI [of _ rest]) (simp add: k with_data_def)
  next
    case True
    then have nz: "sr_inteval (ss_rec st) \<noteq> 0" using less.prems(4) by simp
    from True obtain ep p rest' where p: "length p \<le> unat messagemaxlen" "?prev \<le> ep"
        "rest = frame_bytes z (expected base st) ep p @ rest'" by (rule starts_frameE)
    let ?st = "(with_data data st)\<lparr>ss_ans := (ss_ans st)\<lparr>se_corrupt_at := 0\<rparr>\<rparr>"
    obtain st' where st': "accept_frame base ?len (of_nat (length p))
        \<lparr>fc_kind = Valid, fc_len = of_nat (length p), fc_torn_len = 0, fc_epoch = ep, fc_corrupt_at = 0\<rparr> ?st =
       (if sr_offset (ss_rec st') = ?len then Return (st'\<lparr>ss_ans := (ss_ans st')\<lparr>se_kind := Clean\<rparr>\<rparr>) else Continue st')"
      "sr_offset (ss_rec st') = ?off + of_nat (20 + length p)"
      "sr_prev_epoch (ss_rec st') = ep" "sr_fd (ss_rec st') = sr_fd (ss_rec st)"
      "sr_inteval (ss_rec st') = sr_inteval (ss_rec st)"
      "se_vaild_end (ss_ans st') = sr_offset (ss_rec st')" "se_last_epoch (ss_ans st') = ep"
      "sr_idx (ss_rec st') = sr_idx (ss_rec st) \<or>
       sr_idx (ss_rec st') = sr_idx (ss_rec st) @ [base + (?off - 32)]"
      "sr_buf (ss_rec st') = write_at (sr_buf (ss_rec st)) 0 data"
      using nz
      by (rule_tac accept_frame_step [where st = ?st and p = p and ep = ep and base = base and filelen = ?len
          and res = "\<lparr>fc_kind = Valid, fc_len = of_nat (length p), fc_torn_len = 0, fc_epoch = ep, fc_corrupt_at = 0\<rparr>"])
        (use p(1) in simp_all)
    have sf: "scan_frame z base ?len (int (length data)) data st =
       (if sr_offset (ss_rec st') = ?len then Return (st'\<lparr>ss_ans := (ss_ans st')\<lparr>se_kind := Clean\<rparr>\<rparr>) else Continue st')"
      using scan_frame_valid [OF z _ p(1,2), where data = data and base = base and rest = rest'] data p(3) st'(1) by simp
    have head: "take 12 (sr_buf (ss_rec st')) = take 12 (entry_bytes z (p, expected base st, ep))"
      using data p(3) by (simp add: st'(9) take_write_at_start entry_bytes_def)
    have blen: "length bs = unat ?off + (20 + length p) + length rest'"
      using arg_cong [OF less.prems(5), of length] less.prems(6) p(3) by simp
    have uoff: "unat (sr_offset (ss_rec st')) = unat ?off + (20 + length p)"
      unfolding st'(2) using blen less.prems(3) by (intro unat_add_of_nat) simp
    have fin: "sr_offset (ss_rec st') = ?len \<longleftrightarrow> rest' = []"
      using uoff ulen blen by (metis add.right_neutral add_left_cancel length_0_conv unsigned_word_eqI)
    have exp': "expected base st' = expected base st + of_nat (20 + length p)"
      by (simp add: st'(2))
    obtain as where as: "sr_idx (ss_rec st') = sr_idx (ss_rec st) @ as" "as = [] \<or> as = [expected base st]"
      using st'(8) by (auto simp: algebra_simps)
    show ?thesis
    proof (cases "rest' = []")
      case True
      have "scan_outcome z (sr_buf (ss_rec st)) ?off (se_vaild_end (ss_ans st)) (se_last_epoch (ss_ans st)) [(p, expected base st, ep)] []
         ((ss_ans st')\<lparr>se_kind := Clean\<rparr>) as"
        using st' as(2) by (intro scan_outcome_clean) simp_all
      then show ?thesis
        using loop sf fin True w1 p st'(4) as
        by (intro exI [of _ "[(p, expected base st, ep)]"] exI [of _ "[]"]
           exI [of _ "st'\<lparr>ss_ans := (ss_ans st')\<lparr>se_kind := Clean\<rparr>\<rparr>"] exI [of _ w1] exI [of _ as])
          (simp add: entry_bytes_def starts_frame_def)
    next
      case False
      have sub: "length rest' < length rest" using p(3) by simp
      have d: "drop (unat (sr_offset (ss_rec st'))) bs = rest'"
        unfolding uoff using drop_eq_append_length [of "unat ?off" bs, OF less.prems(5) [unfolded p(3)]] by simp
      obtain es tail st2 w2 as2 where r:
          "scan_loop io z base ?len st' w1 = Some (Some st2, w2)" "fsv w2 = fsv w1"
          "rest' = log_bytes z es @ tail" "valid_log (expected base st') ep es"
          "\<not> starts_frame z (expected base st' + of_nat (length (log_bytes z es))) (last_epoch ep es) tail"
          "sr_idx (ss_rec st2) = sr_idx (ss_rec st') @ as2" "sr_fd (ss_rec st2) = sr_fd (ss_rec st')"
          "scan_outcome z (sr_buf (ss_rec st')) (sr_offset (ss_rec st')) (se_vaild_end (ss_ans st')) (se_last_epoch (ss_ans st')) es tail (ss_ans st2) as2"
        using less.hyps [OF sub, of w1 st'] less.prems(1-3) nz w1 st'(3,4,5) d uoff blen by auto
      have "scan_outcome z (sr_buf (ss_rec st)) ?off (se_vaild_end (ss_ans st)) (se_last_epoch (ss_ans st))
         ((p, expected base st, ep) # es) tail (ss_ans st2) (as @ as2)"
        using r(3,8) False st'(2,6,7) as(2) head by (intro scan_outcome_Cons [where buf' = "sr_buf (ss_rec st')"]) auto
      moreover have "scan_loop io z base ?len st w = Some (Some st2, w2)"
        using loop sf fin False r(1) by simp
      ultimately show ?thesis
        using w1 p st'(4) as r(2-7) exp'
        by (intro exI [of _ "(p, expected base st, ep) # es"] exI [of _ tail]
           exI [of _ st2] exI [of _ w2] exI [of _ "as @ as2"])
          (simp add: entry_bytes_def add_ac)
    qed
  qed
qed

end

section \<open>Splitting a file into frames\<close>

lemma of_nat_len_inject:
  assumes "(of_nat m :: u32) = of_nat n" "m \<le> unat messagemaxlen" "n \<le> unat messagemaxlen"
  shows "m = n"
proof -
  have "unat (of_nat k :: u32) = k" if "k \<le> unat messagemaxlen" for k
    using that by (subst unat_of_nat) (simp add: take_bit_nat_eq_self)
  then show ?thesis using assms by metis
qed

lemma frame_bytes_inject:
  assumes "frame_bytes z e0 ep p @ r = frame_bytes z e0 ep' p' @ r'"
    "length p \<le> unat messagemaxlen" "length p' \<le> unat messagemaxlen"
  shows "p = p' \<and> ep = ep' \<and> r = r'"
proof -
  have f: "read_crc_big (frame_bytes z e0 ep p @ r) 8 = of_nat (length p)"
    "read_crc_big (frame_bytes z e0 ep p @ r) 12 = ep" for ep p r
    by (simp_all add: frame_bytes_def frame_fields)
  have "(of_nat (length p) :: u32) = of_nat (length p')" "ep = ep'"
    using f [of ep p r] f [of ep' p' r'] by (simp_all add: assms(1))
  then have "length p = length p'" "ep = ep'"
    using of_nat_len_inject assms(2,3) by blast+
  then show ?thesis using assms(1) by (simp add: frame_bytes_def)
qed

lemma starts_frame_entry:
  assumes "valid_log e0 ep (e # es)"
  shows "starts_frame z e0 ep (entry_bytes z e @ rest)"
  using assms by (cases e) (auto simp: entry_bytes_def intro: starts_frameI)

text \<open>A file has one split into valid frames and a rest where no further frame starts.\<close>

lemma log_split_unique:
  assumes "log_bytes z es @ t = log_bytes z es' @ t'" "valid_log e0 ep es" "valid_log e0 ep es'"
    "\<not> starts_frame z (e0 + of_nat (length (log_bytes z es))) (last_epoch ep es) t"
    "\<not> starts_frame z (e0 + of_nat (length (log_bytes z es'))) (last_epoch ep es') t'"
  shows "es = es' \<and> t = t'"
  using assms
proof (induction es arbitrary: es' e0 ep)
  case Nil
  show ?case
  proof (cases es')
    case (Cons e es1)
    then show ?thesis
      using Nil starts_frame_entry [of e0 ep e es1 z "log_bytes z es1 @ t'"] by simp
  qed (use Nil in simp)
next
  case (Cons e es)
  obtain p o1 ep1 where e: "e = (p, o1, ep1)" by (metis prod_cases3)
  show ?case
  proof (cases es')
    case Nil
    then show ?thesis
      using Cons.prems starts_frame_entry [OF Cons.prems(2), of z "log_bytes z es @ t"] by simp
  next
    case c: (Cons e' es1)
    obtain p' o2 ep2 where e': "e' = (p', o2, ep2)" by (metis prod_cases3)
    have inj: "p = p' \<and> ep1 = ep2 \<and> log_bytes z es @ t = log_bytes z es1 @ t'"
      by (rule frame_bytes_inject [of z e0]) (use Cons.prems c e e' in \<open>auto simp: entry_bytes_def\<close>)
    then have "es = es1 \<and> t = t'"
      by (intro Cons.IH [of es1 "e0 + of_nat (20 + length p)" ep1])
        (use Cons.prems c e e' in \<open>auto simp: length_entry_bytes add_ac\<close>)
    then show ?thesis using inj c e e' Cons.prems by simp
  qed
qed

lemma not_starts_short: "length bs < 20 \<Longrightarrow> \<not> starts_frame z e0 ep bs"
  by (auto simp: starts_frame_def)

lemma not_starts_cut:
  assumes "length p \<le> unat messagemaxlen" "j < 20 + length p"
  shows "\<not> starts_frame z e0 ep0 (take j (frame_bytes z e0' ep p @ rest))"
proof
  let ?b = "take j (frame_bytes z e0' ep p @ rest)"
  assume "starts_frame z e0 ep0 ?b"
  then obtain ep' p' r' where s: "length p' \<le> unat messagemaxlen" "?b = frame_bytes z e0 ep' p' @ r'"
    by (rule starts_frameE)
  have l: "20 + length p' \<le> j"
    using arg_cong [OF s(2), of length] by simp
  have "read_crc_big ?b 8 = of_nat (length p)"
    using l by (simp only: read_crc_big_take) (simp add: frame_bytes_def frame_fields)
  moreover have "read_crc_big ?b 8 = of_nat (length p')"
    unfolding s(2) by (simp add: frame_bytes_def frame_fields)
  ultimately have "(of_nat (length p) :: u32) = of_nat (length p')" by simp
  then have "length p = length p'"
    using of_nat_len_inject assms(1) s(1) by blast
  then show False using l assms(2) by simp
qed

section \<open>The verdict on a file\<close>

definition scan_verdict :: "zlib \<Rightarrow> bytes \<Rightarrow> bytes \<Rightarrow> scan_end \<Rightarrow> u64 list \<Rightarrow> bool" where
  "scan_verdict z garbage bs ans idx \<longleftrightarrow>
     (if \<exists>base wall. base \<noteq> 0 \<and> take 32 bs = seghead_bytes z base wall
      then \<exists>base wall es rest. base \<noteq> 0 \<and> bs = seghead_bytes z base wall @ log_bytes z es @ rest \<and>
        valid_log base 0 es \<and>
        \<not> starts_frame z (base + of_nat (length (log_bytes z es))) (last_epoch 0 es) rest \<and>
        scan_outcome z garbage 32 0 0 es rest ans idx
      else se_kind ans = Head_bad \<and> idx = [])"

text \<open>A first frame that is valid sends the scanner to \<open>times%inteval\<close>.\<close>

definition first_frame :: "zlib \<Rightarrow> bytes \<Rightarrow> bool" where
  "first_frame z bs \<longleftrightarrow> (\<exists>base wall. base \<noteq> 0 \<and> take 32 bs = seghead_bytes z base wall \<and>
     starts_frame z base 0 (drop 32 bs))"

context file_contract_full
begin

lemma read_segment32_at:
  assumes "at_file (fsv w) fd p fl bs" "readable fl" "read_segment32 io z fd w = (base, w1)"
  shows "fsv w1 = fsv w \<and> (if \<exists>b wall. take 32 bs = seghead_bytes z b wall
     then \<exists>wall. take 32 bs = seghead_bytes z base wall else base = 0)"
proof -
  obtain n buf w2 where rd: "io_pread io fd 32 0 w = (n, buf, w2)" by (metis prod_cases3)
  have f: "buf = take 32 bs" "n = int (length buf)" "fsv w2 = fsv w"
    using pread_full_at [OF assms(1,2) _ rd] by simp_all
  show ?thesis
  proof (cases "length bs < 32")
    case True
    then have "\<nexists>b wall. take 32 bs = seghead_bytes z b wall"
      by (metis length_seghead_bytes length_take min_less_iff_conj nat_neq_iff)
    then show ?thesis using assms(3) rd f True by (auto simp: read_segment32_def)
  next
    case False
    then have m: "compare_magic_crc z buf = Some (b, wall) \<longleftrightarrow> take 32 bs = seghead_bytes z b wall" for b wall
      using compare_magic_crc_iff [of buf z b wall] f(1) by simp
    have "n = 32" using False f by simp
    then show ?thesis
      using assms(3) rd f(3) m
      by (cases "compare_magic_crc z buf") (fastforce simp: read_segment32_def)+
  qed
qed

lemma segment_scanner_verdict:
  assumes "zlib_ok z" "at_file (fsv w) fd p fl bs" "readable fl" "length bs < 2 ^ 63"
    "inteval \<noteq> 0 \<or> \<not> first_frame z bs"
  shows "\<exists>ans r' w'. segment_scanner io z (recovery_new inteval fd garbage) w = Some (Some (ans, r'), w') \<and>
    fsv w' = fsv w \<and> sr_fd r' = fd \<and> scan_verdict z garbage bs ans (sr_idx r')"
proof -
  let ?r = "recovery_new inteval fd garbage"
  have r: "sr_fd ?r = fd" "sr_inteval ?r = inteval" "sr_offset ?r = 32" "sr_prev_epoch ?r = 0" "sr_idx ?r = []"
    by (simp_all add: recovery_new_def)
  obtain base w1 where rs: "read_segment32 io z fd w = (base, w1)" by fastforce
  obtain rc sz w2 where st: "io_fstat io fd w1 = (rc, sz, w2)" by (metis prod_cases3)
  have w1: "fsv w1 = fsv w" and base: "if \<exists>b wall. take 32 bs = seghead_bytes z b wall
     then \<exists>wall. take 32 bs = seghead_bytes z base wall else base = 0"
    using read_segment32_at [OF assms(2,3) rs] by blast+
  have w2: "rc = 0" "sz = int (length bs)" "fsv w2 = fsv w"
    using fstat_full_at [of w1 fd p fl bs, OF _ st] assms(2) w1 by simp_all
  have inj: "seghead_bytes z b wall = seghead_bytes z b' wall' \<Longrightarrow> b = b'" for b wall b' wall'
    by (metis append.right_neutral seghead_fields(3))
  show ?thesis
  proof (cases "base = 0")
    case True
    then have "\<not> (\<exists>b wall. b \<noteq> 0 \<and> take 32 bs = seghead_bytes z b wall)"
      using base inj by (metis (full_types))
    then show ?thesis
      using rs st w2 True r by (auto simp: segment_scanner_def scan_verdict_def)
  next
    case False
    then obtain wall where h: "take 32 bs = seghead_bytes z base wall" using base by metis
    then have len: "32 \<le> length bs"
      by (metis length_seghead_bytes length_take min.cobounded1)
    let ?st = "\<lparr>ss_rec = ?r, ss_times = 0, ss_byte_since = 0, ss_ans = scan_end_init\<rparr>"
    have nt: "inteval \<noteq> 0 \<or> \<not> starts_frame z base 0 (drop 32 bs)"
      using assms(5) False h unfolding first_frame_def by blast
    obtain es tail st' w' as where l:
      "scan_loop io z base (of_nat (length bs)) ?st w2 = Some (Some st', w')" "fsv w' = fsv w2"
      "drop 32 bs = log_bytes z es @ tail" "valid_log base 0 es"
      "\<not> starts_frame z (base + of_nat (length (log_bytes z es))) (last_epoch 0 es) tail"
      "sr_idx (ss_rec st') = as" "sr_fd (ss_rec st') = fd" "scan_outcome z garbage 32 0 0 es tail (ss_ans st') as"
      using scan_loop_outcome [OF assms(1), of w2 ?st p fl bs base "drop 32 bs"] assms(2-4) nt len w2 r
      by (auto simp: scan_end_init_def recovery_new_def)
    have "segment_scanner io z ?r w = Some (Some (ss_ans st', ss_rec st'), w')"
      using rs st w2 False l(1) r by (simp add: segment_scanner_def)
    moreover have "bs = seghead_bytes z base wall @ log_bytes z es @ tail"
      by (metis append_take_drop_id h l(3))
    then have "scan_verdict z garbage bs (ss_ans st') as"
      unfolding scan_verdict_def using False h l(4,5,8) by auto
    ultimately show ?thesis using l w2 by auto
  qed
qed

text \<open>An anchor every 0 frames: the first valid frame traps.\<close>

lemma segment_scanner_trap:
  assumes "zlib_ok z" "at_file (fsv w) fd p fl bs" "readable fl" "length bs < 2 ^ 63" "first_frame z bs"
  shows "\<exists>w'. segment_scanner io z (recovery_new 0 fd garbage) w = Some (None, w') \<and> fsv w' = fsv w"
proof -
  let ?r = "recovery_new 0 fd garbage"
  let ?st = "\<lparr>ss_rec = ?r, ss_times = 0, ss_byte_since = 0, ss_ans = scan_end_init\<rparr>"
  have r: "sr_fd ?r = fd" "sr_inteval ?r = 0" "sr_offset ?r = 32" "sr_prev_epoch ?r = 0"
    by (simp_all add: recovery_new_def)
  from assms(5) obtain base wall where b: "base \<noteq> 0" "take 32 bs = seghead_bytes z base wall"
    "starts_frame z base 0 (drop 32 bs)" unfolding first_frame_def by blast
  have len: "32 \<le> length bs" using b(2) by (metis length_seghead_bytes length_take min.cobounded1)
  obtain base' w1 where rs: "read_segment32 io z fd w = (base', w1)" by fastforce
  have "fsv w1 = fsv w" "\<exists>wall. take 32 bs = seghead_bytes z base' wall"
    using read_segment32_at [OF assms(2,3) rs] b(2) by (auto split: if_splits)
  then have w1: "fsv w1 = fsv w" "base' = base"
    using b(2) by (metis append.right_neutral seghead_fields(3))+
  obtain rc sz w2 where st: "io_fstat io fd w1 = (rc, sz, w2)" by (metis prod_cases3)
  have w2: "rc = 0" "sz = int (length bs)" "fsv w2 = fsv w"
    using fstat_full_at [of w1 fd p fl bs, OF _ st] assms(2) w1 by simp_all
  obtain n data w3 where rd: "io_pread io fd (unat (scan_want (of_nat (length bs)) 32)) 32 w2 = (n, data, w3)"
    by (metis prod_cases3)
  have ulen: "unat (of_nat (length bs) :: u64) = length bs"
    using assms(4) by (simp add: unat_of_nat take_bit_nat_eq_self)
  have want: "unat (scan_want (of_nat (length bs)) 32) = 20 + min 1048576 (length (drop 32 bs))"
    using unat_want [of "of_nat (length bs)" 32] assms(4) len ulen by (simp add: word_le_nat_alt)
  have at2: "at_file (fsv w2) fd p fl bs" using assms(2) w2(3) by simp
  have data: "data = scan_data (drop 32 bs)" and n: "n = int (length data)" and w3: "fsv w3 = fsv w"
    using pread_full_at [OF at2 assms(3) _ rd] w2(3) by (simp_all add: want min_def)
  obtain ep p' rest where p: "length p' \<le> unat messagemaxlen" "0 \<le> ep" "drop 32 bs = frame_bytes z base ep p' @ rest"
    using b(3) by (rule starts_frameE)
  have d: "data = scan_data (frame_bytes z (expected base ?st) ep p' @ rest)"
    using data p(3) by (simp add: r)
  have "scan_frame z base (of_nat (length bs)) n data ?st = Trap"
    using scan_frame_valid [OF assms(1) d p(1), of "of_nat (length bs)"] n r
    by (simp add: accept_frame_def Let_def)
  then have "scan_loop io z base (of_nat (length bs)) ?st w2 = Some (None, w3)"
    using rd by (simp add: scan_loop.simps r)
  then show ?thesis
    using rs st w1(2) w2 b(1) w3 by (simp add: segment_scanner_def r)
qed

end

text \<open>The verdict on a file whose split is known.\<close>

lemma scan_verdict_split:
  assumes "scan_verdict z garbage (seghead_bytes z base wall @ log_bytes z es @ rest) ans idx"
    "base \<noteq> 0" "valid_log base 0 es"
    "\<not> starts_frame z (base + of_nat (length (log_bytes z es))) (last_epoch 0 es) rest"
  shows "scan_outcome z garbage 32 0 0 es rest ans idx"
proof -
  have "\<exists>b wl. b \<noteq> 0 \<and> take 32 (seghead_bytes z base wall @ log_bytes z es @ rest) = seghead_bytes z b wl"
    using assms(2) by auto
  then obtain b wl es' rest' where o: "seghead_bytes z base wall @ log_bytes z es @ rest =
        seghead_bytes z b wl @ log_bytes z es' @ rest'" "valid_log b 0 es'"
      "\<not> starts_frame z (b + of_nat (length (log_bytes z es'))) (last_epoch 0 es') rest'"
      "scan_outcome z garbage 32 0 0 es' rest' ans idx"
    using assms(1) unfolding scan_verdict_def by meson
  have "base = b" using o(1) by (metis seghead_fields(3))
  moreover have "log_bytes z es @ rest = log_bytes z es' @ rest'" using o(1) by simp
  ultimately have "es = es' \<and> rest = rest'"
    using log_split_unique [of z es rest es' rest' base 0] assms(3,4) o(2,3) by simp
  then show ?thesis using o(4) by simp
qed

section \<open>The binary search\<close>

lemma small_anchor:
  assumes "(a :: u64) < 2 ^ 31"
  shows "scast (ucast a :: 32 word) = a" "(ucast a :: 32 word) \<noteq> -1"
proof -
  have a: "unat a < 2 ^ 31" using assms by (simp add: word_less_nat_alt)
  then have u: "unat (ucast a :: 32 word) = unat a"
    by (simp add: unsigned_ucast_eq take_bit_nat_eq_self)
  show "(ucast a :: 32 word) \<noteq> -1"
  proof
    assume "(ucast a :: 32 word) = -1"
    then have "unat a = unat (-1 :: 32 word)" using u by simp
    then show False using a by (simp add: unsigned_minus_1_eq_mask mask_eq_exp_minus_1)
  qed
  have "unat (ucast a :: 32 word) < 2 ^ 31" using a u by simp
  then have "uint (ucast a :: 32 word) < 2 ^ 31"
    unfolding unat_eq_nat_uint by (simp only: nat_less_numeral_power_cancel_iff)
  moreover have "0 \<le> uint (ucast a :: 32 word)" by (rule unsigned_greater_eq)
  ultimately have "- (2 ^ 31) \<le> uint (ucast a :: 32 word)" "uint (ucast a :: 32 word) < 2 ^ 31" by linarith+
  then have "sint (ucast a :: 32 word) = uint (ucast a :: 32 word)"
    by (simp add: sint_uint signed_take_bit_int_eq_self_iff)
  also have "\<dots> = uint a" unfolding uint_nat by (simp only: u)
  finally have "sint (ucast a :: 32 word) = uint a" .
  then show "scast (ucast a :: 32 word) = a"
    by (simp only: scast_eq) simp
qed

definition greatest_le :: "u64 list \<Rightarrow> u64 \<Rightarrow> u64 \<Rightarrow> bool" where
  "greatest_le idx target a \<longleftrightarrow>
     (if \<exists>b \<in> set idx. b \<le> target
      then a \<in> set idx \<and> a \<le> target \<and> (\<forall>b \<in> set idx. b \<le> target \<longrightarrow> b \<le> a)
      else a = 0)"

lemma find_loop_greatest:
  assumes "sorted idx" "\<forall>a \<in> set idx. a < 2 ^ 31" "0 \<le> left" "right < int (length idx)" "left \<le> right + 1"
    "\<forall>i < nat left. idx ! i \<le> target" "\<forall>i. right < int i \<longrightarrow> i < length idx \<longrightarrow> target < idx ! i"
    "result_idx = (if left = 0 then -1 else ucast (idx ! nat (left - 1)))"
  shows "greatest_le idx target (find_loop idx target left right result_idx)"
  using assms
proof (induction idx target left right result_idx rule: find_loop.induct)
  case (1 idx target left right result_idx)
  let ?m = "left + (right - left) div 2"
  show ?case
  proof (cases "left \<le> right")
    case False
    then have lr: "left = right + 1" using "1.prems"(5) by simp
    show ?thesis
    proof (cases "left = 0")
      case True
      have "\<not> (\<exists>b \<in> set idx. b \<le> target)"
        using "1.prems"(7) lr True by (auto simp: in_set_conv_nth not_le)
      then show ?thesis
        using False True "1.prems"(8) by (simp add: find_loop.simps greatest_le_def)
    next
      case nz: False
      let ?a = "idx ! nat (left - 1)"
      have in_range: "nat (left - 1) < length idx" "nat (left - 1) < nat left"
        using "1.prems"(3,4) lr nz by simp_all
      then have a: "?a \<in> set idx" "?a \<le> target" using "1.prems"(6) by auto
      have "b \<le> ?a" if b: "b \<in> set idx" "b \<le> target" for b
      proof -
        obtain i where i: "i < length idx" "idx ! i = b" using b(1) by (auto simp: in_set_conv_nth)
        then have "int i \<le> right" using b(2) "1.prems"(7) by (meson leD not_le)
        then have "i \<le> nat (left - 1)" using lr nz "1.prems"(3) by linarith
        then show ?thesis using "1.prems"(1) i in_range by (auto intro: sorted_nth_mono)
      qed
      moreover have "find_loop idx target left right result_idx = ?a"
        using False nz "1.prems"(2,8) small_anchor [of ?a] a(1)
        by (simp add: find_loop.simps)
      ultimately show ?thesis using a unfolding greatest_le_def by auto
    qed
  next
    case True
    have m: "left \<le> ?m" "?m \<le> right" "nat ?m < length idx"
      using True "1.prems"(3,4) by linarith+
    consider "target = idx ! nat ?m" | "target > idx ! nat ?m" | "target < idx ! nat ?m" by fastforce
    then show ?thesis
    proof cases
      case 1
      moreover from 1 m have "idx ! nat ?m \<in> set idx" by simp
      ultimately show ?thesis using True
        by (simp add: find_loop.simps Let_def) (auto simp: greatest_le_def)
    next
      case 2
      have "greatest_le idx target (find_loop idx target (?m + 1) right (ucast (idx ! nat ?m)))"
      proof (rule "1.IH"(1) [OF True refl refl])
        show "\<forall>i<nat (?m + 1). idx ! i \<le> target"
        proof (intro allI impI)
          fix i assume "i < nat (?m + 1)"
          then have "idx ! i \<le> idx ! nat ?m"
            using "1.prems"(1) m by (intro sorted_nth_mono) auto
          then show "idx ! i \<le> target" using 2 by simp
        qed
      qed (use 2 m True "1.prems" in auto)
      then show ?thesis using True 2
        by (subst find_loop.simps) (auto simp: Let_def)
    next
      case 3
      have "greatest_le idx target (find_loop idx target left (?m - 1) result_idx)"
      proof (rule "1.IH"(2) [OF True refl refl])
        show "\<forall>i. ?m - 1 < int i \<longrightarrow> i < length idx \<longrightarrow> target < idx ! i"
        proof (intro allI impI)
          fix i assume "?m - 1 < int i" "i < length idx"
          then have "idx ! nat ?m \<le> idx ! i"
            using "1.prems"(1) m by (intro sorted_nth_mono) auto
          then show "target < idx ! i" using 3 by simp
        qed
      qed (use 3 m True "1.prems" in auto)
      then show ?thesis using True 3
        by (subst find_loop.simps) (auto simp: Let_def)
    qed
  qed
qed

section \<open>Properties\<close>

text \<open>Property C12. Where \<open>pread\<close> and \<open>fstat\<close> do not fail and reads are complete up
  to the end of the file, the scan ends, changes nothing on disk, and its result is known for every
  file. With \<open>inteval\<close> 0, a valid header and a valid first frame, \<open>times%inteval\<close> traps.
  Otherwise it returns: without a valid header of non-zero base offset, \<open>head_bad\<close>; with one, the
  file splits into header, longest run of valid frames (contiguous offsets, epochs that do not go
  back) and a rest, and the answer is \<open>clean\<close> exactly when there are frames and no rest, else
  the end of the last frame and its epoch. A rest is a torn tail if its length field is within the limit and
  the frame incomplete, else corruption; of a rest below 12 bytes the field is completed by old bytes
  of the buffer (last frame or uninitialised), so such a rest can be reported
  corrupt. Anchors are offsets of the frames found, in order.
\<close>

theorem scanner_verdict:
  assumes "file_contract_full io fsv" "zlib_ok z"
    and "at_file (fsv w) fd p fl bs" "readable fl" "length bs < 2 ^ 63"
  shows "if inteval = 0 \<and> first_frame z bs
    then \<exists>w'. segment_scanner io z (recovery_new inteval fd garbage) w = Some (None, w') \<and> fsv w' = fsv w
    else \<exists>ans r' w'. segment_scanner io z (recovery_new inteval fd garbage) w = Some (Some (ans, r'), w') \<and>
      fsv w' = fsv w \<and> scan_verdict z garbage bs ans (sr_idx r')"
proof (cases "inteval = 0 \<and> first_frame z bs")
  case True
  then show ?thesis using file_contract_full.segment_scanner_trap [OF assms] by simp
next
  case False
  then show ?thesis
    using file_contract_full.segment_scanner_verdict [OF assms, of inteval garbage] by auto
qed

lemma sum_mem_file:
  "file_contract_full mem_io mem_fs" "zlib_ok sum_ref"
  "at_file (mem_fs (mem_file script p fl bs)) 3 p fl bs" "readable [O_RDWR]"
  by (simp_all add: mem_io_contract_full sum_ref_ok readable_def)

theorem scanner_verdict_witness:
  "\<exists>ans r' w'. segment_scanner mem_io sum_ref (recovery_new 1 3 [])
      (mem_file [] ''s'' [O_RDWR] (seghead_bytes sum_ref 0 17 @ [1, 2, 3])) = Some (Some (ans, r'), w') \<and>
    scan_verdict sum_ref [] (seghead_bytes sum_ref 0 17 @ [1, 2, 3]) ans (sr_idx r')"
  using scanner_verdict [OF sum_mem_file, of "seghead_bytes sum_ref 0 17 @ [1, 2, 3]" 1 "[]" "[]" "''s''"] by auto

text \<open>What C12 leaves out: a \<open>pread\<close> that fails in the loop. Its result -1 is below 20, so the
  scanner reports a torn tail at the frame it was about to read, whatever the file holds there; a caller
  that truncates at the reported end then discards intact frames.\<close>

lemma read_error_taken_for_torn:
  assumes "io_pread io fd 32 0 w = (32, h, w1)" "compare_magic_crc z h = Some (base, wall)" "base \<noteq> 0"
    and "io_fstat io fd w1 = (0, sz, w2)" "io_pread io fd (unat (scan_want (of_int sz) 32)) 32 w2 = (-1, [], w3)"
    and "read_crc_big garbage 8 \<le> messagemaxlen"
  shows "\<exists>ans r'. segment_scanner io z (recovery_new inteval fd garbage) w = Some (Some (ans, r'), w3) \<and>
    se_kind ans = Torn_tail \<and> se_vaild_end ans = 32"
proof -
  have g: "write_at garbage 0 [] = garbage" by (simp add: write_at_start)
  show ?thesis
    using assms by (simp add: segment_scanner_def read_segment32_def scan_loop.simps scan_frame_def
      Let_def recovery_new_def g not_less [symmetric])
qed

text \<open>The scan of a file whose split is known.\<close>

lemma scanner_split:
  assumes "file_contract_full io fsv" "zlib_ok z" "at_file (fsv w) fd p fl bs" "readable fl"
    "length bs < 2 ^ 63" "inteval \<noteq> 0"
    and "bs = seghead_bytes z base wall @ log_bytes z es @ rest" "base \<noteq> 0" "valid_log base 0 es"
    "\<not> starts_frame z (base + of_nat (length (log_bytes z es))) (last_epoch 0 es) rest"
  shows "\<exists>ans r' w'. segment_scanner io z (recovery_new inteval fd garbage) w = Some (Some (ans, r'), w') \<and>
    fsv w' = fsv w \<and> sr_fd r' = fd \<and> scan_outcome z garbage 32 0 0 es rest ans (sr_idx r')"
  using file_contract_full.segment_scanner_verdict [OF assms(1-5) disjI1 [OF assms(6)], of garbage]
    scan_verdict_split [OF _ assms(8-10)] unfolding assms(7) by blast

text \<open>Property C13. (Reads do not fail and are complete, \<open>inteval\<close> is not 0.) A segment that holds a header with a non-zero base offset and at least one
  frame, all as the writer makes them with contiguous offsets and epochs that do not go back,
  is found clean; the answer gives its length and the epoch of the last frame, and every anchor
  is the offset of a frame.
\<close>

theorem scanner_accepts_log:
  assumes "file_contract_full io fsv" "zlib_ok z" "at_file (fsv w) fd p fl bs" "readable fl"
    "length bs < 2 ^ 63" "inteval \<noteq> 0"
    and "bs = write_seghead_bg z (replicate 32 0) 1 base wall @ log_bytes z es"
    "base \<noteq> 0" "es \<noteq> []" "valid_log base 0 es"
  shows "\<exists>ans r' w'. segment_scanner io z (recovery_new inteval fd garbage) w = Some (Some (ans, r'), w') \<and>
    se_kind ans = Clean \<and> se_vaild_end ans = of_nat (length bs) \<and> se_last_epoch ans = last_epoch 0 es \<and>
    subseq (sr_idx r') (map entry_off es)"
proof -
  have bs: "bs = seghead_bytes z base wall @ log_bytes z es @ []"
    using assms(7) by (simp add: write_seghead_eq)
  from scanner_split [OF assms(1-6) bs assms(8,10) not_starts_short, of garbage] bs assms(9)
  show ?thesis by (auto simp: scan_outcome_def)
qed

theorem scanner_accepts_log_witness:
  "\<exists>ans r' w'. segment_scanner mem_io sum_ref (recovery_new 2 3 [])
      (mem_file [] ''s'' [O_RDWR] (write_seghead_bg sum_ref (replicate 32 0) 1 4096 17 @
         log_bytes sum_ref [([7], 4096, 1), ([], 4117, 1)])) = Some (Some (ans, r'), w') \<and>
    se_kind ans = Clean \<and> se_last_epoch ans = 1"
proof -
  let ?es = "[([7], 4096, 1), ([], 4117, 1)] :: entry list"
  let ?bs = "write_seghead_bg sum_ref (replicate 32 0) 1 4096 17 @ log_bytes sum_ref ?es"
  have "length ?bs < 2 ^ 63"
    by (simp add: write_seghead_eq length_entry_bytes)
  from scanner_accepts_log [OF sum_mem_file this, of 2 4096 17 ?es "[]" "[]" "''s''"]
  show ?thesis by auto
qed

lemma log_cut:
  assumes "valid_log e0 ep es"
  shows "\<exists>es1 es2 rest. es = es1 @ es2 \<and> take j (log_bytes z es) = log_bytes z es1 @ rest \<and>
    valid_log e0 ep es1 \<and> (es2 = [] \<longrightarrow> rest = []) \<and>
    (es2 \<noteq> [] \<longrightarrow> length rest < length (entry_bytes z (hd es2)) \<and>
       rest = take (length rest) (entry_bytes z (hd es2)) \<and> length (fst (hd es2)) \<le> unat messagemaxlen)"
  using assms
proof (induction es arbitrary: e0 ep j)
  case (Cons e es)
  obtain p o1 ep1 where e: "e = (p, o1, ep1)" by (metis prod_cases3)
  show ?case
  proof (cases "length (entry_bytes z e) \<le> j")
    case True
    then obtain es1 es2 rest where "es = es1 @ es2"
       "take (j - length (entry_bytes z e)) (log_bytes z es) = log_bytes z es1 @ rest"
       "valid_log (e0 + of_nat (20 + length p)) ep1 es1" "es2 = [] \<longrightarrow> rest = []"
       "es2 \<noteq> [] \<longrightarrow> length rest < length (entry_bytes z (hd es2)) \<and>
         rest = take (length rest) (entry_bytes z (hd es2)) \<and> length (fst (hd es2)) \<le> unat messagemaxlen"
      using Cons.IH [of "e0 + of_nat (20 + length p)" ep1 "j - length (entry_bytes z e)"] Cons.prems e by auto
    then show ?thesis
      using True Cons.prems e by (intro exI [of _ "e # es1"] exI [of _ es2] exI [of _ rest]) simp
  next
    case False
    then show ?thesis
      using Cons.prems e
      by (intro exI [of _ "[]"] exI [of _ "e # es"] exI [of _ "take j (entry_bytes z e)"]) simp
  qed
qed simp

lemma cut_stop:
  assumes "length p \<le> unat messagemaxlen" "rest = take (length rest) (entry_bytes z (p, o1, ep1))"
    "length rest < 20 + length p"
  shows "\<not> starts_frame z e0 ep0 rest" "12 \<le> length rest \<Longrightarrow> stop_kind buf rest = Torn_tail"
proof -
  show "\<not> starts_frame z e0 ep0 rest"
    using not_starts_cut [OF assms(1,3), of z e0 ep0 o1 ep1 "[]"] assms(2) by (simp add: entry_bytes_def)
  assume "12 \<le> length rest"
  then have "read_crc_big (take (length rest) (entry_bytes z (p, o1, ep1))) 8 = of_nat (length p)"
    by (simp only: read_crc_big_take) (simp add: entry_bytes_def frame_bytes_def frame_fields)
  then have "read_crc_big rest 8 = of_nat (length p)" using assms(2) by simp
  moreover have "unat (of_nat (length p) :: u32) = length p"
    using assms(1) by (subst unat_of_nat) (simp add: take_bit_nat_eq_self)
  ultimately show "stop_kind buf rest = Torn_tail"
    using \<open>12 \<le> length rest\<close> assms(1,3) by (simp add: stop_kind_long word_le_nat_alt)
qed

text \<open>Property C14. (Reads do not fail and are complete, \<open>inteval\<close> is not 0.) A crash that cuts a segment anywhere after its header is found out: the scan
  returns the entries whose frames survived complete, and the end it gives is the end of the
  last of them. It is clean only if the cut is between two frames; otherwise the tail is torn
  (where the cut leaves less than the length field of the next frame, or the file has no
  frame at all, bytes left in the buffer may make it corrupt instead).
\<close>

theorem scanner_after_crash:
  assumes "file_contract_full io fsv" "zlib_ok z" "at_file (fsv w) fd p fl bs" "readable fl"
    "length bs < 2 ^ 63" "inteval \<noteq> 0"
    and "bs = take k (write_seghead_bg z (replicate 32 0) 1 base wall @ log_bytes z es)"
    "32 \<le> k" "base \<noteq> 0" "valid_log base 0 es"
  shows "\<exists>ans r' w' es1 es2. segment_scanner io z (recovery_new inteval fd garbage) w = Some (Some (ans, r'), w') \<and>
    es = es1 @ es2 \<and> 32 + length (log_bytes z es1) \<le> length bs \<and>
    (es2 \<noteq> [] \<longrightarrow> length bs < 32 + length (log_bytes z (es1 @ [hd es2]))) \<and>
    (se_kind ans = Clean \<longleftrightarrow> length bs = 32 + length (log_bytes z es1) \<and> es1 \<noteq> []) \<and>
    (es1 \<noteq> [] \<or> se_kind ans = Torn_tail \<longrightarrow> se_vaild_end ans = of_nat (32 + length (log_bytes z es1))) \<and>
    se_last_epoch ans = last_epoch 0 es1 \<and>
    (44 + length (log_bytes z es1) \<le> length bs \<longrightarrow> se_kind ans = Torn_tail)"
proof -
  have h: "bs = seghead_bytes z base wall @ take (k - 32) (log_bytes z es)"
    using assms(7,8) by (simp add: write_seghead_eq)
  obtain es1 es2 rest where s: "es = es1 @ es2" "take (k - 32) (log_bytes z es) = log_bytes z es1 @ rest"
     "valid_log base 0 es1" "es2 = [] \<longrightarrow> rest = []"
     "es2 \<noteq> [] \<longrightarrow> length rest < length (entry_bytes z (hd es2)) \<and>
       rest = take (length rest) (entry_bytes z (hd es2)) \<and> length (fst (hd es2)) \<le> unat messagemaxlen"
    using log_cut [OF assms(10)] by metis
  have stop: "\<not> starts_frame z e0 ep0 rest" "12 \<le> length rest \<longrightarrow> stop_kind buf rest = Torn_tail" for e0 ep0 buf
  proof (atomize (full), cases es2)
    case Nil
    then show "\<not> starts_frame z e0 ep0 rest \<and> (12 \<le> length rest \<longrightarrow> stop_kind buf rest = Torn_tail)"
      using s(4) not_starts_short by simp
  next
    case (Cons e es')
    obtain p o1 ep1 where e: "e = (p, o1, ep1)" by (metis prod_cases3)
    show "\<not> starts_frame z e0 ep0 rest \<and> (12 \<le> length rest \<longrightarrow> stop_kind buf rest = Torn_tail)"
      using cut_stop [of p rest z o1 ep1] s(5) Cons e by (simp add: length_entry_bytes)
  qed
  have bs: "bs = seghead_bytes z base wall @ log_bytes z es1 @ rest" using h s(2) by simp
  then have len: "length bs = 32 + length (log_bytes z es1) + length rest" by simp
  obtain ans r' w' where r: "segment_scanner io z (recovery_new inteval fd garbage) w = Some (Some (ans, r'), w')"
      "scan_outcome z garbage 32 0 0 es1 rest ans (sr_idx r')"
    using scanner_split [OF assms(1-6) bs assms(9) s(3) stop(1), of garbage] by blast
  let ?buf = "if es1 = [] then garbage else entry_bytes z (last es1)"
  have out: "se_kind ans = Clean \<longleftrightarrow> rest = [] \<and> es1 \<noteq> []" "se_kind ans \<noteq> Clean \<longrightarrow> se_kind ans = stop_kind ?buf rest"
     "se_vaild_end ans = (if se_kind ans = Scan_corrupt \<and> es1 = [] then 0 else 32 + of_nat (length (log_bytes z es1)))"
     "se_last_epoch ans = last_epoch 0 es1"
    using r(2) stop_kind_cases [of ?buf rest] by (auto simp: scan_outcome_def)
  have "es2 \<noteq> [] \<longrightarrow> length bs < 32 + length (log_bytes z (es1 @ [hd es2]))"
    using s(5) len by (auto simp: log_bytes_def)
  moreover have "44 + length (log_bytes z es1) \<le> length bs \<longrightarrow> se_kind ans = Torn_tail"
    using out(1,2) stop(2) [of ?buf] len by auto
  moreover have "es1 \<noteq> [] \<or> se_kind ans = Torn_tail \<longrightarrow> se_vaild_end ans = of_nat (32 + length (log_bytes z es1))"
    using out(3) by auto
  ultimately show ?thesis
    using r(1) s(1) len out(1,4) by (intro exI [of _ ans] exI [of _ r'] exI [of _ w'] exI [of _ es1] exI [of _ es2]) auto
qed

theorem scanner_after_crash_witness:
  "\<exists>ans r' w' es1 es2. segment_scanner mem_io sum_ref (recovery_new 2 3 [])
      (mem_file [] ''s'' [O_RDWR] (take 60 (write_seghead_bg sum_ref (replicate 32 0) 1 4096 17 @
         log_bytes sum_ref [([7], 4096, 1), ([1, 2, 3], 4117, 1)]))) = Some (Some (ans, r'), w') \<and>
    [([7], 4096, 1), ([1, 2, 3], 4117, 1)] = es1 @ es2 \<and> se_last_epoch ans = last_epoch 0 es1 \<and>
    32 + length (log_bytes sum_ref es1) \<le> 60"
proof -
  define es :: "entry list" where "es = [([7], 4096, 1), ([1, 2, 3], 4117, 1)]"
  define bs where "bs = take 60 (write_seghead_bg sum_ref (replicate 32 0) 1 4096 17 @ log_bytes sum_ref es)"
  have l: "length bs = 60"
    by (simp add: bs_def es_def write_seghead_eq length_entry_bytes)
  have v: "length bs < 2 ^ 63" "valid_log 4096 0 es"
    by (simp_all add: l) (simp add: es_def)
  have "(2 :: int) \<noteq> 0" "32 \<le> (60 :: nat)" "(4096 :: u64) \<noteq> 0" by simp_all
  from scanner_after_crash [OF sum_mem_file v(1) this(1) bs_def this(2,3) v(2), of "[]" "[]" "''s''"]
  show ?thesis unfolding bs_def [symmetric] es_def [symmetric] l by blast
qed

text \<open>Property C15. (Reads do not fail and are complete, \<open>inteval\<close> is not 0.) Recovery repairs: after a scan that found at least one frame (torn, corrupt or
  clean), truncating the file at the reported end, at any later moment \<open>wt\<close> at which the files
  are as the scan left them and the truncation succeeds, leaves exactly that prefix, and a new
  scan of it is clean with the same last epoch.
\<close>

theorem truncate_repairs:
  assumes "file_contract_full io fsv" "zlib_ok z" "at_file (fsv w) fd p fl bs" "readable fl"
    "length bs < 2 ^ 63" "inteval \<noteq> 0"
    and "segment_scanner io z (recovery_new inteval fd garbage) w = Some (Some (ans, r'), w1)"
    "se_kind ans \<noteq> Head_bad" "32 < se_vaild_end ans"
    "fsv wt = fsv w1" "fst (io_ftruncate io (sr_fd r') (sint (se_vaild_end ans)) wt) = 0"
  defines "w2 \<equiv> turncate_segment io r' (se_vaild_end ans) wt"
  shows "fs_files (fsv w2) p = Some (take (unat (se_vaild_end ans)) bs) \<and>
    (\<exists>ans2 r2 w3. segment_scanner io z (recovery_new inteval fd garbage2) w2 = Some (Some (ans2, r2), w3) \<and>
      se_kind ans2 = Clean \<and> se_vaild_end ans2 = se_vaild_end ans \<and> se_last_epoch ans2 = se_last_epoch ans)"
proof -
  obtain base wall es rest where s: "fsv w1 = fsv w" "sr_fd r' = fd" "base \<noteq> 0"
      "bs = seghead_bytes z base wall @ log_bytes z es @ rest" "valid_log base 0 es"
      "scan_outcome z garbage 32 0 0 es rest ans (sr_idx r')"
    using file_contract_full.segment_scanner_verdict [OF assms(1-5) disjI1 [OF assms(6)], of garbage] assms(7,8)
    by (auto simp: scan_verdict_def split: if_splits)
  have es: "es \<noteq> []" using s(6) assms(9) by (auto simp: scan_outcome_def split: if_splits)
  then have v: "se_vaild_end ans = 32 + of_nat (length (log_bytes z es))" "se_last_epoch ans = last_epoch 0 es"
    using s(6) by (auto simp: scan_outcome_def)
  let ?bs = "seghead_bytes z base wall @ log_bytes z es @ []"
  have len: "length ?bs \<le> length bs" "?bs = take (length ?bs) bs" using s(4) by simp_all
  have u: "unat (se_vaild_end ans) = length ?bs"
    unfolding v using unat_add_of_nat [of 32 "length (log_bytes z es)"] len(1) assms(5) by simp
  then have i: "sint (se_vaild_end ans) = int (length ?bs)"
    using sint_unat [of "se_vaild_end ans"] len(1) assms(5) by simp
  have ft: "io_ftruncate io fd (int (length ?bs)) wt = (0, w2)"
    using assms(11) by (simp add: w2_def turncate_segment_def s(2) i prod_eq_iff)
  have at1: "at_file (fsv wt) fd p fl bs" using assms(3,10) s(1) by simp
  have "fsv w2 = file_put (fsv wt) p ?bs"
    by (rule file_contract.ftruncate_at [OF file_contract_full.axioms(1) [OF assms(1)] ft at1])
      (simp_all only: len(2) [symmetric] set_size_le [OF len(1)] nat_int)
  then have at2: "at_file (fsv w2) fd p fl ?bs" using at1 by (simp add: at_file_fd)
  have l2: "length ?bs < 2 ^ 63" using len(1) assms(5) by simp
  have "\<not> starts_frame z (base + of_nat (length (log_bytes z es))) (last_epoch 0 es) []"
    by (simp add: not_starts_short)
  from scanner_split [OF assms(1,2) at2 assms(4) l2 assms(6) refl s(3,5) this, of garbage2]
  obtain ans2 r2 w3 where "segment_scanner io z (recovery_new inteval fd garbage2) w2 = Some (Some (ans2, r2), w3)"
     "scan_outcome z garbage2 32 0 0 es [] ans2 (sr_idx r2)" by blast
  then have "se_kind ans2 = Clean \<and> se_vaild_end ans2 = se_vaild_end ans \<and> se_last_epoch ans2 = se_last_epoch ans"
    using es v by (auto simp: scan_outcome_def)
  moreover have "fs_files (fsv w2) p = Some (take (unat (se_vaild_end ans)) bs)"
    unfolding u by (rule trans [OF at_file_files [OF at2]]) (simp only: len(2) [symmetric])
  ultimately show ?thesis
    using \<open>segment_scanner io z (recovery_new inteval fd garbage2) w2 = Some (Some (ans2, r2), w3)\<close> by blast
qed

theorem truncate_repairs_witness:
  "\<exists>ans r' w1 ans2 r2 w3. let w = mem_file [] ''s'' [O_RDWR]
        (seghead_bytes sum_ref 4096 17 @ log_bytes sum_ref [([7], 4096, 1)] @ [1, 2, 3]) in
    segment_scanner mem_io sum_ref (recovery_new 2 3 []) w = Some (Some (ans, r'), w1) \<and>
    segment_scanner mem_io sum_ref (recovery_new 2 3 []) (turncate_segment mem_io r' (se_vaild_end ans) w)
        = Some (Some (ans2, r2), w3) \<and> se_kind ans2 = Clean \<and> se_last_epoch ans2 = 1"
proof -
  define es :: "entry list" where "es = [([7], 4096, 1)]"
  define bs where "bs = seghead_bytes sum_ref 4096 17 @ log_bytes sum_ref es @ [1, 2, 3]"
  let ?w = "mem_file [] ''s'' [O_RDWR] bs"
  have l: "length bs < 2 ^ 63" and log21: "length (log_bytes sum_ref es) = 21"
    by (simp_all add: bs_def es_def length_entry_bytes)
  have "valid_log 4096 0 es" "(4096 :: u64) \<noteq> 0" "(2 :: int) \<noteq> 0" by (simp_all add: es_def)
  moreover have "\<not> starts_frame sum_ref (4096 + of_nat (length (log_bytes sum_ref es))) (last_epoch 0 es) [1, 2, 3]"
    by (simp add: not_starts_short)
  ultimately obtain ans r' w1 where
    r: "segment_scanner mem_io sum_ref (recovery_new 2 3 []) ?w = Some (Some (ans, r'), w1)"
      "mem_fs w1 = mem_fs ?w" "sr_fd r' = 3" "scan_outcome sum_ref [] 32 0 0 es [1, 2, 3] ans (sr_idx r')"
    using scanner_split [OF sum_mem_file l _ bs_def, of 2 "[]" "[]" "''s''"] by blast
  have o: "se_kind ans \<noteq> Head_bad" "se_vaild_end ans = 53" "se_last_epoch ans = 1"
    using r(4) stop_kind_cases [of "entry_bytes sum_ref (last es)" "[1, 2, 3]"]
    by (auto simp: scan_outcome_def log21) (auto simp: es_def)
  have ft: "fst (io_ftruncate mem_io (sr_fd r') (sint (se_vaild_end ans)) ?w) = 0"
    by (simp add: r(3) o(2) mem_eval)
  have "(2 :: int) \<noteq> 0" "32 < se_vaild_end ans" by (simp_all add: o(2))
  from truncate_repairs [OF sum_mem_file l this(1) r(1) o(1) this(2) r(2) [symmetric] ft, of "[]"]
  obtain ans2 r2 w3 where "segment_scanner mem_io sum_ref (recovery_new 2 3 [])
       (turncate_segment mem_io r' (se_vaild_end ans) ?w) = Some (Some (ans2, r2), w3)"
     "se_kind ans2 = Clean" "se_last_epoch ans2 = 1"
    using o(3) by auto
  then show ?thesis
    using r(1) unfolding bs_def es_def Let_def
    by (intro exI [of _ ans] exI [of _ r'] exI [of _ w1] exI [of _ ans2] exI [of _ r2] exI [of _ w3]) simp
qed

text \<open>Property C16. \<open>find_idx\<close> on increasing anchors below \<open>2^31\<close> returns the greatest anchor
  that is at most the target, and 0 if there is none.
\<close>

theorem find_idx_greatest:
  assumes "sorted (sr_idx r)" "\<forall>a \<in> set (sr_idx r). a < 2 ^ 31"
  shows "if \<exists>b \<in> set (sr_idx r). b \<le> target
    then find_idx r target \<in> set (sr_idx r) \<and> find_idx r target \<le> target \<and>
      (\<forall>b \<in> set (sr_idx r). b \<le> target \<longrightarrow> b \<le> find_idx r target)
    else find_idx r target = 0"
proof (cases "sr_idx r = []")
  case False
  then have "greatest_le (sr_idx r) target (find_loop (sr_idx r) target 0 (int (length (sr_idx r)) - 1) (-1))"
    using assms by (intro find_loop_greatest) auto
  then show ?thesis using False by (simp add: find_idx_def greatest_le_def)
qed (simp add: find_idx_def)

theorem find_idx_greatest_witness:
  "find_idx ((recovery_new 2 3 [])\<lparr>sr_idx := [10, 20, 30]\<rparr>) 25 \<in> {10, 20, 30}"
  using find_idx_greatest [of "(recovery_new 2 3 [])\<lparr>sr_idx := [10, 20, 30]\<rparr>" 25] by auto

text \<open>The result of \<open>find_idx\<close> goes through an \<open>int\<close>: an anchor whose offset
  does not fit in 31 bits is returned as the sign extension of its low 32 bits.
\<close>

theorem find_idx_truncates:
  assumes "sr_idx r = [a]" "a < target" "(ucast a :: u32) \<noteq> -1"
  shows "find_idx r target = scast (ucast a :: u32)"
proof -
  have "target \<noteq> a" using assms(2) by blast
  then show ?thesis using assms by (simp add: find_idx_def find_loop.simps Let_def)
qed

theorem find_idx_truncates_witness:
  "find_idx ((recovery_new 2 3 [])\<lparr>sr_idx := [0x100000005]\<rparr>) 0x100000006 = 5"
  using find_idx_truncates [of "(recovery_new 2 3 [])\<lparr>sr_idx := [0x100000005]\<rparr>" "0x100000005" "0x100000006"]
  by simp

context file_contract_full
begin

lemma zero_base_head_bad:
  assumes "at_file (fsv w) fd p fl bs" "readable fl" "take 32 bs = seghead_bytes z 0 wall"
  shows "\<exists>w'. segment_scanner io z (recovery_new inteval fd garbage) w =
    Some (Some (scan_end_init\<lparr>se_kind := Head_bad\<rparr>, recovery_new inteval fd garbage), w')"
proof -
  obtain base w1 where rs: "read_segment32 io z fd w = (base, w1)" by fastforce
  obtain rc sz w2 where st: "io_fstat io fd w1 = (rc, sz, w2)" by (metis prod_cases3)
  have w1: "fsv w1 = fsv w" and "\<exists>wall. take 32 bs = seghead_bytes z base wall"
    using read_segment32_at [OF assms(1,2) rs] assms(3) by (auto split: if_splits)
  then have "base = 0"
    using assms(3) by (metis append.right_neutral seghead_fields(3))
  moreover have "rc = 0" using fstat_full_at [of w1 fd p fl bs, OF _ st] assms(1) w1 by simp
  moreover have "sr_fd (recovery_new inteval fd garbage) = fd" by (simp add: recovery_new_def)
  ultimately show ?thesis using rs st by (simp add: segment_scanner_def)
qed

end

text \<open>A segment the code itself created cannot be recovered: \<open>creat\<close> writes the
  base offset of the object, which no code sets, so it is 0, and the scanner takes a base offset
  of 0 for a bad header, whatever was appended.
\<close>

theorem created_segment_head_bad:
  assumes "file_contract_full io fsv" "zlib_ok z"
    and "creat io z clock (segment_new path) w = Some (True, s, w1)"
    and "append_run io z s entries w1 = (accepted, s', w2)"
    and "io_open io path [O_RDWR] 420 w2 = (fd, w3)" "fd \<noteq> -1"
  shows "\<exists>ans r' w'. segment_scanner io z (recovery_new inteval fd garbage) w3 = Some (Some (ans, r'), w') \<and>
    se_kind ans = Head_bad"
proof -
  note fc = file_contract_full.axioms(1) [OF assms(1)]
  let ?h = "seghead_bytes z 0 (now_millis clock)"
  have s: "s = (segment_new path)\<lparr>sg_fd := sg_fd s, sg_offset := 32\<rparr>"
    and at1: "at_file (fsv w1) (sg_fd s) path [O_CREAT, O_EXCL, O_WRONLY] ?h"
    using file_contract.creat_ok [OF fc assms(3)] by (simp_all add: segment_new_def at_file_def)
  have c: "sg_offset s = 32" by (subst s, simp)
  obtain bs where bs: "fsv w2 = file_put (fsv w1) path bs" "take 32 bs = ?h"
  proof -
    obtain bs where b: "fsv w2 = file_put (fsv w1) path bs" "sg_offset s' = 32 + int (length (log_bytes z accepted))"
       "take (nat (sg_offset s')) bs = ?h @ log_bytes z accepted"
      using file_contract.append_run_log [OF fc assms(4) at1 _ _ assms(2)] c by auto
    then have "take 32 (take (nat (sg_offset s')) bs) = ?h" by simp
    then have "take 32 bs = ?h" using b(2) by (simp add: min_def split: if_splits)
    then show thesis using b(1) that by blast
  qed
  have "at_file (fsv w3) fd path [O_RDWR] bs"
    using file_contract.open_law [OF fc assms(5)] assms(6) bs(1) by (auto simp: open_ok_def at_file_def)
  from file_contract_full.zero_base_head_bad [OF assms(1) this _ bs(2), of inteval garbage]
  show ?thesis by (auto simp: readable_def)
qed

theorem created_segment_head_bad_witness:
  "\<exists>s w1 ans r' w'. creat mem_io sum_ref 17 (segment_new ''/d/s'') (mem_init []) = Some (True, s, w1) \<and>
     segment_scanner mem_io sum_ref (recovery_new 2 5 []) (snd (mem_open ''/d/s'' [O_RDWR] 420 w1))
       = Some (Some (ans, r'), w') \<and> se_kind ans = Head_bad"
proof -
  obtain s w1 where c: "creat mem_io sum_ref 17 (segment_new ''/d/s'') (mem_init []) = Some (True, s, w1)"
    and w1: "\<exists>bs. fs_files (mem_fs w1) ''/d/s'' = Some bs" "mem_script w1 = []"
      "mem_next w1 = 5" "fs_fds (mem_fs w1) 5 = None"
    by (simp add: creat_def write_seghead_eq write_len_def segment_new_def mem_eval)
  obtain w3 where o: "mem_open ''/d/s'' [O_RDWR] 420 w1 = (5, w3)"
    using w1 by (auto simp: mem_open_def mem_answer_def Let_def)
  have "append_run mem_io sum_ref s [] w1 = ([], s, w1)" by simp
  from created_segment_head_bad [OF mem_io_contract_full sum_ref_ok c this _, of 5 w3 2 "[]"]
  show ?thesis using c o by auto
qed

end
