(* ===== verification/Commit_log.thy ===== *)
theory Commit_log
  imports Codec File_io Zlib
begin

text \<open>
  The commit log of \<open>src/Commit_log.cpp\<close> and \<open>include/Commit_log.h\<close>: a file of 36-byte
  records (batch number, candidate high-water mark, epoch, state, checksum).
  \<open>commitlog_append\<close> writes one record, \<open>open_or_create\<close> opens the file and replays it:
  it checks every record and the order of the batches, cuts an incomplete record off the end
  and leaves the summary in a \<open>Reply\<close>.

  The file has its own copies of the codec functions of \<open>Segment.cpp\<close>; they are modelled
  as they stand and shown equal. The lemmas give the replay as a fold over the entries of the
  file, what an append leaves behind on every path, and that a log written under any faults of
  the file system is read back as the entries that were accepted.
\<close>

section \<open>State\<close>

text \<open>\<open>enum class comiitstatus\<close>, stored in a \<open>uint8_t\<close>.\<close>

definition candidate :: u8 where "candidate = 0"
definition credited :: u8 where "credited = 1"
definition published :: u8 where "published = 2"

record commitEntry =
  ce_batch_no :: u64
  ce_candidate_hw :: u64
  ce_epoch :: u64
  ce_state :: u8

record Reply =
  rp_last_batch_no :: u64
  rp_credit_hw :: u64
  rp_last_epoch :: u64
  rp_corrupt :: bool

definition reply_init :: Reply where
  "reply_init = \<lparr>rp_last_batch_no = 0, rp_credit_hw = 0, rp_last_epoch = 0, rp_corrupt = False\<rparr>"

record Commitlog =
  cl_log :: commitEntry
  cl_path :: string
  cl_fd :: int
  cl_offset :: int

text \<open>The public member \<open>log\<close> is not initialised: its first value is an argument.\<close>

definition commitlog_new :: "string \<Rightarrow> commitEntry \<Rightarrow> Commitlog" where
  "commitlog_new pat garbage = \<lparr>cl_log = garbage, cl_path = pat, cl_fd = -1, cl_offset = 0\<rparr>"

definition commitlog_destroy :: "'w file_io \<Rightarrow> Commitlog \<Rightarrow> 'w \<Rightarrow> 'w" where
  "commitlog_destroy io c w = (if cl_fd c \<ge> 0 then snd (io_close io (cl_fd c) w) else w)"

section \<open>The copies of the codec\<close>

definition log_dir_name :: "string \<Rightarrow> string" where
  "log_dir_name p = (if CHR ''/'' \<notin> set p then ''.''
     else rev (tl (dropWhile (\<lambda>c. c \<noteq> CHR ''/'') (rev p))))"

definition log_read_crc_big :: "bytes \<Rightarrow> nat \<Rightarrow> u32" where
  "log_read_crc_big b p =
     push_bit 24 (ucast (b ! p)) OR push_bit 16 (ucast (b ! (p + 1))) OR
     push_bit 8 (ucast (b ! (p + 2))) OR push_bit 0 (ucast (b ! (p + 3)))"

definition log_read_u64_be :: "bytes \<Rightarrow> nat \<Rightarrow> u64" where
  "log_read_u64_be b p =
     push_bit 56 (ucast (b ! p)) OR push_bit 48 (ucast (b ! (p + 1))) OR
     push_bit 40 (ucast (b ! (p + 2))) OR push_bit 32 (ucast (b ! (p + 3))) OR
     push_bit 24 (ucast (b ! (p + 4))) OR push_bit 16 (ucast (b ! (p + 5))) OR
     push_bit 8 (ucast (b ! (p + 6))) OR ucast (b ! (p + 7))"

definition log_write_u32_be :: "bytes \<Rightarrow> nat \<Rightarrow> u32 \<Rightarrow> bytes" where
  "log_write_u32_be b p v =
     b[p     := ucast (drop_bit 24 v AND 0xFF),
       p + 1 := ucast (drop_bit 16 v AND 0xFF),
       p + 2 := ucast (drop_bit 8 v AND 0xFF),
       p + 3 := ucast (v AND 0xFF)]"

definition log_write_u64_be :: "bytes \<Rightarrow> nat \<Rightarrow> u64 \<Rightarrow> bytes" where
  "log_write_u64_be b p v =
     b[p     := ucast (drop_bit 56 v AND 0xFF),
       p + 1 := ucast (drop_bit 48 v AND 0xFF),
       p + 2 := ucast (drop_bit 40 v AND 0xFF),
       p + 3 := ucast (drop_bit 32 v AND 0xFF),
       p + 4 := ucast (drop_bit 24 v AND 0xFF),
       p + 5 := ucast (drop_bit 16 v AND 0xFF),
       p + 6 := ucast (drop_bit 8 v AND 0xFF),
       p + 7 := ucast (v AND 0xFF)]"

lemma log_codec:
  "log_read_crc_big = read_crc_big" "log_read_u64_be = read_u64_be"
  "log_write_u32_be = write_u32_be" "log_write_u64_be = write_u64_be"
  by (intro ext; simp add: log_read_crc_big_def read_crc_big_def log_read_u64_be_def read_u64_be_def
    log_write_u32_be_def write_u32_be_def log_write_u64_be_def write_u64_be_def)+

section \<open>Replay\<close>

text \<open>The branches on a record whose checksum is right (lines 70 to 94): the result is the
  answer with \<open>corrupt\<close> set where the function returns, or the next values of
  \<open>prev_batch_no\<close>, \<open>prev_state\<close> and \<open>out\<close>.\<close>

definition replay_take :: "bytes \<Rightarrow> Reply \<Rightarrow> Reply" where
  "replay_take buf out =
     (let out = out\<lparr>rp_last_batch_no := log_read_u64_be buf 0\<rparr>;
          out = (if buf ! 24 \<ge> 1 \<and> rp_credit_hw out < log_read_u64_be buf 8
                 then out\<lparr>rp_credit_hw := log_read_u64_be buf 8\<rparr> else out)
      in out\<lparr>rp_last_epoch := log_read_u64_be buf 16\<rparr>)"

definition replay_record :: "bytes \<Rightarrow> u64 \<Rightarrow> u64 \<Rightarrow> Reply \<Rightarrow> Reply + u64 \<times> u64 \<times> Reply" where
  "replay_record buf prev_batch_no prev_state out =
     (if prev_batch_no = log_read_u64_be buf 0
      then if prev_state > ucast (buf ! 24) \<or> buf ! 24 > 2 then Inl (out\<lparr>rp_corrupt := True\<rparr>)
           else Inr (prev_batch_no, ucast (buf ! 24), replay_take buf out)
      else if prev_batch_no + 1 = log_read_u64_be buf 0
      then if buf ! 24 > 2 then Inl (out\<lparr>rp_corrupt := True\<rparr>)
           else Inr (log_read_u64_be buf 0, ucast (buf ! 24), replay_take buf out)
      else Inl (out\<lparr>rp_corrupt := True\<rparr>))"

text \<open>The loop. A read that returns fewer than 36 bytes is not noticed: the rest of \<open>buf\<close>
  keeps its bytes.\<close>

function replay_loop :: "'w file_io \<Rightarrow> zlib \<Rightarrow> int \<Rightarrow> bytes \<Rightarrow> u64 \<Rightarrow> u64 \<Rightarrow> Reply \<Rightarrow> Commitlog \<Rightarrow> 'w \<Rightarrow>
  bool \<times> Reply \<times> Commitlog \<times> 'w" where
  "replay_loop io z len buf prev_batch_no prev_state out c w =
     (if len - cl_offset c < 36
      then (True, out, c, snd (io_ftruncate io (cl_fd c) (cl_offset c) w))
      else case io_pread io (cl_fd c) 36 (cl_offset c) w of (n, data, w1) \<Rightarrow>
        if n < 0 then (False, out\<lparr>rp_corrupt := True\<rparr>, c, w1)
        else let buf = write_at buf 0 data;
                 crc = crc_upd z (crc_init z) (take 32 buf)
          in if (ucast crc :: u32) \<noteq> log_read_crc_big buf 32
             then (False, out\<lparr>rp_corrupt := True\<rparr>, c, w1)
             else case replay_record buf prev_batch_no prev_state out of
                 Inl out \<Rightarrow> (False, out, c\<lparr>cl_offset := cl_offset c + 36\<rparr>, w1)
               | Inr (prev_batch_no, prev_state, out) \<Rightarrow>
                   replay_loop io z len buf prev_batch_no prev_state out
                     (c\<lparr>cl_offset := cl_offset c + 36\<rparr>) w1)"
  by pat_completeness auto
termination
  by (relation "measure (\<lambda>(io, z, len, buf, prev_batch_no, prev_state, out, c, w). nat (len - cl_offset c))") auto

declare replay_loop.simps [simp del]

definition open_or_create :: "'w file_io \<Rightarrow> zlib \<Rightarrow> Reply \<Rightarrow> Commitlog \<Rightarrow> 'w \<Rightarrow> bool \<times> Reply \<times> Commitlog \<times> 'w" where
  "open_or_create io z out c w =
     (case io_open io (cl_path c) [O_RDWR, O_CREAT, O_EXCL] 420 w of (fd, w1) \<Rightarrow>
      let created = (fd \<noteq> -1); c = c\<lparr>cl_fd := fd\<rparr>;
          replay = (\<lambda>c w. case io_fstat io (cl_fd c) w of (rc, st_size, w') \<Rightarrow>
            if rc = 0 then replay_loop io z st_size (replicate 36 0) 0 0 out c w'
            else (False, out, c, w'))
      in if \<not> created
         then if io_errno io w1 \<noteq> EEXIST then (False, out, c, w1)
              else case io_open io (cl_path c) [O_RDWR] 420 w1 of (fd, w2) \<Rightarrow>
                let c = c\<lparr>cl_fd := fd\<rparr> in
                if fd = -1 then (False, out, c, w2) else replay c w2
         else case io_fsync_dir io (log_dir_name (cl_path c)) w1 of (d, w2) \<Rightarrow>
           if d = -1 then (False, out, c, w2) else replay c w2)"

section \<open>Append and sync\<close>

definition commit_record :: "zlib \<Rightarrow> commitEntry \<Rightarrow> bytes" where
  "commit_record z e =
     (let buf = replicate 36 0;
          buf = log_write_u64_be buf 0 (ce_batch_no e);
          buf = log_write_u64_be buf 8 (ce_candidate_hw e);
          buf = log_write_u64_be buf 16 (ce_epoch e);
          buf = buf[24 := ce_state e];
          crc = crc_init z;
          crc = crc_upd z crc (take 32 buf)
      in log_write_u32_be buf 32 (ucast crc))"

definition commitlog_append :: "'w file_io \<Rightarrow> zlib \<Rightarrow> Commitlog \<Rightarrow> 'w \<Rightarrow> bool \<times> Commitlog \<times> 'w" where
  "commitlog_append io z c w =
     (if cl_fd c < 0 then (False, c, w)
      else case io_pwrite io (cl_fd c) (commit_record z (cl_log c)) (cl_offset c) w of (n, w1) \<Rightarrow>
        if n = 36 then (True, c\<lparr>cl_offset := cl_offset c + n\<rparr>, w1)
        else if n = -1 then (False, c, w1)
        else (False, c, snd (io_ftruncate io (cl_fd c) (cl_offset c) w1)))"

definition commitlog_sync :: "'w file_io \<Rightarrow> Commitlog \<Rightarrow> 'w \<Rightarrow> (bool \<times> 'w) option" where
  "commitlog_sync io c w = (case io_fdatasync io (cl_fd c) w of None \<Rightarrow> None
     | Some (r, w') \<Rightarrow> Some (r = 0, w'))"

section \<open>Records\<close>

definition entry_of :: "bytes \<Rightarrow> commitEntry" where
  "entry_of bs = \<lparr>ce_batch_no = read_u64_be bs 0, ce_candidate_hw = read_u64_be bs 8,
     ce_epoch = read_u64_be bs 16, ce_state = bs ! 24\<rparr>"

definition crc_good :: "zlib \<Rightarrow> bytes \<Rightarrow> bool" where
  "crc_good z bs \<longleftrightarrow> ucast (crc_upd z (crc_init z) (take 32 bs)) = read_crc_big bs 32"

definition record_head :: "commitEntry \<Rightarrow> bytes" where
  "record_head e = be64 (ce_batch_no e) @ be64 (ce_candidate_hw e) @ be64 (ce_epoch e) @ ce_state e # replicate 7 0"

lemma commit_record_eq:
  "commit_record z e = record_head e @ be32 (ucast (crc_upd z (crc_init z) (record_head e)))"
  by (simp add: commit_record_def Let_def log_codec write_u32_be_eq write_u64_be_eq record_head_def
      list_update_append numeral_eq_Suc)

lemma length_commit_record [simp]: "length (commit_record z e) = 36"
  by (simp add: commit_record_eq record_head_def)

lemma commit_record_ok [simp]: "crc_good z (commit_record z e @ r)" "entry_of (commit_record z e @ r) = e"
proof -
  have h: "length (record_head e) = 32" by (simp add: record_head_def)
  then show "crc_good z (commit_record z e @ r)"
    by (simp add: crc_good_def commit_record_eq codec_simps)
  show "entry_of (commit_record z e @ r) = e"
    by (simp add: commit_record_eq record_head_def entry_of_def codec_simps nth_append)
qed

lemma commit_record_ok' [simp]: "crc_good z (commit_record z e)" "entry_of (commit_record z e) = e"
  using commit_record_ok [of z e "[]"] by simp_all

text \<open>The complete records of a file.\<close>

function blocks :: "bytes \<Rightarrow> bytes list" where
  "blocks bs = (if length bs < 36 then [] else take 36 bs # blocks (drop 36 bs))"
  by pat_completeness auto
termination by (relation "measure length") auto

declare blocks.simps [simp del]

lemma blocks_short [simp]: "length bs < 36 \<Longrightarrow> blocks bs = []"
  by (subst blocks.simps) simp

lemma blocks_append [simp]: "length b = 36 \<Longrightarrow> blocks (b @ bs) = b # blocks bs"
  by (subst blocks.simps) simp

lemma length_blocks: "length (blocks bs) = length bs div 36"
  by (induction bs rule: blocks.induct) (subst blocks.simps, auto simp: le_div_geq not_less)

lemma blocks_records: "length r < 36 \<Longrightarrow> blocks (concat (map (commit_record z) es) @ r) = map (commit_record z) es"
  by (induction es) simp_all

section \<open>What the replay computes\<close>

text \<open>The histories the replay accepts: a state that is one of the three, and either the same
  batch with a state that does not go back, or the next batch.\<close>

fun history_ok :: "u64 \<Rightarrow> u64 \<Rightarrow> commitEntry list \<Rightarrow> bool" where
  "history_ok batch st [] = True"
| "history_ok batch st (e # es) =
     (ce_state e \<le> published \<and>
      (ce_batch_no e = batch \<and> st \<le> ucast (ce_state e) \<or> ce_batch_no e = batch + 1) \<and>
      history_ok (ce_batch_no e) (ucast (ce_state e)) es)"

definition reply_step :: "Reply \<Rightarrow> commitEntry \<Rightarrow> Reply" where
  "reply_step out e = out\<lparr>rp_last_batch_no := ce_batch_no e,
     rp_credit_hw := (if credited \<le> ce_state e then max (rp_credit_hw out) (ce_candidate_hw e) else rp_credit_hw out),
     rp_last_epoch := ce_epoch e\<rparr>"

definition reply_of :: "Reply \<Rightarrow> commitEntry list \<Rightarrow> Reply" where
  "reply_of out es = foldl reply_step out es"

lemma reply_of_simps [simp]:
  "reply_of out [] = out" "reply_of out (e # es) = reply_of (reply_step out e) es"
  by (simp_all add: reply_of_def)

lemma reply_of_corrupt [simp]: "rp_corrupt (reply_of out es) = rp_corrupt out"
  by (induction es arbitrary: out) (simp_all add: reply_step_def)

lemma replay_take_eq: "replay_take buf out = reply_step out (entry_of buf)"
  by (simp add: replay_take_def reply_step_def entry_of_def log_codec Let_def max_def credited_def)

lemma replay_record_eq:
  "replay_record buf batch st out =
     (if history_ok batch st [entry_of buf]
      then Inr (ce_batch_no (entry_of buf), ucast (ce_state (entry_of buf)), reply_step out (entry_of buf))
      else Inl (out\<lparr>rp_corrupt := True\<rparr>))"
  by (auto simp: replay_record_def replay_take_eq log_codec entry_of_def published_def not_less not_le)

definition good :: "zlib \<Rightarrow> u64 \<Rightarrow> u64 \<Rightarrow> bytes list \<Rightarrow> bool" where
  "good z batch st bls \<longleftrightarrow> (\<forall>b \<in> set bls. crc_good z b) \<and> history_ok batch st (map entry_of bls)"

lemma good_simps [simp]:
  "good z batch st []"
  "good z batch st (b # bls) \<longleftrightarrow> crc_good z b \<and> history_ok batch st [entry_of b] \<and>
     good z (ce_batch_no (entry_of b)) (ucast (ce_state (entry_of b))) bls"
  by (auto simp: good_def)

lemma good_records: "good z batch st (map (commit_record z) es) = history_ok batch st es"
  by (induction es arbitrary: batch st) auto

lemma block_read:
  assumes "length b = 36" "data = b"
  shows "crc_upd z (crc_init z) (take 32 (write_at buf 0 data)) = crc_upd z (crc_init z) (take 32 b)"
    "log_read_crc_big (write_at buf 0 data) 32 = read_crc_big b 32"
    "entry_of (write_at buf 0 data) = entry_of b"
proof -
  have t: "take k (write_at buf 0 data) = take k b" if "k \<le> 36" for k
    using that assms take_write_at_ge [of k data buf] by simp
  show "crc_upd z (crc_init z) (take 32 (write_at buf 0 data)) = crc_upd z (crc_init z) (take 32 b)"
    by (simp add: t)
  have "read_crc_big (take 36 (write_at buf 0 data)) 32 = read_crc_big b 32"
    using t [of 36] assms by simp
  then show "log_read_crc_big (write_at buf 0 data) 32 = read_crc_big b 32"
    by (simp add: log_codec read_crc_big_take)
  have r: "read_u64_be (write_at buf 0 data) p = read_u64_be b p" if "p + 8 \<le> 36" for p
    using t [of 36] assms read_u64_be_take [OF that, of "write_at buf 0 data"] by simp
  have "write_at buf 0 data ! 24 = b ! 24"
    using arg_cong [OF t [of 36], of "\<lambda>x. x ! 24"] by simp
  then show "entry_of (write_at buf 0 data) = entry_of b"
    by (simp add: entry_of_def r)
qed

text \<open>The last call was the read of a record, and it failed.\<close>

definition read_failed :: "'w file_io \<Rightarrow> Commitlog \<Rightarrow> 'w \<Rightarrow> bool" where
  "read_failed io c w' \<longleftrightarrow> (\<exists>w n data. io_pread io (cl_fd c) 36 (cl_offset c) w = (n, data, w') \<and> n < 0)"

context file_contract_reads
begin

text \<open>One record, read without an error.\<close>

lemma replay_loop_record:
  assumes "at_file (fsv w) (cl_fd c) p fl bs" "readable fl" "0 \<le> cl_offset c" "36 \<le> length bs - nat (cl_offset c)"
    and "io_pread io (cl_fd c) 36 (cl_offset c) w = (n, data, w1)" "n \<noteq> -1"
  defines "b \<equiv> take 36 (drop (nat (cl_offset c)) bs)"
  shows "fsv w1 = fsv w" and "length b = 36"
    and "replay_loop io z (int (length bs)) buf batch st out c w =
      (if \<not> crc_good z b then (False, out\<lparr>rp_corrupt := True\<rparr>, c, w1)
       else if history_ok batch st [entry_of b]
         then replay_loop io z (int (length bs)) (write_at buf 0 data) (ce_batch_no (entry_of b)) (ucast (ce_state (entry_of b)))
           (reply_step out (entry_of b)) (c\<lparr>cl_offset := cl_offset c + 36\<rparr>) w1
         else (False, out\<lparr>rp_corrupt := True\<rparr>, c\<lparr>cl_offset := cl_offset c + 36\<rparr>, w1))"
proof -
  have f: "data = b" "n = int (length data)" "fsv w1 = fsv w"
    using pread_reads_at [OF assms(1-3,5)] assms(6) b_def by metis+
  then show "fsv w1 = fsv w" by simp
  show lb: "length b = 36" using assms(4) by (simp add: b_def)
  note br = block_read [OF lb f(1)]
  have "ucast (crc_upd z (crc_init z) (take 32 (write_at buf 0 data))) = log_read_crc_big (write_at buf 0 data) 32 \<longleftrightarrow> crc_good z b"
    unfolding crc_good_def by (simp only: br)
  moreover have "\<not> n < 0" "\<not> int (length bs) - cl_offset c < 36" using f(2) assms(3,4) by linarith+
  ultimately show "replay_loop io z (int (length bs)) buf batch st out c w =
      (if \<not> crc_good z b then (False, out\<lparr>rp_corrupt := True\<rparr>, c, w1)
       else if history_ok batch st [entry_of b]
         then replay_loop io z (int (length bs)) (write_at buf 0 data) (ce_batch_no (entry_of b)) (ucast (ce_state (entry_of b)))
           (reply_step out (entry_of b)) (c\<lparr>cl_offset := cl_offset c + 36\<rparr>) w1
         else (False, out\<lparr>rp_corrupt := True\<rparr>, c\<lparr>cl_offset := cl_offset c + 36\<rparr>, w1))"
    unfolding replay_loop.simps [of io z "int (length bs)" buf batch st out c w] assms(5) Let_def
    by (simp add: br(3) replay_record_eq del: history_ok.simps)
qed

lemma replay_loop_outcome:
  assumes "at_file (fsv w) (cl_fd c) p fl bs" "readable fl"
    "0 \<le> cl_offset c" "cl_offset c \<le> int (length bs)" "rest = drop (nat (cl_offset c)) bs"
    "replay_loop io z (int (length bs)) buf batch st out c w = (ok, out', c', w')"
  shows "cl_fd c' = cl_fd c \<and> 0 \<le> cl_offset c' \<and>
    (if ok then good z batch st (blocks rest) \<and> out' = reply_of out (map entry_of (blocks rest)) \<and>
        c' = c\<lparr>cl_offset := cl_offset c + 36 * int (length (blocks rest))\<rparr> \<and>
        (fsv w' = fsv w \<or> fsv w' = file_put (fsv w) p (take (nat (cl_offset c')) bs))
     else rp_corrupt out' \<and> fsv w' = fsv w \<and> (good z batch st (blocks rest) \<longrightarrow> read_failed io c' w'))"
  using assms
proof (induction "length rest" arbitrary: rest buf batch st out c w rule: less_induct)
  case less
  note loop = replay_loop.simps [of io z "int (length bs)" buf batch st out c w]
  show ?case
  proof (cases "length rest < 36")
    case True
    obtain rc w2 where ft: "io_ftruncate io (cl_fd c) (cl_offset c) w = (rc, w2)" by fastforce
    have "int (length bs) - cl_offset c < 36" using True less.prems(3-5) by auto
    then have r: "ok" "out' = out" "c' = c" "w' = w2"
      using less.prems(6) loop ft by auto
    have b: "blocks rest = []" using True by simp
    have len: "nat (cl_offset c) \<le> length bs" using less.prems(4) by simp
    from ft less.prems(1) have "fsv w' = fsv w \<or> fsv w' = file_put (fsv w) p (take (nat (cl_offset c)) bs)"
      by (cases rule: ftruncate_at) (use r len in auto)
    then show ?thesis using r b less.prems(3) by simp
  next
    case False
    obtain n data w1 where rd: "io_pread io (cl_fd c) 36 (cl_offset c) w = (n, data, w1)" by (metis prod_cases3)
    have long: "\<not> int (length bs) - cl_offset c < 36" using False less.prems(3,5) by auto
    show ?thesis
    proof (cases "n = -1")
      case True
      then have "\<not> ok" "out' = out\<lparr>rp_corrupt := True\<rparr>" "c' = c" "w' = w1"
        using less.prems(6) loop long rd by auto
      moreover from this have "read_failed io c' w'"
        unfolding read_failed_def using rd True by (intro exI [of _ w] exI [of _ n] exI [of _ data]) simp
      ultimately show ?thesis using pread_same [OF rd] less.prems(3) by simp
    next
      case nf: False
      let ?b = "take 36 rest"
      have l36: "36 \<le> length bs - nat (cl_offset c)" using False less.prems(5) by simp
      note rec = replay_loop_record [OF less.prems(1-3) l36 rd nf, folded less.prems(5)]
      have blk: "blocks rest = ?b # blocks (drop 36 rest)"
        using False by (subst blocks.simps) simp
      note step = less.prems(6) [unfolded rec(3)]
      show ?thesis
      proof (cases "crc_good z ?b \<and> history_ok batch st [entry_of ?b]")
        case True
        let ?c = "c\<lparr>cl_offset := cl_offset c + 36\<rparr>"
        have r: "drop 36 rest = drop (nat (cl_offset ?c)) bs"
          using less.prems(3,5) by (simp add: nat_add_distrib add.commute)
        have sub: "length (drop 36 rest) < length rest" using False by simp
        have le: "cl_offset ?c \<le> int (length bs)" using long by simp
        have at1: "at_file (fsv w1) (cl_fd ?c) p fl bs" using less.prems(1) rec(1) by simp
        have o0: "0 \<le> cl_offset ?c" using less.prems(3) by simp
        have lp: "replay_loop io z (int (length bs)) (write_at buf 0 data) (ce_batch_no (entry_of ?b)) (ucast (ce_state (entry_of ?b)))
             (reply_step out (entry_of ?b)) ?c w1 = (ok, out', c', w')"
          using step True by simp
        from less.hyps [OF sub at1 less.prems(2) o0 le r lp] show ?thesis
          unfolding blk rec(1) using True by (auto split: if_splits)
      next
        case bad: False
        then have "\<not> ok" "rp_corrupt out'" "w' = w1" "cl_fd c' = cl_fd c" "0 \<le> cl_offset c'"
          using step less.prems(3) by (auto simp del: history_ok.simps split: if_splits)
        then show ?thesis unfolding blk using bad rec(1) by (auto simp del: history_ok.simps)
      qed
    qed
  qed
qed

end

lemma length_write_at_le: "length (write_at bs off new) \<le> max (length bs) (off + length new)"
  by (cases "new = []") (simp_all add: length_write_at)

section \<open>Opening\<close>

context file_contract_reads
begin

lemma replay_opened:
  assumes "at_file (fsv w) fd p fl bs" "readable fl" "cl_fd c = fd" "cl_offset c = 0"
    "(case io_fstat io (cl_fd c) w of (rc, st_size, w') \<Rightarrow>
        if rc = 0 then replay_loop io z st_size (replicate 36 0) 0 0 out c w'
        else (False, out, c, w')) = (ok, out', c', w')"
  shows "cl_fd c' = fd \<and>
    (if ok then good z 0 0 (blocks bs) \<and> out' = reply_of out (map entry_of (blocks bs)) \<and>
        c' = c\<lparr>cl_offset := 36 * int (length (blocks bs))\<rparr> \<and>
        (fsv w' = fsv w \<or> fsv w' = file_put (fsv w) p (take (36 * length (blocks bs)) bs))
     else fsv w' = fsv w \<and>
        (out' = out \<or> rp_corrupt out' \<and> (good z 0 0 (blocks bs) \<longrightarrow> read_failed io c' w')))"
proof -
  obtain rc sz w1 where st: "io_fstat io fd w = (rc, sz, w1)" by (metis prod_cases3)
  have w1: "fsv w1 = fsv w" by (rule fstat_same [OF st])
  show ?thesis
  proof (cases "rc = 0")
    case False
    then show ?thesis using assms(3,5) st w1 by auto
  next
    case True
    then have sz: "sz = int (length bs)" using fstat_at [OF st assms(1)] by simp
    have lp: "replay_loop io z (int (length bs)) (replicate 36 0) 0 0 out c w1 = (ok, out', c', w')"
      using assms(3,5) st True sz by simp
    have "at_file (fsv w1) (cl_fd c) p fl bs" using assms(1,3) w1 by simp
    from replay_loop_outcome [OF this assms(2) _ _ _ lp, of bs] assms(3,4)
    show ?thesis by (auto simp: w1 nat_mult_distrib split: if_splits)
  qed
qed

text \<open>The outcome of opening an existing file with the bytes \<open>bs\<close>.\<close>

lemma open_existing:
  assumes "open_or_create io z out c w = (ok, out', c', w')" "fs_files (fsv w) (cl_path c) = Some bs"
    "cl_offset c = 0"
  shows "if ok
    then good z 0 0 (blocks bs) \<and> out' = reply_of out (map entry_of (blocks bs)) \<and>
      c' = c\<lparr>cl_fd := cl_fd c', cl_offset := 36 * int (length (blocks bs))\<rparr> \<and>
      (\<exists>bs'. at_file (fsv w') (cl_fd c') (cl_path c) [O_RDWR] bs' \<and>
         (bs' = bs \<or> bs' = take (36 * length (blocks bs)) bs))
    else (out' = out \<or> rp_corrupt out' \<and> (good z 0 0 (blocks bs) \<longrightarrow> read_failed io c' w')) \<and>
      fs_files (fsv w') = fs_files (fsv w)"
proof -
  obtain fd w1 where o1: "io_open io (cl_path c) [O_RDWR, O_CREAT, O_EXCL] 420 w = (fd, w1)" by fastforce
  have fd: "fd = -1" and w1: "fsv w1 = fsv w"
    using open_law [OF o1] assms(2) by (auto simp: open_ok_def)
  show ?thesis
  proof (cases "io_errno io w1 = EEXIST")
    case False
    then have "\<not> ok" "out' = out" "w' = w1"
      using assms(1) o1 fd by (auto simp: open_or_create_def Let_def)
    then show ?thesis using w1 by simp
  next
    case True
    obtain fd2 w2 where o2: "io_open io (cl_path c) [O_RDWR] 420 w1 = (fd2, w2)" by fastforce
    show ?thesis
    proof (cases "fd2 = -1")
      case minus: True
      then have "\<not> ok" "out' = out" "w' = w2"
        using assms(1) o1 fd o2 True by (auto simp: open_or_create_def Let_def)
      then show ?thesis using w1 open_law [OF o2] minus by (auto simp: open_ok_def)
    next
      case False
      let ?c = "c\<lparr>cl_fd := fd2\<rparr>"
      have at: "at_file (fsv w2) fd2 (cl_path c) [O_RDWR] bs" and files: "fs_files (fsv w2) = fs_files (fsv w)"
        using open_law [OF o2] False w1 assms(2) by (auto simp: open_ok_def at_file_def)
      have run: "(case io_fstat io (cl_fd ?c) w2 of (rc, st_size, w') \<Rightarrow>
          if rc = 0 then replay_loop io z st_size (replicate 36 0) 0 0 out ?c w'
          else (False, out, ?c, w')) = (ok, out', c', w')"
        using assms(1) o1 fd o2 True False by (simp add: open_or_create_def Let_def)
      have "readable [O_RDWR]" by (simp add: readable_def)
      from replay_opened [OF at this _ _ run] assms(3)
      show ?thesis
        using at files by (auto simp: at_file_fd split: if_splits)
    qed
  qed
qed

lemma open_fresh:
  assumes "open_or_create io z out c w = (True, out', c', w')" "fs_files (fsv w) (cl_path c) = None"
    "cl_offset c = 0"
  shows "out' = out \<and> c' = c\<lparr>cl_fd := cl_fd c'\<rparr> \<and> 0 \<le> cl_fd c' \<and>
    at_file (fsv w') (cl_fd c') (cl_path c) [O_RDWR, O_CREAT, O_EXCL] []"
proof -
  obtain fd w1 where o1: "io_open io (cl_path c) [O_RDWR, O_CREAT, O_EXCL] 420 w = (fd, w1)" by fastforce
  show ?thesis
  proof (cases "fd = -1")
    case True
    then have w1: "fsv w1 = fsv w" and e: "io_errno io w1 \<noteq> EEXIST"
      using open_law [OF o1] assms(2) by (auto simp: open_ok_def)
    then show ?thesis using assms(1) o1 True by (simp add: open_or_create_def Let_def)
  next
    case False
    let ?c = "c\<lparr>cl_fd := fd\<rparr>"
    obtain d w2 where sy: "io_fsync_dir io (log_dir_name (cl_path c)) w1 = (d, w2)" by fastforce
    have d: "d \<noteq> -1" using assms(1) o1 False sy by (auto simp: open_or_create_def Let_def)
    have fd: "0 \<le> fd" "at_file (fsv w1) fd (cl_path c) [O_RDWR, O_CREAT, O_EXCL] []"
      using open_law [OF o1] False assms(2) by (auto simp: open_ok_def at_file_def)
    have at: "at_file (fsv w2) fd (cl_path c) [O_RDWR, O_CREAT, O_EXCL] []"
      using fd(2) fsync_dir_same [OF sy] by simp
    have run: "(case io_fstat io (cl_fd ?c) w2 of (rc, st_size, w') \<Rightarrow>
        if rc = 0 then replay_loop io z st_size (replicate 36 0) 0 0 out ?c w'
        else (False, out, ?c, w')) = (True, out', c', w')"
      using assms(1) o1 False sy d by (simp add: open_or_create_def Let_def)
    have "readable [O_RDWR, O_CREAT, O_EXCL]" by (simp add: readable_def)
    from replay_opened [OF at this _ _ run] assms(3)
    show ?thesis using fd(1) at by (auto simp: at_file_same)
  qed
qed

end

text \<open>Where no read fails, opening succeeds on a good file.\<close>

context file_contract_full
begin

lemma no_read_failed:
  assumes "at_file (fsv w') (cl_fd c) p fl bs" "readable fl" "0 \<le> cl_offset c"
  shows "\<not> read_failed io c w'"
proof
  assume "read_failed io c w'"
  then obtain w n data where r: "io_pread io (cl_fd c) 36 (cl_offset c) w = (n, data, w')" "n < 0" by (auto simp: read_failed_def)
  then have "at_file (fsv w) (cl_fd c) p fl bs" using assms(1) pread_same by simp
  from pread_full_at [OF this assms(2,3) r(1)] r(2) show False by simp
qed

lemma replay_full:
  assumes "at_file (fsv w) (cl_fd c) p fl bs" "readable fl" "cl_offset c = 0"
    "replay_loop io z (int (length bs)) (replicate 36 0) 0 0 out c w = (ok, out', c', w')"
  shows "ok \<longleftrightarrow> good z 0 0 (blocks bs)"
proof -
  have o: "cl_fd c' = cl_fd c" "0 \<le> cl_offset c'"
    "if ok then good z 0 0 (blocks bs) else fsv w' = fsv w \<and> (good z 0 0 (blocks bs) \<longrightarrow> read_failed io c' w')"
    using replay_loop_outcome [OF assms(1,2) _ _ _ assms(4), of bs] assms(3) by (auto split: if_splits)
  show ?thesis
  proof (cases ok)
    case False
    then have "at_file (fsv w') (cl_fd c') p fl bs" using o assms(1) by simp
    from no_read_failed [OF this assms(2) o(2)] show ?thesis using o(3) False by simp
  qed (use o(3) in simp)
qed

end

section \<open>A sequence of appends\<close>

fun commit_run :: "'w file_io \<Rightarrow> zlib \<Rightarrow> Commitlog \<Rightarrow> commitEntry list \<Rightarrow> 'w \<Rightarrow> commitEntry list \<times> Commitlog \<times> 'w" where
  "commit_run io z c [] w = ([], c, w)"
| "commit_run io z c (e # es) w =
     (case commitlog_append io z (c\<lparr>cl_log := e\<rparr>) w of (ok, c1, w1) \<Rightarrow>
      case commit_run io z c1 es w1 of (acc, c2, w2) \<Rightarrow> (if ok then e # acc else acc, c2, w2))"

definition records :: "zlib \<Rightarrow> commitEntry list \<Rightarrow> bytes" where
  "records z es = concat (map (commit_record z) es)"

lemma records_simps [simp]:
  "records z [] = []" "records z (e # es) = commit_record z e @ records z es"
  by (simp_all add: records_def)

lemma length_records [simp]: "length (records z es) = 36 * length es"
  by (induction es) simp_all

context file_contract
begin

lemma commitlog_append_result:
  assumes "commitlog_append io z c w = (ok, c', w')"
    "at_file (fsv w) (cl_fd c) p fl bs" "0 \<le> cl_offset c" "cl_offset c \<le> int (length bs)" "length bs < nat (cl_offset c) + 36"
  shows "\<exists>bs'. fsv w' = file_put (fsv w) p bs' \<and>
    c' = (if ok then c\<lparr>cl_offset := cl_offset c + 36\<rparr> else c) \<and>
    cl_offset c' \<le> int (length bs') \<and> length bs' < nat (cl_offset c') + 36 \<and>
    take (nat (cl_offset c')) bs' = take (nat (cl_offset c)) bs @ (if ok then commit_record z (cl_log c) else [])"
proof (cases "cl_fd c < 0")
  case True
  then show ?thesis using assms by (intro exI [of _ bs]) (auto simp: commitlog_append_def at_file_same)
next
  case False
  let ?o = "nat (cl_offset c)" and ?r = "commit_record z (cl_log c)"
  have o: "?o \<le> length bs" using assms(4) by simp
  obtain n w1 where pw: "io_pwrite io (cl_fd c) ?r (cl_offset c) w = (n, w1)" by fastforce
  obtain rc w2 where ft: "io_ftruncate io (cl_fd c) (cl_offset c) w1 = (rc, w2)" by fastforce
  from pw assms(2) show ?thesis
  proof (cases rule: pwrite_at)
    case failed
    then have "\<not> ok" "c' = c" "fsv w' = fsv w"
      using assms(1) pw False by (auto simp: commitlog_append_def)
    then show ?thesis using assms(2,4,5) by (intro exI [of _ bs]) (simp add: at_file_same)
  next
    case (wrote k)
    let ?new = "write_at bs ?o (take k ?r)"
    show ?thesis
    proof (cases "k = 36")
      case True
      then have r: "ok" "c' = c\<lparr>cl_offset := cl_offset c + 36\<rparr>" "w' = w1"
        using assms(1) pw wrote False by (auto simp: commitlog_append_def)
      have n: "nat (cl_offset c + 36) = ?o + 36" using assms(3) by simp
      have "?r \<noteq> []" using length_commit_record [of z "cl_log c"] by (metis list.size(3) zero_neq_numeral)
      then have "length ?new = max (length bs) (?o + 36)" "take (?o + 36) ?new = take ?o bs @ ?r"
        using True take_add_write_at [OF o, of ?r] by (simp_all add: length_write_at)
      then show ?thesis
        using r n wrote(5) True assms(3,5) by (intro exI [of _ ?new]) auto
    next
      case nk: False
      then have r: "\<not> ok" "c' = c" "w' = w2"
        using assms(1) pw ft wrote False by (auto simp: commitlog_append_def)
      have k: "k < 36" using wrote nk by simp
      have l: "?o \<le> length ?new" "length ?new < ?o + 36"
      proof -
        show "?o \<le> length ?new" by (rule le_length_write_at [OF o])
        have "length ?new \<le> max (length bs) (?o + k)"
          using length_write_at_le [of bs ?o "take k ?r"] k by simp
        then show "length ?new < ?o + 36" using assms(5) k by linarith
      qed
      have at1: "at_file (fsv w1) (cl_fd c) p fl ?new"
        using wrote assms(2) by (simp add: at_file_fd)
      from ft at1 show ?thesis
      proof (cases rule: ftruncate_at)
        case failed
        then show ?thesis using r wrote(5) l o assms(3) by (intro exI [of _ ?new]) simp
      next
        case cut
        moreover have "set_size ?new ?o = take ?o bs" using l o by simp
        ultimately show ?thesis using r wrote(5) o assms(3) by (intro exI [of _ "take ?o bs"]) simp
      qed
    qed
  qed
qed

lemma commit_run_result:
  assumes "commit_run io z c es w = (acc, c', w')"
    "at_file (fsv w) (cl_fd c) p fl bs" "0 \<le> cl_offset c" "cl_offset c \<le> int (length bs)" "length bs < nat (cl_offset c) + 36"
  shows "\<exists>bs'. fsv w' = file_put (fsv w) p bs' \<and> cl_fd c' = cl_fd c \<and>
    cl_offset c' = cl_offset c + 36 * int (length acc) \<and>
    cl_offset c' \<le> int (length bs') \<and> length bs' < nat (cl_offset c') + 36 \<and>
    take (nat (cl_offset c')) bs' = take (nat (cl_offset c)) bs @ records z acc"
  using assms
proof (induction es arbitrary: c w bs acc)
  case Nil
  then show ?case by (intro exI [of _ bs]) (simp add: at_file_same)
next
  case (Cons e es)
  obtain ok c1 w1 where ap: "commitlog_append io z (c\<lparr>cl_log := e\<rparr>) w = (ok, c1, w1)" by (metis prod_cases3)
  obtain acc1 where run: "commit_run io z c1 es w1 = (acc1, c', w')"
    and acc: "acc = (if ok then e # acc1 else acc1)"
    using Cons.prems(1) ap by (auto split: prod.splits)
  obtain bs1 where b: "fsv w1 = file_put (fsv w) p bs1"
    "c1 = (if ok then c\<lparr>cl_log := e, cl_offset := cl_offset c + 36\<rparr> else c\<lparr>cl_log := e\<rparr>)"
    "cl_offset c1 \<le> int (length bs1)" "length bs1 < nat (cl_offset c1) + 36"
    "take (nat (cl_offset c1)) bs1 = take (nat (cl_offset c)) bs @ (if ok then commit_record z e else [])"
    using commitlog_append_result [OF ap, of p fl bs] Cons.prems(2-5) by fastforce
  have at1: "at_file (fsv w1) (cl_fd c1) p fl bs1" using b(1,2) Cons.prems(2) by (simp add: at_file_fd)
  have "0 \<le> cl_offset c1" using b(2) Cons.prems(3) by simp
  from Cons.IH [OF run at1 this b(3,4)] obtain bs' where
    "fsv w' = file_put (fsv w1) p bs'" "cl_fd c' = cl_fd c1" "cl_offset c' = cl_offset c1 + 36 * int (length acc1)"
    "cl_offset c' \<le> int (length bs')" "length bs' < nat (cl_offset c') + 36"
    "take (nat (cl_offset c')) bs' = take (nat (cl_offset c1)) bs1 @ records z acc1" by blast
  then show ?case using b acc by (intro exI [of _ bs']) (auto split: if_splits)
qed

end

section \<open>Properties\<close>

lemma take_eq_append:
  "take n bs = xs \<Longrightarrow> n \<le> length bs \<Longrightarrow> bs = xs @ drop n bs"
  by (metis append_take_drop_id)

text \<open>Opening a file whose complete records are those of \<open>es\<close>.\<close>

lemma reopen_records:
  assumes "file_contract_reads io fsv"
    and "open_or_create io z reply_init (commitlog_new path g) w = (ok, out, c', w')"
    and "fs_files (fsv w) (cl_path (commitlog_new path g)) = Some bs" "blocks bs = map (commit_record z) es"
  shows "if history_ok 0 0 es
    then (rp_corrupt out \<longrightarrow> read_failed io c' w') \<and> (ok \<longrightarrow> out = reply_of reply_init es \<and> cl_offset c' = 36 * int (length es))
    else \<not> ok"
proof -
  have n: "cl_offset (commitlog_new path g) = 0" by (simp add: commitlog_new_def)
  have nc: "\<not> rp_corrupt reply_init" by (simp add: reply_init_def)
  have good: "good z 0 0 (blocks bs) \<longleftrightarrow> history_ok 0 0 es" by (simp add: assms(4) good_records)
  note ex = file_contract_reads.open_existing [OF assms(1-3) n, unfolded good]
  have map_id: "map entry_of (blocks bs) = es" "length (blocks bs) = length es"
    by (simp_all add: assms(4) comp_def)
  show ?thesis
  proof (cases ok)
    case True
    then have "history_ok 0 0 es" "out = reply_of reply_init es"
      "c' = (commitlog_new path g)\<lparr>cl_fd := cl_fd c', cl_offset := 36 * int (length es)\<rparr>"
      using ex map_id by simp_all
    moreover have "cl_offset c' = 36 * int (length es)" using arg_cong [OF calculation(3), of cl_offset] by simp
    ultimately show ?thesis using nc by simp
  next
    case False
    then show ?thesis using ex nc by auto
  qed
qed

text \<open>Property C17. Opening an existing commit log is exact, on a file system whose reads of regular files are
  never short (each call may fail, the reads too). It succeeds only if every complete
  record has the right checksum and the entries are an accepted history (the same batch with a
  state that does not go back, or the next batch; at most \<open>published\<close>); then the reply is the
  summary of the entries and the position is behind the last complete record. A failure leaves the files
  as they were; it reports corruption only if the records are not such a history, or if the
  last thing that happened was a read that failed, which the code does not tell apart.
\<close>

theorem replay_exact:
  assumes "file_contract_reads io fsv"
    and "open_or_create io z reply_init (commitlog_new path g) w = (ok, out, c', w')"
    and "fs_files (fsv w) path = Some bs"
  shows "if ok
    then (\<forall>b \<in> set (blocks bs). crc_good z b) \<and> history_ok 0 0 (map entry_of (blocks bs)) \<and>
      out = reply_of reply_init (map entry_of (blocks bs)) \<and> cl_offset c' = 36 * (int (length bs) div 36)
    else fs_files (fsv w') = fs_files (fsv w) \<and>
      (rp_corrupt out \<longrightarrow>
       \<not> ((\<forall>b \<in> set (blocks bs). crc_good z b) \<and> history_ok 0 0 (map entry_of (blocks bs))) \<or> read_failed io c' w')"
proof -
  have n: "cl_path (commitlog_new path g) = path" "cl_offset (commitlog_new path g) = 0"
    by (simp_all add: commitlog_new_def)
  have "\<not> rp_corrupt reply_init" by (simp add: reply_init_def)
  with file_contract_reads.open_existing [OF assms(1,2)] assms(3) n show ?thesis
    by (cases ok) (auto simp: good_def length_blocks zdiv_int dest: arg_cong [where f = cl_offset])
qed

definition commit_demo :: "commitEntry list" where
  "commit_demo = [\<lparr>ce_batch_no = 1, ce_candidate_hw = 100, ce_epoch = 7, ce_state = candidate\<rparr>,
     \<lparr>ce_batch_no = 1, ce_candidate_hw = 100, ce_epoch = 7, ce_state = published\<rparr>,
     \<lparr>ce_batch_no = 2, ce_candidate_hw = 250, ce_epoch = 8, ce_state = candidate\<rparr>]"

lemma commit_demo_facts:
  "history_ok 0 0 commit_demo"
  "reply_of reply_init commit_demo = \<lparr>rp_last_batch_no = 2, rp_credit_hw = 100, rp_last_epoch = 8, rp_corrupt = False\<rparr>"
  "length commit_demo = 3"
  by (simp_all add: commit_demo_def candidate_def credited_def published_def reply_step_def reply_init_def max_def)

lemma mem_open_existing:
  "\<exists>out c' w'. open_or_create mem_io z reply_init (commitlog_new p g) (mem_file [] p [O_RDWR] (records z es @ r)) =
     (history_ok 0 0 es, out, c', w')" if "length r < 36"
proof -
  let ?bs = "records z es @ r"
  let ?w = "mem_file [] p [O_RDWR] ?bs"
  let ?w2 = "?w\<lparr>mem_errno := EEXIST, mem_next := 5, mem_fs := (mem_fs ?w)\<lparr>fs_fds := (fs_fds (mem_fs ?w))(4 \<mapsto> (p, [O_RDWR]))\<rparr>\<rparr>"
  have b: "good z 0 0 (blocks ?bs) = history_ok 0 0 es"
    using blocks_records [OF that] by (simp add: records_def good_records)
  have o: "open_or_create mem_io z reply_init (commitlog_new p g) ?w =
    (case io_fstat mem_io 4 ?w2 of (rc, st_size, w') \<Rightarrow>
        if rc = 0 then replay_loop mem_io z st_size (replicate 36 0) 0 0 reply_init ((commitlog_new p g)\<lparr>cl_fd := 4\<rparr>) w'
        else (False, reply_init, (commitlog_new p g)\<lparr>cl_fd := 4\<rparr>, w'))"
    by (simp add: open_or_create_def commitlog_new_def mem_eval)
  obtain ok out c' w' where r: "open_or_create mem_io z reply_init (commitlog_new p g) ?w = (ok, out, c', w')"
    by (metis prod_cases4)
  have at: "at_file (mem_fs ?w2) 4 p [O_RDWR] ?bs" by (simp add: at_file_def mem_file_def)
  have rd: "readable [O_RDWR]" by (simp add: readable_def)
  let ?c = "(commitlog_new p g)\<lparr>cl_fd := 4\<rparr>"
  have c: "cl_fd ?c = 4" "cl_offset ?c = 0" by (simp_all add: commitlog_new_def)
  have "io_fstat mem_io 4 ?w2 = (0, int (length ?bs), ?w2)" by (simp add: mem_fstat_def mem_file_def)
  then have run: "replay_loop mem_io z (int (length ?bs)) (replicate 36 0) 0 0 reply_init ?c ?w2 = (ok, out, c', w')"
    using o r by simp
  have "ok \<longleftrightarrow> good z 0 0 (blocks ?bs)"
    by (rule file_contract_full.replay_full [OF mem_io_contract_full _ rd c(2) run]) (use at c(1) in simp)
  then have "open_or_create mem_io z reply_init (commitlog_new p g) ?w = (history_ok 0 0 es, out, c', w')"
    using r b by simp
  then show ?thesis by blast
qed

theorem replay_exact_witness:
  "\<exists>c' w'. open_or_create mem_io sum_ref reply_init (commitlog_new ''c'' (hd commit_demo))
      (mem_file [] ''c'' [O_RDWR] (records sum_ref commit_demo @ [1, 2, 3])) =
    (True, \<lparr>rp_last_batch_no = 2, rp_credit_hw = 100, rp_last_epoch = 8, rp_corrupt = False\<rparr>, c', w') \<and>
    cl_offset c' = 108"
proof -
  define bs where "bs = records sum_ref commit_demo @ [1, 2, 3]"
  obtain out c' w' where r: "open_or_create mem_io sum_ref reply_init (commitlog_new ''c'' (hd commit_demo)) (mem_file [] ''c'' [O_RDWR] bs) = (True, out, c', w')"
    using mem_open_existing [of "[1, 2, 3]" sum_ref "''c''" "hd commit_demo" commit_demo] commit_demo_facts by (auto simp: bs_def)
  have b: "map entry_of (blocks bs) = commit_demo" "length bs = 111"
    using blocks_records [of "[1, 2, 3]" sum_ref commit_demo]
    by (simp_all add: bs_def records_def [symmetric] comp_def commit_demo_facts)
  have "fs_files (mem_fs (mem_file [] ''c'' [O_RDWR] bs)) ''c'' = Some bs" by (simp add: mem_file_def)
  from replay_exact [OF mem_io_contract_reads r this] show ?thesis
    using r b commit_demo_facts(2) by (simp add: bs_def)
qed

text \<open>A read that fails is reported as corruption, of a log without a fault: here the first read.\<close>

theorem read_error_taken_for_corruption:
  assumes "es \<noteq> []"
  shows "\<exists>c' w'. open_or_create (bad_io 0) z reply_init (commitlog_new p g) (mem_file [] p [O_RDWR] (records z es)) =
    (False, reply_init\<lparr>rp_corrupt := True\<rparr>, c', w')"
proof -
  have "\<not> 36 * int (length es) < 36" using assms by (cases es) simp_all
  then show ?thesis
    by (simp add: open_or_create_def commitlog_new_def mem_eval replay_loop.simps bad_pread_def)
qed

theorem read_error_taken_for_corruption_witness:
  "history_ok 0 0 commit_demo \<and>
   (\<exists>c' w'. open_or_create (bad_io 0) sum_ref reply_init (commitlog_new ''c'' (hd commit_demo)) (mem_file [] ''c'' [O_RDWR] (records sum_ref commit_demo)) =
    (False, reply_init\<lparr>rp_corrupt := True\<rparr>, c', w'))"
  using read_error_taken_for_corruption [of commit_demo sum_ref "''c''" "hd commit_demo"] commit_demo_facts
  by (simp add: commit_demo_def del: history_ok.simps)

text \<open>Property C18. A record is appended whole or not at all, for any answers of the file system:
  on success the file is the old one with the record at the old position, which moves by 36; on
  failure the object is unchanged, the bytes below the position are unchanged, and what an
  incomplete write leaves behind is shorter than a record.
\<close>

theorem commit_append_atomic:
  assumes "file_contract io fsv" "commitlog_append io z c w = (ok, c', w')"
    "at_file (fsv w) (cl_fd c) p fl bs" "0 \<le> cl_offset c" "cl_offset c \<le> int (length bs)"
    "length bs < nat (cl_offset c) + 36"
  shows "\<exists>bs'. fsv w' = file_put (fsv w) p bs' \<and>
    c' = (if ok then c\<lparr>cl_offset := cl_offset c + 36\<rparr> else c) \<and>
    cl_offset c' \<le> int (length bs') \<and> length bs' < nat (cl_offset c') + 36 \<and>
    take (nat (cl_offset c')) bs' = take (nat (cl_offset c)) bs @ (if ok then commit_record z (cl_log c) else [])"
  by (rule file_contract.commitlog_append_result [OF assms])

theorem commit_append_atomic_witness:
  "\<exists>bs'. mem_fs (snd (snd (commitlog_append mem_io sum_ref ((commitlog_new ''c'' (hd commit_demo))\<lparr>cl_fd := 3\<rparr>)
      (mem_file [Short 20, Fail (EOTHER 5)] ''c'' [O_RDWR] [])))) =
      file_put (mem_fs (mem_file [] ''c'' [O_RDWR] [])) ''c'' bs' \<and> length bs' < 36"
proof -
  let ?c = "(commitlog_new ''c'' (hd commit_demo))\<lparr>cl_fd := 3\<rparr>" and ?w = "mem_file [Short 20, Fail (EOTHER 5)] ''c'' [O_RDWR] []"
  obtain ok c' w' where r: "commitlog_append mem_io sum_ref ?c ?w = (ok, c', w')"
    by (metis prod_cases3)
  have k: "\<not> ok" using r by (simp add: commitlog_append_def commitlog_new_def mem_eval)
  have c0: "cl_fd ?c = 3" "cl_offset ?c = 0" by (simp_all add: commitlog_new_def)
  show ?thesis
    using commit_append_atomic [OF mem_io_contract r, of "''c''" "[O_RDWR]" "[]"] r k c0
    by (auto simp: mem_file_def at_file_def)
qed

text \<open>Property C19. The commit log survives faults. Create a log, try any sequence of appends with
  any of the calls failing or writing short at any point, then open the file again, on a file system whose
  reads are never short (but may fail). If the
  accepted entries are a history the replay accepts, the new object reports corruption only where a
  read of the replay failed,
  and if the open succeeds it has exactly the summary of the accepted entries and the position
  behind them. If they are not (\<open>append\<close> checks nothing), the log cannot be opened any more.
\<close>

theorem commit_log_survives_faults:
  assumes "file_contract_reads io fsv"
    and "open_or_create io z reply_init (commitlog_new path g) w = (True, out, c, w1)" "fs_files (fsv w) path = None"
    and "commit_run io z c es w1 = (accepted, c1, w2)"
    and "open_or_create io z reply_init (commitlog_new path g') w2 = (ok, out2, c2, w3)"
  shows "if history_ok 0 0 accepted
    then (rp_corrupt out2 \<longrightarrow> read_failed io c2 w3) \<and>
      (ok \<longrightarrow> out2 = reply_of reply_init accepted \<and> cl_offset c2 = 36 * int (length accepted))
    else \<not> ok"
proof -
  have n: "cl_path (commitlog_new path g) = path" "cl_offset (commitlog_new path g) = 0" for g
    by (simp_all add: commitlog_new_def)
  have f: "cl_offset c = 0" "at_file (fsv w1) (cl_fd c) path [O_RDWR, O_CREAT, O_EXCL] []"
    using file_contract_reads.open_fresh [OF assms(1,2)] assms(3) n by (auto dest: arg_cong [where f = cl_offset])
  obtain bs where b: "fsv w2 = file_put (fsv w1) path bs" "cl_offset c1 = 36 * int (length accepted)"
      "cl_offset c1 \<le> int (length bs)" "length bs < nat (cl_offset c1) + 36"
      "take (nat (cl_offset c1)) bs = records z accepted"
    using file_contract.commit_run_result [OF file_contract_reads.axioms(1) [OF assms(1)] assms(4) f(2)] f(1) by auto
  have bs: "bs = records z accepted @ drop (nat (cl_offset c1)) bs"
    using b(3,5) by (intro take_eq_append) simp_all
  have "length (drop (nat (cl_offset c1)) bs) < 36" using b(3,4) by simp
  from blocks_records [OF this, of z accepted]
  have blk: "blocks bs = map (commit_record z) accepted" using bs by (simp add: records_def)
  have bytes: "fs_files (fsv w2) (cl_path (commitlog_new path g')) = Some bs" using b(1) n by simp
  show ?thesis
    by (rule reopen_records [OF assms(1,5) bytes blk])
qed

text \<open>The witness: the first append writes 20 bytes and cannot cut them off again.\<close>

theorem commit_log_survives_faults_witness:
  "\<exists>c w1 c1 w2 ok out2 c2 w3.
     open_or_create mem_io sum_ref reply_init (commitlog_new ''c'' (hd commit_demo))
       (mem_init [Ok, Ok, Ok, Ok, Short 20, Fail (EOTHER 5)]) = (True, reply_init, c, w1) \<and>
     commit_run mem_io sum_ref c (butlast commit_demo) w1 = ([commit_demo ! 1], c1, w2) \<and>
     open_or_create mem_io sum_ref reply_init (commitlog_new ''c'' (hd commit_demo)) w2 = (ok, out2, c2, w3) \<and>
     (rp_corrupt out2 \<longrightarrow> read_failed mem_io c2 w3) \<and>
     (ok \<longrightarrow> out2 = reply_of reply_init [commit_demo ! 1] \<and> cl_offset c2 = 36)"
proof -
  let ?w = "mem_init [Ok, Ok, Ok, Ok, Short 20, Fail (EOTHER 5)]"
  obtain c w1 where o: "open_or_create mem_io sum_ref reply_init (commitlog_new ''c'' (hd commit_demo)) ?w = (True, reply_init, c, w1)"
    and c: "cl_fd c = 3" "cl_offset c = 0" "mem_script w1 = [Short 20, Fail (EOTHER 5)]"
      "fs_files (mem_fs w1) ''c'' = Some []" "fs_fds (mem_fs w1) 3 = Some (''c'', [O_RDWR, O_CREAT, O_EXCL])"
    by (simp add: open_or_create_def commitlog_new_def mem_eval replay_loop.simps)
  obtain acc c1 w2 where r: "commit_run mem_io sum_ref c (butlast commit_demo) w1 = (acc, c1, w2)"
    by (metis prod_cases3)
  have acc: "acc = [commit_demo ! 1]"
    using r c by (auto simp: commit_demo_def commitlog_append_def mem_eval)
  obtain ok out2 c2 w3 where o2: "open_or_create mem_io sum_ref reply_init (commitlog_new ''c'' (hd commit_demo)) w2 = (ok, out2, c2, w3)"
    by (metis prod_cases4)
  have "fs_files (mem_fs ?w) ''c'' = None" by (simp add: mem_init_def)
  from commit_log_survives_faults [OF mem_io_contract_reads o this r o2]
  have "(rp_corrupt out2 \<longrightarrow> read_failed mem_io c2 w3) \<and>
     (ok \<longrightarrow> out2 = reply_of reply_init [commit_demo ! 1] \<and> cl_offset c2 = 36)"
    by (simp add: acc commit_demo_def published_def split: if_splits)
  then show ?thesis using o r o2 acc by blast
qed

lemma records_take:
  "\<exists>r. take k (records z es) = records z (take (k div 36) es) @ r \<and> length r < 36"
proof (induction es arbitrary: k)
  case (Cons e es)
  show ?case
  proof (cases "k < 36")
    case True
    then show ?thesis by (intro exI [of _ "take k (records z (e # es))"]) simp
  next
    case False
    then have d: "k div 36 = Suc ((k - 36) div 36)" by (simp add: le_div_geq)
    obtain r where "take (k - 36) (records z es) = records z (take ((k - 36) div 36) es) @ r" "length r < 36"
      using Cons.IH by blast
    then show ?thesis using False by (intro exI [of _ r]) (simp add: d)
  qed
qed simp

lemma history_ok_take: "history_ok b st es \<Longrightarrow> history_ok b st (take n es)"
  by (induction es arbitrary: b st n) (auto simp: take_Cons split: nat.splits)

text \<open>Property C20. A crash that cuts the log at any byte loses only whole entries from its end, on
  a file system whose reads are never short (but may fail):
  the replay of a cut history reports corruption only where a read of it failed and, when it succeeds, summarises
  exactly the entries whose records are complete.
\<close>

theorem replay_after_crash:
  assumes "file_contract_reads io fsv" "history_ok 0 0 es"
    and "fs_files (fsv w) path = Some (take k (records z es))"
    and "open_or_create io z reply_init (commitlog_new path g) w = (ok, out, c', w')"
  shows "(rp_corrupt out \<longrightarrow> read_failed io c' w') \<and> (ok \<longrightarrow> out = reply_of reply_init (take (k div 36) es))"
proof -
  obtain r where r: "take k (records z es) = records z (take (k div 36) es) @ r" "length r < 36"
    using records_take by blast
  have "fs_files (fsv w) (cl_path (commitlog_new path g)) = Some (take k (records z es))"
    using assms(3) by (simp add: commitlog_new_def)
  moreover have "blocks (take k (records z es)) = map (commit_record z) (take (k div 36) es)"
    unfolding r(1) using blocks_records [OF r(2)] by (simp add: records_def)
  ultimately show ?thesis
    using reopen_records [OF assms(1,4)] history_ok_take [OF assms(2)] by metis
qed

theorem replay_after_crash_witness:
  "\<exists>c' w'. open_or_create mem_io sum_ref reply_init (commitlog_new ''c'' (hd commit_demo))
      (mem_file [] ''c'' [O_RDWR] (take 80 (records sum_ref commit_demo))) =
    (True, reply_of reply_init (take 2 commit_demo), c', w')"
proof -
  obtain r where r: "take 80 (records sum_ref commit_demo) = records sum_ref (take 2 commit_demo) @ r" "length r < 36"
    using records_take [of 80 sum_ref commit_demo] by auto
  obtain out c' w' where o: "open_or_create mem_io sum_ref reply_init (commitlog_new ''c'' (hd commit_demo))
      (mem_file [] ''c'' [O_RDWR] (take 80 (records sum_ref commit_demo))) = (True, out, c', w')"
    using mem_open_existing [OF r(2), of sum_ref "''c''" "hd commit_demo" "take 2 commit_demo"]
      history_ok_take [OF commit_demo_facts(1), of 2] by (auto simp: r(1))
  have "fs_files (mem_fs (mem_file [] ''c'' [O_RDWR] (take 80 (records sum_ref commit_demo)))) ''c'' =
      Some (take 80 (records sum_ref commit_demo))" by (simp add: mem_file_def)
  from replay_after_crash [OF mem_io_contract_reads commit_demo_facts(1) this o] show ?thesis
    using o by simp
qed

end
