(* ===== verification/ThreadPool.thy ===== *)
theory ThreadPool
  imports Prelude "HOL-Library.Multiset"
begin

text \<open>
  The thread pool of \<open>src/ThreadPool.cpp\<close> and \<open>include/ThreadPool.h\<close>. The state is the
  queue, the flag and, for each thread, where it stands in \<open>workerLoop\<close>; the mutex makes
  each critical section one step. A notification is a step of its own, after the lock is
  released. \<open>pool_step\<close> interleaves the workers, any number of submitting threads and the
  destructor.

  The lemmas: tasks start in the order of submission and each once, none starts after
  \<open>stopping\<close> was set, no notification is lost, and the destructor's \<open>join\<close> can always
  be reached.
\<close>

section \<open>State and operations\<close>

text \<open>A worker is about to take the lock and look at the predicate, asleep in \<open>cv.wait\<close>,
  inside a task, or has returned. The destructor has not begun, has set the flag, has
  notified, or has joined all threads.\<close>

datatype 'a worker = Check | Waiting | Running 'a | Exited

datatype dtor = Alive | Stopping | Notified | Joined

record 'a pool =
  tp_workers :: "'a worker list"
  tp_tasks :: "'a list"
  tp_stopping :: bool
  tp_notifying :: nat
  tp_dtor :: dtor

definition pool_new :: "nat \<Rightarrow> 'a pool" where
  "pool_new threads_count = \<lparr>tp_workers = replicate threads_count Check, tp_tasks = [],
     tp_stopping = False, tp_notifying = 0, tp_dtor = Alive\<rparr>"

text \<open>\<open>submit\<close>: the critical section, then the notification, which wakes one sleeping
  worker if there is one. \<open>tp_notifying\<close> counts the submitters in between.\<close>

definition submit_push :: "'a pool \<Rightarrow> 'a \<Rightarrow> 'a pool" where
  "submit_push p t = (if tp_stopping p then p
     else p\<lparr>tp_tasks := tp_tasks p @ [t], tp_notifying := tp_notifying p + 1\<rparr>)"

definition submit_notify :: "'a pool \<Rightarrow> nat \<Rightarrow> 'a pool" where
  "submit_notify p i = p\<lparr>tp_notifying := tp_notifying p - 1,
     tp_workers := (if i < length (tp_workers p) \<and> tp_workers p ! i = Waiting
                    then (tp_workers p)[i := Check] else tp_workers p)\<rparr>"

text \<open>The call as a whole, when no other thread gets in between: the first sleeping worker is
  woken.\<close>

definition first_waiting :: "'a pool \<Rightarrow> nat" where
  "first_waiting p = length (takeWhile (\<lambda>x. x \<noteq> Waiting) (tp_workers p))"

definition submit :: "'a pool \<Rightarrow> 'a \<Rightarrow> 'a pool" where
  "submit p t = (if tp_stopping p then p
     else let p = submit_push p t in submit_notify p (first_waiting p))"

text \<open>\<open>workerLoop\<close>: the critical section of one turn (wait, look at \<open>stopping\<close> first, take
  the front task), and the end of the task, by return or by exception.\<close>

definition worker_check :: "'a pool \<Rightarrow> nat \<Rightarrow> 'a pool" where
  "worker_check p i =
     (if tp_tasks p = [] \<and> \<not> tp_stopping p then p\<lparr>tp_workers := (tp_workers p)[i := Waiting]\<rparr>
      else if tp_stopping p then p\<lparr>tp_workers := (tp_workers p)[i := Exited]\<rparr>
      else p\<lparr>tp_workers := (tp_workers p)[i := Running (hd (tp_tasks p))], tp_tasks := tl (tp_tasks p)\<rparr>)"

definition worker_done :: "'a pool \<Rightarrow> nat \<Rightarrow> 'a pool" where
  "worker_done p i = p\<lparr>tp_workers := (tp_workers p)[i := Check]\<rparr>"

text \<open>The destructor: set the flag under the lock, notify all, join.\<close>

definition pool_stop :: "'a pool \<Rightarrow> 'a pool" where
  "pool_stop p = p\<lparr>tp_stopping := True, tp_dtor := Stopping\<rparr>"

definition pool_notify_all :: "'a pool \<Rightarrow> 'a pool" where
  "pool_notify_all p = p\<lparr>tp_workers := map (\<lambda>x. if x = Waiting then Check else x) (tp_workers p),
     tp_dtor := Notified\<rparr>"

definition pool_join :: "'a pool \<Rightarrow> 'a pool" where
  "pool_join p = p\<lparr>tp_dtor := Joined\<rparr>"

section \<open>Interleavings\<close>

datatype 'a label = Submitted 'a | Rejected 'a | Started 'a | Finished 'a | Quiet

inductive pool_step :: "'a pool \<Rightarrow> 'a label \<Rightarrow> 'a pool \<Rightarrow> bool" where
  push: "\<not> tp_stopping p \<Longrightarrow> pool_step p (Submitted t) (submit_push p t)"
| reject: "tp_stopping p \<Longrightarrow> pool_step p (Rejected t) (submit_push p t)"
| notify: "0 < tp_notifying p \<Longrightarrow> i < length (tp_workers p) \<Longrightarrow> tp_workers p ! i = Waiting \<Longrightarrow>
    pool_step p Quiet (submit_notify p i)"
| notify_nobody: "0 < tp_notifying p \<Longrightarrow> Waiting \<notin> set (tp_workers p) \<Longrightarrow>
    pool_step p Quiet (submit_notify p 0)"
| spurious: "i < length (tp_workers p) \<Longrightarrow> tp_workers p ! i = Waiting \<Longrightarrow>
    pool_step p Quiet (worker_done p i)"
| sleep: "i < length (tp_workers p) \<Longrightarrow> tp_workers p ! i = Check \<Longrightarrow> tp_tasks p = [] \<or> tp_stopping p \<Longrightarrow>
    pool_step p Quiet (worker_check p i)"
| start: "i < length (tp_workers p) \<Longrightarrow> tp_workers p ! i = Check \<Longrightarrow> tp_tasks p = t # ts \<Longrightarrow> \<not> tp_stopping p \<Longrightarrow>
    pool_step p (Started t) (worker_check p i)"
| finish: "i < length (tp_workers p) \<Longrightarrow> tp_workers p ! i = Running t \<Longrightarrow>
    pool_step p (Finished t) (worker_done p i)"
| stop: "tp_dtor p = Alive \<Longrightarrow> pool_step p Quiet (pool_stop p)"
| notify_all: "tp_dtor p = Stopping \<Longrightarrow> pool_step p Quiet (pool_notify_all p)"
| join: "tp_dtor p = Notified \<Longrightarrow> set (tp_workers p) \<subseteq> {Exited} \<Longrightarrow> pool_step p Quiet (pool_join p)"

inductive pool_run :: "'a pool \<Rightarrow> 'a label list \<Rightarrow> 'a pool \<Rightarrow> bool" where
  stay: "pool_run p [] p"
| more: "pool_run p tr q \<Longrightarrow> pool_step q l r \<Longrightarrow> pool_run p (tr @ [l]) r"

fun submitted :: "'a label list \<Rightarrow> 'a list" where
  "submitted [] = []"
| "submitted (Submitted t # ls) = t # submitted ls"
| "submitted (_ # ls) = submitted ls"

fun started :: "'a label list \<Rightarrow> 'a list" where
  "started [] = []"
| "started (Started t # ls) = t # started ls"
| "started (_ # ls) = started ls"

fun finished :: "'a label list \<Rightarrow> 'a list" where
  "finished [] = []"
| "finished (Finished t # ls) = t # finished ls"
| "finished (_ # ls) = finished ls"

lemma submitted_append [simp]: "submitted (xs @ ys) = submitted xs @ submitted ys"
  by (induction xs rule: submitted.induct) simp_all

lemma started_append [simp]: "started (xs @ ys) = started xs @ started ys"
  by (induction xs rule: started.induct) simp_all

lemma finished_append [simp]: "finished (xs @ ys) = finished xs @ finished ys"
  by (induction xs rule: finished.induct) simp_all

lemmas pool_ops = submit_push_def submit_notify_def worker_check_def worker_done_def pool_stop_def
  pool_notify_all_def pool_join_def

section \<open>Invariants\<close>

definition running :: "'a pool \<Rightarrow> 'a multiset" where
  "running p = mset (concat (map (\<lambda>x. case x of Running t \<Rightarrow> [t] | _ \<Rightarrow> []) (tp_workers p)))"

abbreviation task_of :: "'a worker \<Rightarrow> 'a list" where
  "task_of x \<equiv> (case x of Running t \<Rightarrow> [t] | _ \<Rightarrow> [])"

lemma running_update:
  assumes "i < length ws"
  shows "mset (concat (map task_of (ws[i := x]))) + mset (task_of (ws ! i)) =
    mset (concat (map task_of ws)) + mset (task_of x)"
  using assms
proof (induction ws arbitrary: i)
  case (Cons w ws)
  then show ?case by (cases i) (auto simp: add_ac)
qed simp

lemma running_wake: "concat (map task_of (map (\<lambda>x. if x = Waiting then Check else x) ws)) = concat (map task_of ws)"
  by (induction ws) (auto split: worker.splits)

definition n_checking :: "'a pool \<Rightarrow> nat" where
  "n_checking p = length (filter (\<lambda>x. x = Check) (tp_workers p))"

lemma filter_update_in:
  "i < length ws \<Longrightarrow> \<not> P (ws ! i) \<Longrightarrow> P x \<Longrightarrow> length (filter P (ws[i := x])) = Suc (length (filter P ws))"
  by (induction ws arbitrary: i) (auto split: nat.splits)

lemma filter_update_out:
  "i < length ws \<Longrightarrow> P (ws ! i) \<Longrightarrow> \<not> P x \<Longrightarrow> Suc (length (filter P (ws[i := x]))) = length (filter P ws)"
  by (induction ws arbitrary: i) (auto split: nat.splits)

text \<open>If a worker sleeps, every task in the queue has a worker or a notification on its way.\<close>

definition awake :: "'a pool \<Rightarrow> bool" where
  "awake p \<longleftrightarrow> (Waiting \<in> set (tp_workers p) \<longrightarrow> \<not> tp_stopping p \<longrightarrow>
     length (tp_tasks p) \<le> tp_notifying p + n_checking p)"

definition dtor_inv :: "'a pool \<Rightarrow> bool" where
  "dtor_inv p \<longleftrightarrow> (tp_stopping p \<longleftrightarrow> tp_dtor p \<noteq> Alive) \<and>
     (tp_dtor p = Notified \<or> tp_dtor p = Joined \<longrightarrow> Waiting \<notin> set (tp_workers p)) \<and>
     (tp_dtor p = Joined \<longrightarrow> set (tp_workers p) \<subseteq> {Exited})"

lemma no_waiting_nth: "Waiting \<notin> set ws \<Longrightarrow> i < length ws \<Longrightarrow> ws ! i \<noteq> Waiting"
  by (metis nth_mem)

lemma nobody_workers: "Waiting \<notin> set (tp_workers p) \<Longrightarrow> tp_workers (submit_notify p i) = tp_workers p"
  using no_waiting_nth [of "tp_workers p" i] by (auto simp: submit_notify_def)

lemma step_queue:
  assumes "pool_step p l q"
  shows "started [l] @ tp_tasks q = tp_tasks p @ submitted [l]"
  using assms by cases (auto simp: pool_ops)

lemma running_upd:
  assumes "i < length (tp_workers p)" "tp_workers p ! i = y" "tp_workers q = (tp_workers p)[i := x]"
  shows "running q + mset (task_of y) = running p + mset (task_of x)"
  using running_update [OF assms(1), of x] assms(2,3) by (simp add: running_def)

lemma step_running:
  assumes "pool_step p l q"
  shows "running q + mset (finished [l]) = running p + mset (started [l])"
  using assms
proof cases
  case (notify i)
  then show ?thesis using running_upd [of i p Waiting q Check] by (simp add: pool_ops)
next
  case (spurious i)
  then show ?thesis using running_upd [of i p Waiting q Check] by (simp add: pool_ops)
next
  case (sleep i)
  then show ?thesis
    using running_upd [of i p Check q Waiting] running_upd [of i p Check q Exited]
    by (auto simp: worker_check_def split: if_splits)
next
  case (start i t ts)
  then show ?thesis using running_upd [of i p Check q "Running t"] by (simp add: pool_ops)
next
  case (finish i t)
  then show ?thesis using running_upd [of i p "Running t" q Check] by (simp add: pool_ops)
next
  case notify_nobody
  then have "tp_workers q = tp_workers p"
    by (simp add: nobody_workers)
  then show ?thesis using notify_nobody by (simp add: running_def)
next
  case notify_all
  then show ?thesis by (simp add: pool_ops running_def running_wake del: map_map)
qed (simp_all add: pool_ops running_def)

lemma awake_step:
  assumes "pool_step p l q" "awake p"
  shows "awake q"
  using assms
proof cases
  case (notify i)
  then show ?thesis
    using assms(2) filter_update_in [of i "tp_workers p" "\<lambda>x. x = Check" Check] set_update_subset_insert [of "tp_workers p" i Check]
    by (auto simp: pool_ops awake_def n_checking_def)
next
  case (spurious i)
  then show ?thesis
    using assms(2) filter_update_in [of i "tp_workers p" "\<lambda>x. x = Check" Check] set_update_subset_insert [of "tp_workers p" i Check]
    by (auto simp: pool_ops awake_def n_checking_def)
next
  case (sleep i)
  then show ?thesis
    by (auto simp: worker_check_def awake_def)
next
  case (start i t ts)
  then show ?thesis
    using assms(2) filter_update_out [of i "tp_workers p" "\<lambda>x. x = Check" "Running t"] set_update_subset_insert [of "tp_workers p" i "Running t"]
    by (auto simp: pool_ops awake_def n_checking_def)
next
  case (finish i t)
  then show ?thesis
    using assms(2) filter_update_in [of i "tp_workers p" "\<lambda>x. x = Check" Check] set_update_subset_insert [of "tp_workers p" i Check]
    by (auto simp: pool_ops awake_def n_checking_def)
next
  case notify_nobody
  then have "tp_workers q = tp_workers p"
    by (simp add: nobody_workers)
  then show ?thesis using notify_nobody by (simp add: awake_def)
qed (use assms(2) in \<open>auto simp: pool_ops awake_def n_checking_def\<close>)

lemma dtor_inv_step:
  assumes "pool_step p l q" "dtor_inv p"
  shows "dtor_inv q"
  using assms
proof cases
  case (sleep i)
  then show ?thesis using assms(2) set_update_subset_insert [of "tp_workers p" i Exited]
     set_update_subset_insert [of "tp_workers p" i Waiting] nth_mem [of i "tp_workers p"]
    by (auto simp: worker_check_def dtor_inv_def)
next
  case (finish i t)
  then show ?thesis using assms(2) set_update_subset_insert [of "tp_workers p" i Check] nth_mem [of i "tp_workers p"]
    by (auto simp: pool_ops dtor_inv_def)
next
  case (notify i)
  then show ?thesis using assms(2) nth_mem [of i "tp_workers p"] set_update_subset_insert [of "tp_workers p" i Check]
    by (auto simp: pool_ops dtor_inv_def)
next
  case (spurious i)
  then show ?thesis using assms(2) nth_mem [of i "tp_workers p"] set_update_subset_insert [of "tp_workers p" i Check]
    by (auto simp: pool_ops dtor_inv_def)
next
  case (start i t ts)
  then show ?thesis using assms(2) by (auto simp: pool_ops dtor_inv_def)
next
  case notify_nobody
  then have "tp_workers q = tp_workers p"
    by (simp add: nobody_workers)
  then show ?thesis using notify_nobody assms(2) by (simp add: dtor_inv_def submit_notify_def)
qed (use assms(2) in \<open>auto simp: pool_ops dtor_inv_def\<close>)


lemma pool_run_inv:
  assumes "pool_run p tr q" "P p" "\<And>p l q. pool_step p l q \<Longrightarrow> P p \<Longrightarrow> P q"
  shows "P q"
  using assms by (induction rule: pool_run.induct) blast+

lemma run_queue:
  assumes "pool_run p tr q"
  shows "started tr @ tp_tasks q = tp_tasks p @ submitted tr"
  using assms
proof (induction rule: pool_run.induct)
  case (more p tr q l r)
  have "started (tr @ [l]) @ tp_tasks r = started tr @ (started [l] @ tp_tasks r)" by simp
  also have "\<dots> = tp_tasks p @ submitted (tr @ [l])"
    using more.IH step_queue [OF more.hyps(2)] by (metis append_assoc submitted_append)
  finally show ?case .
qed simp

lemma run_running:
  assumes "pool_run p tr q"
  shows "running q + mset (finished tr) = running p + mset (started tr)"
  using assms
proof (induction rule: pool_run.induct)
  case (more p tr q l r)
  show ?case
  proof (rule multiset_eqI)
    fix a
    show "count (running r + mset (finished (tr @ [l]))) a = count (running p + mset (started (tr @ [l]))) a"
      using arg_cong [OF more.IH, of "\<lambda>m. count m a"]
        arg_cong [OF step_running [OF more.hyps(2)], of "\<lambda>m. count m a"] by simp
  qed
qed simp

lemma running_new: "running (pool_new n) = {#}"
  by (induction n) (simp_all add: running_def pool_new_def)

lemma awake_new: "awake (pool_new n)"
  by (simp add: awake_def pool_new_def)

lemma dtor_inv_new: "dtor_inv (pool_new n)"
  by (simp add: dtor_inv_def pool_new_def)

lemma stopping_step: "pool_step p l q \<Longrightarrow> tp_stopping p \<Longrightarrow> tp_stopping q"
  by (erule pool_step.cases) (auto simp: pool_ops)

lemma stopping_started: "pool_step p l q \<Longrightarrow> tp_stopping p \<Longrightarrow> started [l] = [] \<and> submitted [l] = []"
  by (erule pool_step.cases) auto

section \<open>Shutdown\<close>

fun weight :: "'a worker \<Rightarrow> nat" where
  "weight Exited = 0" | "weight Check = 1" | "weight (Running t) = 2" | "weight Waiting = 2"

fun dtor_weight :: "dtor \<Rightarrow> nat" where
  "dtor_weight Joined = 0" | "dtor_weight Notified = 1" | "dtor_weight Stopping = 2" | "dtor_weight Alive = 3"

definition stop_measure :: "'a pool \<Rightarrow> nat" where
  "stop_measure p = sum_list (map weight (tp_workers p)) + tp_notifying p + dtor_weight (tp_dtor p)"

lemma weight_update:
  "i < length ws \<Longrightarrow> sum_list (map weight (ws[i := x])) + weight (ws ! i) = sum_list (map weight ws) + weight x"
  by (induction ws arbitrary: i) (auto split: nat.splits)

lemma weight_wake: "sum_list (map weight (map (\<lambda>x. if x = Waiting then Check else x) ws)) \<le> sum_list (map weight ws)"
  by (induction ws) auto

lemma stop_step:
  assumes "pool_step p l q" "tp_stopping p" "dtor_inv p"
  shows "(\<exists>t. l = Rejected t) \<and> q = p \<or> stop_measure q < stop_measure p"
  using assms(1)
proof cases
  case (notify i)
  then show ?thesis using weight_update [of i "tp_workers p" Check] by (simp add: pool_ops stop_measure_def)
next
  case notify_nobody
  then show ?thesis
    using nobody_workers [of p 0] by (simp add: stop_measure_def) (simp add: submit_notify_def)
next
  case (spurious i)
  then show ?thesis using weight_update [of i "tp_workers p" Check] by (simp add: pool_ops stop_measure_def)
next
  case (sleep i)
  then show ?thesis using weight_update [of i "tp_workers p" Exited] assms(2)
    by (simp add: worker_check_def stop_measure_def)
next
  case (finish i t)
  then show ?thesis using weight_update [of i "tp_workers p" Check] by (simp add: pool_ops stop_measure_def)
next
  case notify_all
  then show ?thesis
    using weight_wake [of "tp_workers p"] by (simp add: pool_notify_all_def stop_measure_def del: map_map)
next
  case join
  then show ?thesis by (simp add: pool_join_def stop_measure_def)
qed (use assms(2,3) in \<open>auto simp: pool_ops dtor_inv_def\<close>)

lemma stop_enabled:
  assumes "tp_stopping p" "dtor_inv p" "tp_dtor p \<noteq> Joined"
  shows "\<exists>l q. pool_step p l q \<and> (\<forall>t. l \<noteq> Rejected t)"
proof (cases "set (tp_workers p) \<subseteq> {Exited}")
  case True
  consider "tp_dtor p = Stopping" | "tp_dtor p = Notified"
    using assms by (cases "tp_dtor p") (auto simp: dtor_inv_def)
  then show ?thesis
    using True by cases (blast intro: pool_step.notify_all pool_step.join)+
next
  case False
  then obtain i where i: "i < length (tp_workers p)" "tp_workers p ! i \<noteq> Exited"
    by (metis in_set_conv_nth insertI1 subsetI)
  then show ?thesis
    using assms(1) pool_step.sleep [OF i(1)] pool_step.spurious [OF i(1)] pool_step.finish [OF i(1)]
    by (cases "tp_workers p ! i") blast+
qed

section \<open>Properties\<close>

text \<open>Property C21. Tasks start in the order in which \<open>submit\<close> accepted them and none is lost or
  started twice: in every interleaving, the accepted tasks are the started ones followed by the
  queue, and every started task has finished (returned or thrown) or is with one worker.
\<close>

theorem pool_fifo:
  assumes "pool_run (pool_new n) tr p"
  shows "submitted tr = started tr @ tp_tasks p \<and> mset (started tr) = mset (finished tr) + running p"
  using run_queue [OF assms] run_running [OF assms] by (simp add: running_new add.commute) (simp add: pool_new_def)

definition pool_demo :: "nat label list" where
  "pool_demo = [Submitted 7, Started 7, Submitted 8]"

lemma pool_demo_run:
  "pool_run (pool_new 2) pool_demo (submit_push (worker_check (submit_push (pool_new 2) 7) 1) 8)"
proof -
  have "pool_run (pool_new 2) ([] @ [Submitted (7 :: nat)]) (submit_push (pool_new 2) 7)"
    by (rule more [OF stay push]) (simp add: pool_new_def)
  then have "pool_run (pool_new 2) (([] @ [Submitted 7]) @ [Started (7 :: nat)]) (worker_check (submit_push (pool_new 2) 7) 1)"
    by (rule more [OF _ start]) (simp_all add: pool_new_def submit_push_def numeral_eq_Suc)
  then have "pool_run (pool_new 2) ((([] @ [Submitted 7]) @ [Started 7]) @ [Submitted (8 :: nat)])
      (submit_push (worker_check (submit_push (pool_new 2) 7) 1) 8)"
    by (rule more [OF _ push]) (simp add: pool_new_def pool_ops)
  then show ?thesis by (simp add: pool_demo_def)
qed

theorem pool_fifo_witness:
  "running (submit_push (worker_check (submit_push (pool_new 2) 7) 1) 8) = {#7 :: nat#}"
  using pool_fifo [OF pool_demo_run] by (simp add: pool_demo_def)

text \<open>Once the destructor has set \<open>stopping\<close>, no task starts and none is accepted
  any more: what is still in the queue is dropped.
\<close>

theorem pool_stop_drops:
  assumes "pool_run p tr q" "tp_stopping p"
  shows "tp_stopping q \<and> started tr = [] \<and> submitted tr = [] \<and> tp_tasks q = tp_tasks p"
proof -
  have "tp_stopping q \<and> started tr = [] \<and> submitted tr = []"
    using assms
  proof (induction rule: pool_run.induct)
    case (more p tr q l r)
    then show ?case using stopping_step [OF more.hyps(2)] stopping_started [OF more.hyps(2)] by simp
  qed simp
  then show ?thesis using run_queue [OF assms(1)] by simp
qed

theorem pool_stop_drops_witness:
  "tp_tasks (pool_notify_all (pool_stop (submit_push (pool_new 2) (7 :: nat)))) = [7]"
proof -
  let ?p = "pool_stop (submit_push (pool_new 2) (7 :: nat))"
  have "pool_run ?p ([] @ [Quiet]) (pool_notify_all ?p)"
    by (rule more [OF stay notify_all]) (simp add: pool_stop_def)
  moreover have "tp_stopping ?p" by (simp add: pool_stop_def)
  ultimately show ?thesis using pool_stop_drops [of ?p] by (auto simp: pool_ops pool_new_def)
qed

text \<open>Property C22. No wakeup is lost: in every interleaving before the stop, if a worker sleeps
  while tasks are queued, then for each of them a notification is on its way or a worker is
  about to look at the queue.
\<close>

theorem pool_no_lost_wakeup:
  assumes "pool_run (pool_new n) tr p" "\<not> tp_stopping p" "Waiting \<in> set (tp_workers p)"
  shows "length (tp_tasks p) \<le> tp_notifying p + length (filter (\<lambda>x. x = Check) (tp_workers p))"
  using pool_run_inv [of _ _ _ awake, OF assms(1) awake_new awake_step] assms(2,3)
  by (auto simp: awake_def n_checking_def)

theorem pool_no_lost_wakeup_witness:
  "\<exists>p :: nat pool. Waiting \<in> set (tp_workers p) \<and> tp_tasks p = [7] \<and>
     length (tp_tasks p) \<le> tp_notifying p + length (filter (\<lambda>x. x = Check) (tp_workers p))"
proof -
  let ?q = "worker_check (pool_new 1) 0" and ?p = "submit_push (worker_check (pool_new 1) 0) (7 :: nat)"
  have "pool_run (pool_new 1) ([] @ [Quiet]) ?q"
    by (rule more [OF stay sleep]) (simp_all add: pool_new_def)
  then have r: "pool_run (pool_new 1) (([] @ [Quiet]) @ [Submitted 7]) ?p"
    by (rule more [OF _ push]) (simp add: pool_new_def pool_ops)
  have f: "Waiting \<in> set (tp_workers ?p)" "tp_tasks ?p = [7]" "\<not> tp_stopping ?p"
    by (simp_all add: pool_new_def pool_ops)
  show ?thesis using pool_no_lost_wakeup [OF r f(3,1)] f by blast
qed

text \<open>Property C23. The destructor returns. In every interleaving after the stop, each step (other
  than a refused \<open>submit\<close>, which changes nothing) brings the shutdown closer by a measure in
  the natural numbers, and until the join is done some such step is possible, provided the
  running tasks return.
\<close>

theorem pool_shutdown_terminates:
  assumes "pool_run (pool_new n) tr p" "tp_stopping p"
  shows "(\<forall>l q. pool_step p l q \<longrightarrow> (\<exists>t. l = Rejected t) \<and> q = p \<or> stop_measure q < stop_measure p) \<and>
    (tp_dtor p \<noteq> Joined \<longrightarrow> (\<exists>l q. pool_step p l q \<and> (\<forall>t. l \<noteq> Rejected t)))"
proof -
  have "dtor_inv p"
    using pool_run_inv [of _ _ _ dtor_inv, OF assms(1) dtor_inv_new dtor_inv_step] .
  then show ?thesis using stop_step [OF _ assms(2)] stop_enabled [OF assms(2)] by blast
qed

theorem pool_shutdown_terminates_witness:
  "\<exists>l q. pool_step (pool_stop (pool_new 2 :: nat pool)) l q \<and> (\<forall>t. l \<noteq> Rejected t)"
proof -
  have "pool_run (pool_new 2) ([] @ [Quiet]) (pool_stop (pool_new 2 :: nat pool))"
    by (rule more [OF stay stop]) (simp add: pool_new_def)
  moreover have "tp_stopping (pool_stop (pool_new 2 :: nat pool))" "tp_dtor (pool_stop (pool_new 2 :: nat pool)) \<noteq> Joined"
    by (simp_all add: pool_stop_def)
  ultimately show ?thesis using pool_shutdown_terminates by blast
qed

end
