(* ===== verification/Net_io.thy ===== *)
theory Net_io
  imports Prelude
begin

text \<open>
  The system calls of the network code (sockets, epoll, eventfd). They are not code of the
  repository, so they are a parameter: a record \<open>net_os\<close> of functions on a type \<open>'w\<close> of
  worlds. \<open>net_contract\<close> is what POSIX and the Linux manual pages say of them, over an
  abstract state \<open>net_view\<close>: which descriptors are open and for each one the bytes handed
  to \<open>send\<close>, the bytes \<open>recv\<close> returned, the events it is registered for and the counter of an
  eventfd. A network
  in memory with scripted answers interprets the contract and serves the witnesses.
\<close>

section \<open>The calls\<close>

definition EPOLLIN :: u32 where "EPOLLIN = 0x001"
definition EPOLLOUT :: u32 where "EPOLLOUT = 0x004"
definition EPOLLERR :: u32 where "EPOLLERR = 0x008"
definition EPOLLHUP :: u32 where "EPOLLHUP = 0x010"
definition EPOLLRDHUP :: u32 where "EPOLLRDHUP = 0x2000"

lemmas epoll_flags = EPOLLIN_def EPOLLOUT_def EPOLLERR_def EPOLLHUP_def EPOLLRDHUP_def

datatype ctl_op = CTL_ADD | CTL_MOD | CTL_DEL

text \<open>\<open>net_write\<close> and \<open>net_read\<close> are the calls on an eventfd, with the 8 bytes as a number.
  \<open>net_nonblocking\<close> gives the results of the two \<open>fcntl\<close> calls, \<open>F_GETFL\<close> and \<open>F_SETFL\<close>.\<close>

record 'w net_os =
  net_recv :: "int \<Rightarrow> nat \<Rightarrow> 'w \<Rightarrow> int \<times> bytes \<times> 'w"
  net_send :: "int \<Rightarrow> bytes \<Rightarrow> 'w \<Rightarrow> int \<times> 'w"
  net_ctl :: "int \<Rightarrow> ctl_op \<Rightarrow> int \<Rightarrow> u32 \<Rightarrow> 'w \<Rightarrow> int \<times> 'w"
  net_write :: "int \<Rightarrow> nat \<Rightarrow> 'w \<Rightarrow> int \<times> 'w"
  net_read :: "int \<Rightarrow> 'w \<Rightarrow> int \<times> nat \<times> 'w"
  net_eventfd :: "'w \<Rightarrow> int \<times> 'w"
  net_close :: "int \<Rightarrow> 'w \<Rightarrow> int \<times> 'w"
  net_accept :: "int \<Rightarrow> 'w \<Rightarrow> int \<times> 'w"
  net_devnull :: "'w \<Rightarrow> int \<times> 'w"
  net_getfl :: "int \<Rightarrow> 'w \<Rightarrow> int \<times> 'w"
  net_setfl :: "int \<Rightarrow> 'w \<Rightarrow> int \<times> 'w"
  net_setsockopt :: "int \<Rightarrow> 'w \<Rightarrow> int \<times> 'w"
  net_socket :: "'w \<Rightarrow> int \<times> 'w"
  net_bind :: "int \<Rightarrow> nat \<Rightarrow> 'w \<Rightarrow> int \<times> 'w"
  net_listen :: "int \<Rightarrow> nat \<Rightarrow> 'w \<Rightarrow> int \<times> 'w"
  net_epoll_create :: "'w \<Rightarrow> int \<times> 'w"
  net_errno :: "'w \<Rightarrow> errno"

section \<open>What is documented of them\<close>

record net_view =
  nv_sent :: "int \<Rightarrow> bytes"
  nv_rcvd :: "int \<Rightarrow> bytes"
  nv_events :: "int \<Rightarrow> u32 option"
  nv_count :: "int \<Rightarrow> nat"
  nv_open :: "int set"

definition recv_ok :: "net_view \<Rightarrow> int \<Rightarrow> nat \<Rightarrow> int \<Rightarrow> bytes \<Rightarrow> net_view \<Rightarrow> bool" where
  "recv_ok v fd k n data v' \<longleftrightarrow>
     ((n = -1 \<or> n = 0) \<and> data = [] \<and> v' = v) \<or>
     (0 < n \<and> n = int (length data) \<and> length data \<le> k \<and>
      v' = v\<lparr>nv_rcvd := (nv_rcvd v)(fd := nv_rcvd v fd @ data)\<rparr>)"

definition send_ok :: "net_view \<Rightarrow> int \<Rightarrow> bytes \<Rightarrow> int \<Rightarrow> net_view \<Rightarrow> bool" where
  "send_ok v fd data n v' \<longleftrightarrow>
     (n = -1 \<and> v' = v) \<or>
     (0 < n \<and> n \<le> int (length data) \<and>
      v' = v\<lparr>nv_sent := (nv_sent v)(fd := nv_sent v fd @ take (nat n) data)\<rparr>)"

definition ctl_ok :: "net_view \<Rightarrow> ctl_op \<Rightarrow> int \<Rightarrow> u32 \<Rightarrow> int \<Rightarrow> net_view \<Rightarrow> bool" where
  "ctl_ok v c fd events n v' \<longleftrightarrow>
     (n = -1 \<and> v' = v) \<or>
     (n = 0 \<and> v' = v\<lparr>nv_events := (nv_events v)(fd := (if c = CTL_DEL then None else Some events))\<rparr>)"

text \<open>An eventfd: a write adds, a read returns the sum and resets it.\<close>

definition write_ok :: "net_view \<Rightarrow> int \<Rightarrow> nat \<Rightarrow> int \<Rightarrow> net_view \<Rightarrow> errno \<Rightarrow> bool" where
  "write_ok v fd k n v' e \<longleftrightarrow>
     (n = -1 \<and> v' = v \<and> (e = EAGAIN \<longrightarrow> 0 < nv_count v fd)) \<or>
     (n = 8 \<and> v' = v\<lparr>nv_count := (nv_count v)(fd := nv_count v fd + k)\<rparr>)"

definition read_ok :: "net_view \<Rightarrow> int \<Rightarrow> int \<Rightarrow> nat \<Rightarrow> net_view \<Rightarrow> bool" where
  "read_ok v fd n k v' \<longleftrightarrow>
     (n = -1 \<and> v' = v) \<or> (n = 8 \<and> k = nv_count v fd \<and> v' = v\<lparr>nv_count := (nv_count v)(fd := 0)\<rparr>)"

text \<open>A new descriptor is one that was not open, with empty streams.\<close>

definition fresh_ok :: "net_view \<Rightarrow> int \<Rightarrow> net_view \<Rightarrow> bool" where
  "fresh_ok v fd v' \<longleftrightarrow>
     (fd < 0 \<and> v' = v) \<or>
     (0 \<le> fd \<and> fd \<notin> nv_open v \<and>
      v' = v\<lparr>nv_open := insert fd (nv_open v), nv_sent := (nv_sent v)(fd := []),
             nv_rcvd := (nv_rcvd v)(fd := []), nv_events := (nv_events v)(fd := None),
             nv_count := (nv_count v)(fd := 0)\<rparr>)"

definition close_fd_ok :: "net_view \<Rightarrow> int \<Rightarrow> net_view \<Rightarrow> bool" where
  "close_fd_ok v fd v' \<longleftrightarrow>
     v' = v\<lparr>nv_open := nv_open v - {fd}, nv_events := (nv_events v)(fd := None)\<rparr>"

text \<open>A send of no bytes is not made by the code; with at least one byte, a successful
  \<open>send\<close> on a stream socket takes at least one.\<close>

locale net_contract =
  fixes net :: "'w net_os"
    and nv :: "'w \<Rightarrow> net_view"
  assumes recv_law: "net_recv net fd k w = (n, data, w') \<Longrightarrow> recv_ok (nv w) fd k n data (nv w')"
    and send_law: "data \<noteq> [] \<Longrightarrow> net_send net fd data w = (n, w') \<Longrightarrow> send_ok (nv w) fd data n (nv w')"
    and ctl_law: "net_ctl net ep c fd events w = (n, w') \<Longrightarrow> ctl_ok (nv w) c fd events n (nv w')"
    and write_law: "net_write net fd k w = (n, w') \<Longrightarrow> write_ok (nv w) fd k n (nv w') (net_errno net w')"
    and read_law: "net_read net fd w = (n, k, w') \<Longrightarrow> read_ok (nv w) fd n k (nv w')"
    and close_law: "net_close net fd w = (n, w') \<Longrightarrow> close_fd_ok (nv w) fd (nv w')"
    and accept_law: "net_accept net fd w = (n, w') \<Longrightarrow> fresh_ok (nv w) n (nv w')"
    and devnull_law: "net_devnull net w = (n, w') \<Longrightarrow> fresh_ok (nv w) n (nv w')"
    and eventfd_law: "net_eventfd net w = (n, w') \<Longrightarrow> fresh_ok (nv w) n (nv w')"
    and socket_law: "net_socket net w = (n, w') \<Longrightarrow> fresh_ok (nv w) n (nv w')"
    and epoll_create_law: "net_epoll_create net w = (n, w') \<Longrightarrow> fresh_ok (nv w) n (nv w')"
    and getfl_law: "net_getfl net fd w = (n, w') \<Longrightarrow> nv w' = nv w"
    and setfl_law: "net_setfl net fd w = (n, w') \<Longrightarrow> nv w' = nv w"
    and setsockopt_law: "net_setsockopt net fd w = (n, w') \<Longrightarrow> nv w' = nv w"
    and bind_law: "net_bind net fd port w = (n, w') \<Longrightarrow> nv w' = nv w"
    and listen_law: "net_listen net fd k w = (n, w') \<Longrightarrow> nv w' = nv w"
begin

lemma ctl_streams:
  "net_ctl net ep c fd events w = (n, w') \<Longrightarrow>
   nv_sent (nv w') = nv_sent (nv w) \<and> nv_rcvd (nv w') = nv_rcvd (nv w) \<and> nv_count (nv w') = nv_count (nv w) \<and>
   nv_open (nv w') = nv_open (nv w)"
  by (auto dest!: ctl_law simp: ctl_ok_def)

lemma recv_sent: "net_recv net fd k w = (n, data, w') \<Longrightarrow> nv_sent (nv w') = nv_sent (nv w)"
  by (auto dest!: recv_law simp: recv_ok_def)

lemma send_rcvd: "data \<noteq> [] \<Longrightarrow> net_send net fd data w = (n, w') \<Longrightarrow> nv_rcvd (nv w') = nv_rcvd (nv w)"
  by (auto dest!: send_law simp: send_ok_def)

end

text \<open>The loops over \<open>recv\<close> and the retry after \<open>EINTR\<close> end when the peer's data and the
  interruptions are finite: some budget of the kernel shrinks with each.\<close>

locale net_contract_finite = net_contract +
  fixes budget :: "'w \<Rightarrow> nat"
  assumes recv_budget: "net_recv net fd k w = (n, data, w') \<Longrightarrow> 0 < n \<Longrightarrow> budget w' < budget w"
    and send_budget: "net_send net fd data w = (-1, w') \<Longrightarrow> net_errno net w' = EINTR \<Longrightarrow> budget w' < budget w"

text \<open>The loop of \<open>onaccept\<close> ends when the connections waiting to be accepted are finite in
  number: each one accepted lowers the budget, and no call made in between raises it.\<close>

locale net_contract_accept = net_contract_finite +
  assumes accept_budget: "net_accept net fd w = (n, w') \<Longrightarrow> 0 \<le> n \<Longrightarrow> budget w' < budget w"
    and setsockopt_budget: "net_setsockopt net fd w = (n, w') \<Longrightarrow> budget w' \<le> budget w"
    and getfl_budget: "net_getfl net fd w = (n, w') \<Longrightarrow> budget w' \<le> budget w"
    and setfl_budget: "net_setfl net fd w = (n, w') \<Longrightarrow> budget w' \<le> budget w"
    and ctl_budget: "net_ctl net ep c fd events w = (n, w') \<Longrightarrow> budget w' \<le> budget w"

section \<open>A network in memory\<close>

text \<open>The answers of the next calls of \<open>recv\<close> and \<open>send\<close> on any descriptor; without an
  answer left, \<open>recv\<close> fails with \<open>EAGAIN\<close> and \<open>send\<close> takes everything.\<close>

datatype recv_answer = RData bytes | REof | RErr errno

datatype send_answer = SAll | SPart nat | SErr errno

datatype accept_answer = AConn | AErr errno

record mnet =
  mn_view :: net_view
  mn_recv :: "recv_answer list"
  mn_send :: "send_answer list"
  mn_accept :: "accept_answer list"
  mn_errno :: errno
  mn_next :: int
  mn_clock :: int

definition mn_init :: "recv_answer list \<Rightarrow> send_answer list \<Rightarrow> accept_answer list \<Rightarrow> mnet" where
  "mn_init rs ss as = \<lparr>mn_view = \<lparr>nv_sent = (\<lambda>_. []), nv_rcvd = (\<lambda>_. []), nv_events = Map.empty,
       nv_count = (\<lambda>_. 0), nv_open = {}\<rparr>,
     mn_recv = rs, mn_send = ss, mn_accept = as, mn_errno = EAGAIN, mn_next = 10, mn_clock = 0\<rparr>"

definition mnet_recv :: "int \<Rightarrow> nat \<Rightarrow> mnet \<Rightarrow> int \<times> bytes \<times> mnet" where
  "mnet_recv fd k w = (case mn_recv w of
     [] \<Rightarrow> (-1, [], w\<lparr>mn_errno := EAGAIN\<rparr>)
   | RErr e # rs \<Rightarrow> (-1, [], w\<lparr>mn_recv := rs, mn_errno := e\<rparr>)
   | REof # rs \<Rightarrow> (0, [], w\<lparr>mn_recv := rs\<rparr>)
   | RData d # rs \<Rightarrow> let d = take k d in
       (int (length d), d, w\<lparr>mn_recv := rs,
          mn_view := (if d = [] then mn_view w
                      else (mn_view w)\<lparr>nv_rcvd := (nv_rcvd (mn_view w))(fd := nv_rcvd (mn_view w) fd @ d)\<rparr>)\<rparr>))"

definition mnet_send :: "int \<Rightarrow> bytes \<Rightarrow> mnet \<Rightarrow> int \<times> mnet" where
  "mnet_send fd data w = (case mn_send w of
     SErr e # ss \<Rightarrow> (-1, w\<lparr>mn_send := ss, mn_errno := e\<rparr>)
   | as \<Rightarrow> let n = (case as of SPart k # _ \<Rightarrow> max 1 (min k (length data)) | _ \<Rightarrow> length data) in
       (int n, w\<lparr>mn_send := tl as,
          mn_view := (mn_view w)\<lparr>nv_sent := (nv_sent (mn_view w))(fd := nv_sent (mn_view w) fd @ take n data)\<rparr>\<rparr>))"

definition mnet_ctl :: "int \<Rightarrow> ctl_op \<Rightarrow> int \<Rightarrow> u32 \<Rightarrow> mnet \<Rightarrow> int \<times> mnet" where
  "mnet_ctl ep c fd events w = (0, w\<lparr>mn_view := (mn_view w)\<lparr>nv_events :=
     (nv_events (mn_view w))(fd := (if c = CTL_DEL then None else Some events))\<rparr>\<rparr>)"

definition mnet_write :: "int \<Rightarrow> nat \<Rightarrow> mnet \<Rightarrow> int \<times> mnet" where
  "mnet_write fd k w = (8, w\<lparr>mn_view := (mn_view w)\<lparr>nv_count := (nv_count (mn_view w))(fd := nv_count (mn_view w) fd + k)\<rparr>\<rparr>)"

definition mnet_read :: "int \<Rightarrow> mnet \<Rightarrow> int \<times> nat \<times> mnet" where
  "mnet_read fd w = (if nv_count (mn_view w) fd = 0 then (-1, 0, w\<lparr>mn_errno := EAGAIN\<rparr>)
     else (8, nv_count (mn_view w) fd, w\<lparr>mn_view := (mn_view w)\<lparr>nv_count := (nv_count (mn_view w))(fd := 0)\<rparr>\<rparr>))"

definition mnet_fresh :: "mnet \<Rightarrow> int \<times> mnet" where
  "mnet_fresh w = (let fd = mn_next w; v = mn_view w in
     if fd < 0 \<or> fd \<in> nv_open v then (-1, w\<lparr>mn_errno := EMFILE\<rparr>)
     else (fd, w\<lparr>mn_next := fd + 1, mn_view := v\<lparr>nv_open := insert fd (nv_open v), nv_sent := (nv_sent v)(fd := []),
             nv_rcvd := (nv_rcvd v)(fd := []), nv_events := (nv_events v)(fd := None),
             nv_count := (nv_count v)(fd := 0)\<rparr>\<rparr>))"

definition mnet_accept :: "int \<Rightarrow> mnet \<Rightarrow> int \<times> mnet" where
  "mnet_accept fd w = (case mn_accept w of
     [] \<Rightarrow> (-1, w\<lparr>mn_errno := EAGAIN\<rparr>)
   | AErr e # as \<Rightarrow> (-1, w\<lparr>mn_accept := as, mn_errno := e\<rparr>)
   | AConn # as \<Rightarrow> mnet_fresh (w\<lparr>mn_accept := as\<rparr>))"

definition mnet_close :: "int \<Rightarrow> mnet \<Rightarrow> int \<times> mnet" where
  "mnet_close fd w = (0, w\<lparr>mn_view := (mn_view w)\<lparr>nv_open := nv_open (mn_view w) - {fd},
     nv_events := (nv_events (mn_view w))(fd := None)\<rparr>\<rparr>)"

definition mnet_os :: "mnet net_os" where
  "mnet_os = \<lparr>net_recv = mnet_recv, net_send = mnet_send, net_ctl = mnet_ctl, net_write = mnet_write,
     net_read = mnet_read, net_eventfd = mnet_fresh, net_close = mnet_close,
     net_accept = mnet_accept, net_devnull = mnet_fresh,
     net_getfl = (\<lambda>fd w. (0, w)), net_setfl = (\<lambda>fd w. (0, w)), net_setsockopt = (\<lambda>fd w. (0, w)),
     net_socket = mnet_fresh, net_bind = (\<lambda>fd port w. (0, w)), net_listen = (\<lambda>fd k w. (0, w)),
     net_epoll_create = mnet_fresh, net_errno = mn_errno\<rparr>"

lemma mnet_fresh_ok: "mnet_fresh w = (n, w') \<Longrightarrow> fresh_ok (mn_view w) n (mn_view w')"
  by (auto simp: mnet_fresh_def fresh_ok_def Let_def split: if_splits)

lemma mnet_accept_ok: "mnet_accept fd w = (n, w') \<Longrightarrow> fresh_ok (mn_view w) n (mn_view w')"
  by (auto simp: mnet_accept_def fresh_ok_def dest!: mnet_fresh_ok split: list.splits accept_answer.splits)

lemma mnet_recv_ok: "mnet_recv fd k w = (n, data, w') \<Longrightarrow> recv_ok (mn_view w) fd k n data (mn_view w')"
  by (auto simp: mnet_recv_def recv_ok_def Let_def min_def split: list.splits recv_answer.splits if_splits)

lemma mnet_send_ok: "data \<noteq> [] \<Longrightarrow> mnet_send fd data w = (n, w') \<Longrightarrow> send_ok (mn_view w) fd data n (mn_view w')"
  by (cases data) (auto simp: mnet_send_def send_ok_def Let_def max_def min_def split: list.splits send_answer.splits if_splits)

interpretation mnet: net_contract mnet_os mn_view
  by unfold_locales
    (auto simp: mnet_os_def mnet_recv_ok mnet_send_ok ctl_ok_def mnet_ctl_def write_ok_def mnet_write_def
      read_ok_def mnet_read_def mnet_fresh_ok mnet_accept_ok close_fd_ok_def mnet_close_def split: if_splits)

lemma mnet_os_sel [simp]:
  "net_recv mnet_os = mnet_recv" "net_send mnet_os = mnet_send" "net_ctl mnet_os = mnet_ctl"
  "net_write mnet_os = mnet_write" "net_read mnet_os = mnet_read" "net_eventfd mnet_os = mnet_fresh"
  "net_errno mnet_os = mn_errno" "net_close mnet_os = mnet_close" "net_accept mnet_os = mnet_accept"
  "net_devnull mnet_os = mnet_fresh" "net_getfl mnet_os = (\<lambda>fd w. (0, w))" "net_setfl mnet_os = (\<lambda>fd w. (0, w))"
  "net_setsockopt mnet_os = (\<lambda>fd w. (0, w))" "net_socket mnet_os = mnet_fresh"
  "net_bind mnet_os = (\<lambda>fd port w. (0, w))" "net_listen mnet_os = (\<lambda>fd k w. (0, w))"
  "net_epoll_create mnet_os = mnet_fresh"
  by (simp_all add: mnet_os_def)

lemma mnet_contract: "net_contract mnet_os mn_view"
  by (rule mnet.net_contract_axioms)

definition mnet_budget :: "mnet \<Rightarrow> nat" where
  "mnet_budget w = length (mn_recv w) + length (mn_send w) + length (mn_accept w)"

interpretation mnet: net_contract_finite mnet_os mn_view mnet_budget
  by unfold_locales
    (auto simp: mnet_recv_def mnet_send_def mnet_budget_def Let_def
      split: list.splits recv_answer.splits send_answer.splits if_splits)

lemma mnet_contract_finite: "net_contract_finite mnet_os mn_view mnet_budget"
  by (rule mnet.net_contract_finite_axioms)

interpretation mnet: net_contract_accept mnet_os mn_view mnet_budget
  by unfold_locales
    (auto simp: mnet_accept_def mnet_fresh_def mnet_ctl_def mnet_budget_def Let_def
      split: list.splits accept_answer.splits if_splits)

lemma mnet_contract_accept: "net_contract_accept mnet_os mn_view mnet_budget"
  by (rule mnet.net_contract_accept_axioms)

lemmas mnet_eval = mnet_recv_def mnet_send_def mnet_ctl_def mnet_write_def mnet_read_def mnet_fresh_def
  mnet_accept_def mnet_close_def mn_init_def Let_def

end
