(* ===== verification/Donequeue.thy ===== *)
theory Donequeue
  imports Net_io
begin

text \<open>
  The queue of finished requests of \<open>src/Donequeue.cpp\<close> and \<open>include/Donequeue.h\<close>: worker
  threads push responses and write to an eventfd, the event loop reads the eventfd and drains
  the queue. \<open>dq_step\<close> interleaves pushing threads, each between its critical section and
  its write, with the consumer, between its read and its drain; the lemmas show that responses
  arrive once and in the order of the pushes and that the wake-up protocol loses none.
\<close>

section \<open>The class\<close>

record done_item =
  di_fd :: int
  di_id :: u64
  di_resp :: bytes

record donequeue =
  dq_queue :: "done_item list"
  dq_wake_fd :: int

definition dq_new :: "'w net_os \<Rightarrow> 'w \<Rightarrow> donequeue \<times> 'w" where
  "dq_new net w = (case net_eventfd net w of (wake_fd, w1) \<Rightarrow> (\<lparr>dq_queue = [], dq_wake_fd = wake_fd\<rparr>, w1))"

definition dq_destroy :: "'w net_os \<Rightarrow> donequeue \<Rightarrow> 'w \<Rightarrow> 'w" where
  "dq_destroy net q w = (if dq_wake_fd q > 0 then snd (net_close net (dq_wake_fd q) w) else w)"

text \<open>The critical section of \<open>push\<close>, and the whole of it: the result of the write is not used.\<close>

definition dq_put :: "donequeue \<Rightarrow> done_item \<Rightarrow> donequeue" where
  "dq_put q item = q\<lparr>dq_queue := dq_queue q @ [item]\<rparr>"

definition dq_push :: "'w net_os \<Rightarrow> donequeue \<Rightarrow> int \<Rightarrow> u64 \<Rightarrow> bytes \<Rightarrow> 'w \<Rightarrow> donequeue \<times> 'w" where
  "dq_push net q fd cid resp w =
     (let q = dq_put q \<lparr>di_fd = fd, di_id = cid, di_resp = resp\<rparr>
      in (q, snd (net_write net (dq_wake_fd q) 1 w)))"

text \<open>The queue that was moved from is empty.\<close>

definition dq_drain :: "donequeue \<Rightarrow> done_item list \<times> donequeue" where
  "dq_drain q = (dq_queue q, q\<lparr>dq_queue := []\<rparr>)"

definition dq_fd :: "donequeue \<Rightarrow> int" where
  "dq_fd q = dq_wake_fd q"

lemmas dq_defs = dq_put_def dq_drain_def dq_fd_def

section \<open>The wake-up protocol\<close>

text \<open>The shared state: the queue, the eventfd's counter, how many pushers have stored their
  item and not yet written, whether the consumer is between its read and its drain, and what it
  has received so far.\<close>

record dq_sys =
  ds_queue :: donequeue
  ds_count :: nat
  ds_pushing :: nat
  ds_reading :: bool
  ds_pushed :: "done_item list"
  ds_received :: "done_item list"

definition ds_init :: "int \<Rightarrow> dq_sys" where
  "ds_init fd = \<lparr>ds_queue = \<lparr>dq_queue = [], dq_wake_fd = fd\<rparr>, ds_count = 0, ds_pushing = 0,
     ds_reading = False, ds_pushed = [], ds_received = []\<rparr>"

inductive dq_step :: "dq_sys \<Rightarrow> dq_sys \<Rightarrow> bool" where
  put: "dq_step s (s\<lparr>ds_queue := dq_put (ds_queue s) item, ds_pushing := ds_pushing s + 1,
     ds_pushed := ds_pushed s @ [item]\<rparr>)"
| wake: "0 < ds_pushing s \<Longrightarrow> dq_step s (s\<lparr>ds_count := ds_count s + 1, ds_pushing := ds_pushing s - 1\<rparr>)"
| wake_full: "0 < ds_pushing s \<Longrightarrow> 0 < ds_count s \<Longrightarrow> dq_step s (s\<lparr>ds_pushing := ds_pushing s - 1\<rparr>)"
| read: "0 < ds_count s \<Longrightarrow> \<not> ds_reading s \<Longrightarrow> dq_step s (s\<lparr>ds_count := 0, ds_reading := True\<rparr>)"
| drain: "ds_reading s \<Longrightarrow> dq_drain (ds_queue s) = (items, q) \<Longrightarrow>
     dq_step s (s\<lparr>ds_queue := q, ds_reading := False, ds_received := ds_received s @ items\<rparr>)"

inductive dq_reach :: "dq_sys \<Rightarrow> dq_sys \<Rightarrow> bool" for s0 where
  start: "dq_reach s0 s0"
| step: "dq_reach s0 s \<Longrightarrow> dq_step s t \<Longrightarrow> dq_reach s0 t"

inductive_cases dq_stepE: "dq_step s t"

definition dq_inv :: "dq_sys \<Rightarrow> bool" where
  "dq_inv s \<longleftrightarrow> ds_pushed s = ds_received s @ dq_queue (ds_queue s) \<and>
     (dq_queue (ds_queue s) \<noteq> [] \<longrightarrow> 0 < ds_count s \<or> 0 < ds_pushing s \<or> ds_reading s)"

lemma dq_inv_step: "dq_step s t \<Longrightarrow> dq_inv s \<Longrightarrow> dq_inv t"
  by (erule dq_stepE) (auto simp: dq_inv_def dq_defs)

lemma dq_inv_reach: "dq_reach (ds_init fd) s \<Longrightarrow> dq_inv s"
  by (induction rule: dq_reach.induct) (auto simp: dq_inv_step, simp add: dq_inv_def ds_init_def)

section \<open>Properties\<close>

text \<open>Property C24. The hand-over of responses loses nothing: in every interleaving of pushing
  threads and the event loop, what was pushed is what the loop received followed by the queue,
  in order; and while the queue holds a response, the eventfd is readable, or a pusher is about
  to write to it, or the loop is about to drain.
\<close>

theorem done_no_lost_wakeup:
  assumes "dq_reach (ds_init fd) s"
  shows "ds_pushed s = ds_received s @ dq_queue (ds_queue s) \<and>
    (dq_queue (ds_queue s) \<noteq> [] \<longrightarrow> 0 < ds_count s \<or> 0 < ds_pushing s \<or> ds_reading s)"
  using dq_inv_reach [OF assms] by (simp add: dq_inv_def)

theorem done_no_lost_wakeup_witness:
  "\<exists>s :: dq_sys. ds_pushed s = ds_received s @ dq_queue (ds_queue s) \<and> dq_queue (ds_queue s) = [\<lparr>di_fd = 7, di_id = 1, di_resp = [1]\<rparr>]"
proof -
  let ?i = "\<lparr>di_fd = 7, di_id = 1, di_resp = [1]\<rparr>" and ?s = "ds_init 5"
  let ?t = "?s\<lparr>ds_queue := dq_put (ds_queue ?s) ?i, ds_pushing := ds_pushing ?s + 1, ds_pushed := ds_pushed ?s @ [?i]\<rparr>"
  have "dq_reach (ds_init 5) ?t" by (rule dq_reach.step [OF dq_reach.start dq_step.put])
  from done_no_lost_wakeup [OF this] have "ds_pushed ?t = ds_received ?t @ dq_queue (ds_queue ?t)" by blast
  moreover have "dq_queue (ds_queue ?t) = [?i]" by (simp add: ds_init_def dq_put_def)
  ultimately show ?thesis by blast
qed

text \<open>A push makes the event loop run: the item is at the end of the queue and,
  unless the write fails with another error than \<open>EAGAIN\<close>, the eventfd is readable.
\<close>

theorem push_wakes:
  assumes "net_contract net nv" "dq_push net q fd cid resp w = (q', w')"
    and "fst (net_write net (dq_wake_fd q) 1 w) \<noteq> -1 \<or> net_errno net w' = EAGAIN"
  shows "dq_queue q' = dq_queue q @ [\<lparr>di_fd = fd, di_id = cid, di_resp = resp\<rparr>] \<and> 0 < nv_count (nv w') (dq_wake_fd q)"
proof -
  obtain n w1 where wr: "net_write net (dq_wake_fd q) 1 w = (n, w1)" by fastforce
  then have r: "q' = dq_put q \<lparr>di_fd = fd, di_id = cid, di_resp = resp\<rparr>" "w' = w1"
    using assms(2) by (auto simp: dq_push_def dq_put_def)
  show ?thesis
    using net_contract.write_law [OF assms(1) wr] assms(3) wr r by (auto simp: write_ok_def dq_put_def)
qed

theorem push_wakes_witness:
  "\<exists>q' w'. dq_push mnet_os \<lparr>dq_queue = [], dq_wake_fd = 5\<rparr> 7 1 [9] (mn_init [] [] []) = (q', w') \<and>
    0 < nv_count (mn_view w') 5"
proof -
  obtain q' w' where p: "dq_push mnet_os \<lparr>dq_queue = [], dq_wake_fd = 5\<rparr> 7 1 [9] (mn_init [] [] []) = (q', w')"
    by fastforce
  have "fst (net_write mnet_os (dq_wake_fd \<lparr>dq_queue = [], dq_wake_fd = 5\<rparr>) 1 (mn_init [] [] [])) \<noteq> -1"
    by (simp add: mnet_write_def)
  with push_wakes [OF mnet_contract p] p show ?thesis by simp
qed

end
