(* ===== verification/Net_connection.thy ===== *)
theory Net_connection
  imports Message ThreadPool Donequeue
begin

text \<open>
  One client connection, \<open>src/net/Connection.cpp\<close> and \<open>include/net/Connection.h\<close>:
  \<open>handreadable\<close> reads until the socket is empty, decodes the requests and submits them to the
  pool, \<open>senddata\<close> sends or buffers a response, \<open>handwrite\<close> flushes the buffer,
  \<open>set_event\<close> changes the epoll registration. The loops of \<open>handreadable\<close> and
  \<open>handwrite\<close> and the retry of \<open>senddata\<close> depend on the kernel's answers, so these are partial
  functions.

  The lemmas show that the bytes on the wire are the encoded responses in order, with the
  buffer as the part still to come; that the requests submitted are the frames of the bytes
  received; that the end of \<open>handwrite\<close> without a result is never reached and that it returns;
  and that a connection stays registered for what it waits for.
\<close>

section \<open>The class\<close>

text \<open>The closure given to the pool: the handler and the queue are the same for all, so a task
  is its captured descriptor, connection id and message.\<close>

record task =
  tk_fd :: int
  tk_id :: u64
  tk_msg :: bytes

text \<open>The fields of \<open>Connection\<close> with those of \<open>fd_status\<close>. The member \<open>live\<close> is never used.
  \<open>idx\<close> is an \<open>int\<close> that stays below the size of the buffer (\<open>conn_inv\<close>), here a \<open>nat\<close>: \<open>Net_width\<close>
  has \<open>handwrite\<close> and \<open>senddata\<close> with the code's conversions, and shows the two agree while the buffer is below
  \<open>2^31\<close> bytes. \<open>inflight\<close> is an \<open>int\<close> too, exact below \<open>2^31\<close> requests.\<close>

record connection =
  cn_epfd :: int
  cn_fd :: int
  cn_id :: u64
  cn_Outbuffer :: bytes
  cn_idx :: nat
  cn_decoder :: messagedecode
  cn_peer_close :: bool
  cn_inflight :: int
  cn_closed :: bool

definition connection_new :: "int \<Rightarrow> int \<Rightarrow> u64 \<Rightarrow> connection" where
  "connection_new epfd fd conn_id = \<lparr>cn_epfd = epfd, cn_fd = fd, cn_id = conn_id, cn_Outbuffer = [],
     cn_idx = 0, cn_decoder = messagedecode_init, cn_peer_close = False, cn_inflight = 0, cn_closed = False\<rparr>"

definition set_event :: "'w net_os \<Rightarrow> connection \<Rightarrow> u32 \<Rightarrow> 'w \<Rightarrow> 'w" where
  "set_event net c event w = snd (net_ctl net (cn_epfd c) CTL_MOD (cn_fd c) event w)"

text \<open>The loop over the decoded messages.\<close>

fun dispatch :: "connection \<Rightarrow> task pool \<Rightarrow> bytes list \<Rightarrow> connection \<times> task pool" where
  "dispatch c pool [] = (c, pool)"
| "dispatch c pool (str # msg) =
     dispatch (c\<lparr>cn_inflight := cn_inflight c + 1\<rparr>)
       (submit pool \<lparr>tk_fd = cn_fd c, tk_id = cn_id c, tk_msg = str\<rparr>) msg"

definition take_dispatch :: "connection \<Rightarrow> task pool \<Rightarrow> connection \<times> task pool" where
  "take_dispatch c pool = (case take_msgs (cn_decoder c) of (msg, d) \<Rightarrow>
     dispatch (c\<lparr>cn_decoder := d\<rparr>) pool msg)"

partial_function (option) handreadable ::
  "'w net_os \<Rightarrow> connection \<Rightarrow> task pool \<Rightarrow> 'w \<Rightarrow> (bool \<times> connection \<times> task pool \<times> 'w) option" where
  "handreadable net c pool w =
     (case net_recv net (cn_fd c) (1024 * 64) w of (n, buf, w1) \<Rightarrow>
        if n > 0
        then let c = c\<lparr>cn_decoder := feed (cn_decoder c) buf\<rparr>
          in if \<not> brokenmessage (cn_decoder c)
             then case take_dispatch c pool of (c, pool) \<Rightarrow> handreadable net c pool w1
             else Some (False, c, pool, w1)
        else if n = 0
        then let c = c\<lparr>cn_peer_close := True\<rparr>
          in case (if \<not> brokenmessage (cn_decoder c) then take_dispatch c pool else (c, pool)) of (c, pool) \<Rightarrow>
             if cn_Outbuffer c = [] \<and> cn_inflight c = 0 then Some (False, c, pool, w1)
             else if cn_Outbuffer c = [] then Some (True, c, pool, set_event net c 0 w1)
             else Some (True, c, pool, set_event net c EPOLLOUT w1)
        else if net_errno net w1 \<noteq> EAGAIN \<and> net_errno net w1 \<noteq> EINTR then Some (False, c, pool, w1)
        else Some (True, c, pool, w1))"

text \<open>The loop of \<open>handwrite\<close>; leaving it by its condition runs off the end of the function,
  which has no defined result: the inner \<open>None\<close>.\<close>

partial_function (option) handwrite_loop ::
  "'w net_os \<Rightarrow> connection \<Rightarrow> 'w \<Rightarrow> (bool option \<times> connection \<times> 'w) option" where
  "handwrite_loop net c w =
     (if \<not> cn_idx c < length (cn_Outbuffer c) then Some (None, c, w)
      else case net_send net (cn_fd c) (drop (cn_idx c) (cn_Outbuffer c)) w of (n, w1) \<Rightarrow>
        if n = int (length (cn_Outbuffer c)) - int (cn_idx c)
        then let c = c\<lparr>cn_idx := 0, cn_Outbuffer := []\<rparr>
          in if cn_peer_close c \<and> cn_inflight c = 0 then Some (Some False, c, w1)
             else if cn_peer_close c then Some (Some True, c, set_event net c 0 w1)
             else Some (Some True, c, set_event net c EPOLLIN w1)
        else if n = -1
        then if net_errno net w1 = EAGAIN \<or> net_errno net w1 = EWOULDBLOCK \<or> net_errno net w1 = EINTR
             then Some (Some True, c, w1) else Some (Some False, c, w1)
        else if n < int (length (cn_Outbuffer c)) - int (cn_idx c)
        then handwrite_loop net (c\<lparr>cn_idx := nat (int (cn_idx c) + n)\<rparr>) w1
        else handwrite_loop net c w1)"

definition handwrite :: "'w net_os \<Rightarrow> connection \<Rightarrow> 'w \<Rightarrow> (bool option \<times> connection \<times> 'w) option" where
  "handwrite net c w =
     (if cn_Outbuffer c = [] then Some (Some (\<not> (cn_peer_close c \<and> cn_inflight c = 0)), c, w)
      else handwrite_loop net c w)"

partial_function (option) senddata ::
  "'w net_os \<Rightarrow> connection \<Rightarrow> bytes \<Rightarrow> 'w \<Rightarrow> (bool \<times> connection \<times> 'w) option" where
  "senddata net c accept w =
     (let data = encode accept in
      if cn_Outbuffer c \<noteq> []
      then let c = c\<lparr>cn_Outbuffer := cn_Outbuffer c @ data\<rparr>
        in Some (True, c, set_event net c (EPOLLIN OR EPOLLOUT) w)
      else case net_send net (cn_fd c) data w of (achieve, w1) \<Rightarrow>
        if achieve = int (length data) then Some (True, c, w1)
        else if achieve = -1
        then if net_errno net w1 = EAGAIN \<or> net_errno net w1 = EWOULDBLOCK
             then let c = c\<lparr>cn_Outbuffer := cn_Outbuffer c @ data\<rparr>
               in Some (True, c, set_event net c (EPOLLIN OR EPOLLOUT) w1)
             else if net_errno net w1 = EINTR then senddata net c accept w1
             else Some (False, c\<lparr>cn_closed := True\<rparr>, w1)
        else let c = c\<lparr>cn_Outbuffer := cn_Outbuffer c @ drop (nat achieve) data\<rparr>
          in Some (True, c, set_event net c (EPOLLIN OR EPOLLOUT) w1))"

section \<open>Invariants\<close>

definition unsent :: "connection \<Rightarrow> bytes" where
  "unsent c = drop (cn_idx c) (cn_Outbuffer c)"

definition conn_inv :: "connection \<Rightarrow> bool" where
  "conn_inv c \<longleftrightarrow> (if cn_Outbuffer c = [] then cn_idx c = 0 else cn_idx c < length (cn_Outbuffer c)) \<and>
     feed_inv (cn_decoder c)"

text \<open>The requests of the bytes received so far: those dispatched, and the undecoded rest.\<close>

definition in_step :: "connection \<Rightarrow> bytes \<Rightarrow> bytes list \<Rightarrow> bool" where
  "in_step c received ms \<longleftrightarrow> parse received = (ms, pending (cn_decoder c), False) \<and>
     dec_msg (cn_decoder c) = [] \<and> \<not> dec_error (cn_decoder c) \<and> feed_inv (cn_decoder c)"

definition tasks_of :: "connection \<Rightarrow> bytes list \<Rightarrow> task list" where
  "tasks_of c ms = map (\<lambda>m. \<lparr>tk_fd = cn_fd c, tk_id = cn_id c, tk_msg = m\<rparr>) ms"

lemma dispatch_eq:
  "dispatch c pool ms = (c\<lparr>cn_inflight := cn_inflight c + int (length ms)\<rparr>, foldl submit pool (tasks_of c ms))"
  by (induction ms arbitrary: c pool) (simp_all add: tasks_of_def add_ac)

lemma take_dispatch_eq:
  "take_dispatch c pool = (c\<lparr>cn_decoder := (cn_decoder c)\<lparr>dec_msg := []\<rparr>,
     cn_inflight := cn_inflight c + int (length (dec_msg (cn_decoder c)))\<rparr>,
     foldl submit pool (tasks_of c (dec_msg (cn_decoder c))))"
  by (simp add: take_dispatch_def take_msgs_def dispatch_eq) (simp add: tasks_of_def)

lemma encode_not_Nil [simp]: "encode m \<noteq> []"
  by (simp add: encode_def be32_def)

lemma in_step_feed:
  assumes "in_step c received ms" "brokenmessage (feed (cn_decoder c) data) = bad"
  defines "d \<equiv> feed (cn_decoder c) data"
  shows "feed_inv d"
    and "\<not> bad \<Longrightarrow> in_step (c\<lparr>cn_decoder := d\<lparr>dec_msg := []\<rparr>\<rparr>) (received @ data) (ms @ dec_msg d)"
    and "bad \<Longrightarrow> snd (snd (parse (received @ data)))"
proof -
  have pr: "parse (received @ data) = (ms @ dec_msg d, pending d, dec_error d)"
    using assms(1) feed_parse unfolding in_step_def d_def by blast
  show inv: "feed_inv d" using assms(1) by (simp add: in_step_def d_def feed_inv_feed)
  have b: "bad = dec_error d" using assms(2) by (simp add: brokenmessage_def d_def)
  show "\<not> bad \<Longrightarrow> in_step (c\<lparr>cn_decoder := d\<lparr>dec_msg := []\<rparr>\<rparr>) (received @ data) (ms @ dec_msg d)"
    using pr b inv by (simp add: in_step_def pending_def feed_inv_def)
  show "bad \<Longrightarrow> snd (snd (parse (received @ data)))" using pr b by simp
qed

text \<open>The registration with epoll while the connection lives: for output if the buffer holds
  bytes, for input until the peer has closed.\<close>

definition ctl_works :: "'w net_os \<Rightarrow> bool" where
  "ctl_works net \<longleftrightarrow> (\<forall>ep op fd e w. fst (net_ctl net ep op fd e w) = 0)"

definition interest :: "net_view \<Rightarrow> connection \<Rightarrow> bool" where
  "interest v c \<longleftrightarrow> (\<exists>e. nv_events v (cn_fd c) = Some e \<and>
     (cn_Outbuffer c \<noteq> [] \<longrightarrow> e AND EPOLLOUT \<noteq> 0) \<and> (\<not> cn_peer_close c \<longrightarrow> e AND EPOLLIN \<noteq> 0))"

lemma epoll_bits [simp]:
  "(EPOLLIN OR EPOLLOUT) AND EPOLLOUT \<noteq> 0" "(EPOLLIN OR EPOLLOUT) AND EPOLLIN \<noteq> 0"
  "EPOLLOUT \<noteq> 0" "EPOLLIN \<noteq> 0" "(EPOLLIN OR EPOLLRDHUP) AND EPOLLIN \<noteq> 0"
  by (simp_all add: epoll_flags)

lemma interest_upd [simp]:
  "interest v (c\<lparr>cn_idx := i\<rparr>) = interest v c" "interest v (c\<lparr>cn_closed := b\<rparr>) = interest v c"
  "interest v (c\<lparr>cn_inflight := k\<rparr>) = interest v c" "interest v (c\<lparr>cn_decoder := d\<rparr>) = interest v c"
  "interest v (c\<lparr>cn_decoder := d, cn_inflight := k\<rparr>) = interest v c"
  by (simp_all add: interest_def)

lemma interest_events: "nv_events v' = nv_events v \<Longrightarrow> interest v' c = interest v c"
  by (simp add: interest_def)

text \<open>From one state to the next, the bytes on the wire followed by those still in the buffer
  grew by \<open>new\<close>; no other descriptor was sent anything.\<close>

definition flow :: "bool \<Rightarrow> net_view \<Rightarrow> connection \<Rightarrow> bytes \<Rightarrow> net_view \<Rightarrow> connection \<Rightarrow> bool" where
  "flow reg v c new v' c' \<longleftrightarrow>
     (reg \<longrightarrow> interest v c \<longrightarrow> interest v' c') \<and>
     nv_sent v' (cn_fd c) @ unsent c' = nv_sent v (cn_fd c) @ unsent c @ new \<and>
     (\<forall>fd. fd \<noteq> cn_fd c \<longrightarrow> nv_sent v' fd = nv_sent v fd \<and> nv_events v' fd = nv_events v fd) \<and>
     nv_rcvd v' = nv_rcvd v \<and> nv_open v' = nv_open v \<and>
     cn_fd c' = cn_fd c \<and> cn_id c' = cn_id c \<and> cn_epfd c' = cn_epfd c \<and>
     cn_inflight c' = cn_inflight c \<and> cn_peer_close c' = cn_peer_close c \<and> cn_decoder c' = cn_decoder c"

definition send_post :: "bool \<Rightarrow> net_view \<Rightarrow> connection \<Rightarrow> bytes \<Rightarrow> bool \<Rightarrow> net_view \<Rightarrow> connection \<Rightarrow> bool" where
  "send_post reg v c m ok v' c' \<longleftrightarrow> conn_inv c' \<and> flow reg v c (if ok then encode m else []) v' c'"

context net_contract
begin

lemma set_event_streams:
  "nv_sent (nv (set_event net c e w)) = nv_sent (nv w) \<and> nv_rcvd (nv (set_event net c e w)) = nv_rcvd (nv w) \<and>
   nv_open (nv (set_event net c e w)) = nv_open (nv w)"
  using ctl_streams [of "cn_epfd c" CTL_MOD "cn_fd c" e w] by (cases "net_ctl net (cn_epfd c) CTL_MOD (cn_fd c) e w") (simp add: set_event_def)

lemma set_event_sent [simp]: "nv_sent (nv (set_event net c e w)) = nv_sent (nv w)"
  and set_event_rcvd [simp]: "nv_rcvd (nv (set_event net c e w)) = nv_rcvd (nv w)"
  and set_event_open [simp]: "nv_open (nv (set_event net c e w)) = nv_open (nv w)"
  by (simp_all add: set_event_streams)

lemma set_event_others [simp]: "fd \<noteq> cn_fd c \<Longrightarrow> nv_events (nv (set_event net c e w)) fd = nv_events (nv w) fd"
  using ctl_law [of "cn_epfd c" CTL_MOD "cn_fd c" e w]
  by (cases "net_ctl net (cn_epfd c) CTL_MOD (cn_fd c) e w") (auto simp: set_event_def ctl_ok_def)

lemma set_event_events [simp]:
  "ctl_works net \<Longrightarrow> nv_events (nv (set_event net c e w)) = (nv_events (nv w))(cn_fd c \<mapsto> e)"
  using ctl_law [of "cn_epfd c" CTL_MOD "cn_fd c" e w]
  by (cases "net_ctl net (cn_epfd c) CTL_MOD (cn_fd c) e w") (auto simp: set_event_def ctl_works_def ctl_ok_def, metis fst_conv zero_neq_neg_one)

lemma interest_set:
  "ctl_works net \<Longrightarrow> cn_fd c' = cn_fd c \<Longrightarrow> interest (nv (set_event net c e w)) c' \<longleftrightarrow>
     (cn_Outbuffer c' \<noteq> [] \<longrightarrow> e AND EPOLLOUT \<noteq> 0) \<and> (\<not> cn_peer_close c' \<longrightarrow> e AND EPOLLIN \<noteq> 0)"
  by (simp add: interest_def)

lemma send_flow:
  assumes "net_send net fd data w = (n, w1)" "data \<noteq> []"
  shows "n = -1 \<and> nv w1 = nv w \<or>
    0 < n \<and> nat n \<le> length data \<and> nv_rcvd (nv w1) = nv_rcvd (nv w) \<and> nv_events (nv w1) = nv_events (nv w) \<and>
    nv_open (nv w1) = nv_open (nv w) \<and>
    nv_sent (nv w1) = (nv_sent (nv w))(fd := nv_sent (nv w) fd @ take (nat n) data)"
  using send_law [OF assms(2,1)] by (auto simp: send_ok_def)

text \<open>The part of a response that could not be sent goes to the buffer.\<close>

lemma send_post_buffered:
  assumes "conn_inv c" "nv_rcvd (nv w1) = nv_rcvd (nv w) \<and> nv_open (nv w1) = nv_open (nv w) \<and> nv_events (nv w1) = nv_events (nv w)"
    "nv_sent (nv w1) = (nv_sent (nv w))(cn_fd c := nv_sent (nv w) (cn_fd c) @ sent)"
    "cn_Outbuffer c = [] \<or> sent = []" "sent @ data = encode m" "data \<noteq> []"
  defines "c' \<equiv> c\<lparr>cn_Outbuffer := cn_Outbuffer c @ data\<rparr>"
  shows "send_post (ctl_works net) (nv w) c m True (nv (set_event net c' (EPOLLIN OR EPOLLOUT) w1)) c'"
proof -
  have "conn_inv c'" using assms(1,6) by (cases "cn_Outbuffer c = []") (auto simp: c'_def conn_inv_def)
  moreover have "sent @ unsent c' = unsent c @ encode m"
    using assms(1,4,5) by (auto simp: c'_def unsent_def conn_inv_def split: if_splits)
  moreover have "ctl_works net \<longrightarrow> interest (nv (set_event net c' (EPOLLIN OR EPOLLOUT) w1)) c'"
    by (simp add: interest_set)
  ultimately show ?thesis
    using assms(2,3) by (simp add: send_post_def flow_def) (simp add: c'_def)
qed

lemma send_post_direct:
  assumes "conn_inv c" "nv_rcvd v1 = nv_rcvd v \<and> nv_open v1 = nv_open v" "nv_events v1 = nv_events v"
    "nv_sent v1 = (nv_sent v)(cn_fd c := nv_sent v (cn_fd c) @ encode m)" "cn_Outbuffer c = []"
  shows "send_post reg v c m True v1 c"
  using assms interest_events [OF assms(3), of c]
  by (simp add: send_post_def flow_def unsent_def)

lemma send_post_failed:
  "conn_inv c \<Longrightarrow> send_post reg v c m False v (c\<lparr>cn_closed := True\<rparr>)"
  by (simp add: send_post_def flow_def unsent_def conn_inv_def)

lemma senddata_raw:
  assumes "senddata net c m w = Some r" "conn_inv c"
  shows "send_post (ctl_works net) (nv w) c m (fst r) (nv (snd (snd r))) (fst (snd r))"
proof -
  have "net' = net \<longrightarrow> conn_inv c \<longrightarrow> send_post (ctl_works net) (nv w) c m (fst r) (nv (snd (snd r))) (fst (snd r))"
    if "senddata net' c m w = Some r" for net' c m w r
    using that
  proof (rule senddata.raw_induct
      [where P = "\<lambda>net' c m w r. net' = net \<longrightarrow> conn_inv c \<longrightarrow>
         send_post (ctl_works net) (nv w) c m (fst r) (nv (snd (snd r))) (fst (snd r))", rotated])
    fix f net' c m w r
    assume IH: "\<And>net' c m w r. f net' c m w = Some r \<Longrightarrow> net' = net \<longrightarrow> conn_inv c \<longrightarrow>
         send_post (ctl_works net) (nv w) c m (fst r) (nv (snd (snd r))) (fst (snd r))"
      and eq: "(let data = encode m in
      if cn_Outbuffer c \<noteq> []
      then let c = c\<lparr>cn_Outbuffer := cn_Outbuffer c @ data\<rparr>
        in Some (True, c, set_event net' c (EPOLLIN OR EPOLLOUT) w)
      else case net_send net' (cn_fd c) data w of (achieve, w1) \<Rightarrow>
        if achieve = int (length data) then Some (True, c, w1)
        else if achieve = -1
        then if net_errno net' w1 = EAGAIN \<or> net_errno net' w1 = EWOULDBLOCK
             then let c = c\<lparr>cn_Outbuffer := cn_Outbuffer c @ data\<rparr>
               in Some (True, c, set_event net' c (EPOLLIN OR EPOLLOUT) w1)
             else if net_errno net' w1 = EINTR then f net' c m w1
             else Some (False, c\<lparr>cn_closed := True\<rparr>, w1)
        else let c = c\<lparr>cn_Outbuffer := cn_Outbuffer c @ drop (nat achieve) data\<rparr>
          in Some (True, c, set_event net' c (EPOLLIN OR EPOLLOUT) w1)) = Some r"
    show "net' = net \<longrightarrow> conn_inv c \<longrightarrow> send_post (ctl_works net) (nv w) c m (fst r) (nv (snd (snd r))) (fst (snd r))"
    proof (intro impI)
      assume net: "net' = net" and inv: "conn_inv c"
      obtain n w1 where sd: "net_send net (cn_fd c) (encode m) w = (n, w1)" by fastforce
      show "send_post (ctl_works net) (nv w) c m (fst r) (nv (snd (snd r))) (fst (snd r))"
      proof (cases "cn_Outbuffer c = []")
        case False
        then show ?thesis
          using eq net send_post_buffered [OF inv, of w w "[]" "encode m" m] by (auto simp: Let_def)
      next
        case True
        consider (all) "n = int (length (encode m))" | (err) "n = -1" "nv w1 = nv w"
          | (part) "0 < n" "nat n < length (encode m)" "n \<noteq> int (length (encode m))" "n \<noteq> -1"
          using send_flow [OF sd] by fastforce
        then show ?thesis
        proof cases
          case all
          then have "r = (True, c, w1)" using eq net True sd by (simp add: Let_def)
          then show ?thesis using send_flow [OF sd] all by (auto intro: send_post_direct [OF inv] True)
        next
          case err
          have "send_post (ctl_works net) (nv w) c m (fst r) (nv (snd (snd r))) (fst (snd r))"
            if "f net c m w1 = Some r" using IH [OF that] inv err(2) by simp
          then show ?thesis
            using eq net True sd err send_post_buffered [OF inv, of w1 w "[]" "encode m" m] send_post_failed [OF inv]
            by (auto simp: Let_def split: if_splits)
        next
          case part
          then show ?thesis
            using eq net True sd send_flow [OF sd]
              send_post_buffered [OF inv, of w1 w "take (nat n) (encode m)" "drop (nat n) (encode m)" m]
            by (auto simp: Let_def)
        qed
      qed
    qed
  qed
  from this [OF assms(1)] assms(2) show ?thesis by simp
qed

lemma handwrite_loop_result:
  assumes "cn_idx c < length (cn_Outbuffer c)" "feed_inv (cn_decoder c)"
  shows "\<exists>res c' w'. handwrite_loop net c w = Some (Some res, c', w') \<and> conn_inv c' \<and>
    flow (ctl_works net) (nv w) c [] (nv w') c' \<and>
    (cn_Outbuffer c' = [] \<longrightarrow> res = (\<not> (cn_peer_close c \<and> cn_inflight c = 0)))"
  using assms
proof (induction "length (cn_Outbuffer c) - cn_idx c" arbitrary: c w rule: less_induct)
  case less
  let ?d = "drop (cn_idx c) (cn_Outbuffer c)"
  obtain n w1 where sd: "net_send net (cn_fd c) ?d w = (n, w1)" by fastforce
  have d: "?d \<noteq> []" "length ?d = length (cn_Outbuffer c) - cn_idx c"
    "int (length (cn_Outbuffer c)) - int (cn_idx c) = int (length ?d)"
    using less.prems(1) by auto
  note loop = handwrite_loop.simps [of net c w]
  consider (all) "n = int (length ?d)" "nv_rcvd (nv w1) = nv_rcvd (nv w) \<and> nv_open (nv w1) = nv_open (nv w)" "nv_events (nv w1) = nv_events (nv w)"
        "nv_sent (nv w1) = (nv_sent (nv w))(cn_fd c := nv_sent (nv w) (cn_fd c) @ ?d)"
    | (err) "n = -1" "nv w1 = nv w"
    | (part) k where "n = int k" "0 < k" "k < length ?d" "nv_rcvd (nv w1) = nv_rcvd (nv w) \<and> nv_open (nv w1) = nv_open (nv w)" "nv_events (nv w1) = nv_events (nv w)"
        "nv_sent (nv w1) = (nv_sent (nv w))(cn_fd c := nv_sent (nv w) (cn_fd c) @ take k ?d)"
  proof (cases "n = -1")
    case True
    then show thesis using send_flow [OF sd d(1)] err by simp
  next
    case False
    then have f: "0 < n" "nat n \<le> length ?d" "nv_rcvd (nv w1) = nv_rcvd (nv w) \<and> nv_open (nv w1) = nv_open (nv w)" "nv_events (nv w1) = nv_events (nv w)"
      "nv_sent (nv w1) = (nv_sent (nv w))(cn_fd c := nv_sent (nv w) (cn_fd c) @ take (nat n) ?d)"
      using send_flow [OF sd d(1)] by blast+
    show thesis
    proof (cases "nat n = length ?d")
      case True
      then have "n = int (length ?d)" using f(1) by linarith
      moreover have "take (nat n) ?d = ?d" using True by simp
      ultimately show thesis using all f(3,4,5) by simp
    next
      case False
      then show thesis using part [of "nat n"] f by simp
    qed
  qed
  then show ?case
  proof cases
    case all
    let ?c = "c\<lparr>cn_idx := 0, cn_Outbuffer := []\<rparr>"
    let ?w = "if cn_peer_close c \<and> cn_inflight c = 0 then w1
      else set_event net ?c (if cn_peer_close c then 0 else EPOLLIN) w1"
    have "n = int (length (cn_Outbuffer c)) - int (cn_idx c)" using all(1) d(3) by linarith
    then have "handwrite_loop net c w = Some (Some (\<not> (cn_peer_close c \<and> cn_inflight c = 0)), ?c, ?w)"
      using loop sd less.prems by (simp add: Let_def)
    moreover have "ctl_works net \<longrightarrow> interest (nv w) c \<longrightarrow> interest (nv ?w) ?c"
      using all(3) by (simp add: interest_set) (simp add: interest_def, blast)
    moreover have "nv_sent (nv ?w) = nv_sent (nv w1)" "nv_rcvd (nv ?w) = nv_rcvd (nv w1)" "nv_open (nv ?w) = nv_open (nv w1)" by simp_all
    moreover have "\<forall>fd. fd \<noteq> cn_fd c \<longrightarrow> nv_events (nv ?w) fd = nv_events (nv w) fd" using all(3) by simp
    ultimately show ?thesis
      using less.prems(2) all(2,4)
      by (intro exI [of _ "\<not> (cn_peer_close c \<and> cn_inflight c = 0)"] exI [of _ ?c] exI [of _ ?w])
        (simp add: flow_def unsent_def conn_inv_def del: if_split)
  next
    case err
    have "n \<noteq> int (length (cn_Outbuffer c)) - int (cn_idx c)" using err(1) less.prems(1) by linarith
    then show ?thesis
      using loop sd err less.prems
      by (auto simp: flow_def unsent_def conn_inv_def)
  next
    case (part k)
    let ?c = "c\<lparr>cn_idx := cn_idx c + k\<rparr>"
    have l: "handwrite_loop net c w = handwrite_loop net ?c w1"
    proof -
      have "n \<noteq> int (length (cn_Outbuffer c)) - int (cn_idx c)" "n < int (length (cn_Outbuffer c)) - int (cn_idx c)"
        "n \<noteq> -1" "nat (int (cn_idx c) + n) = cn_idx c + k"
        using part(1-3) d(3) by linarith+
      then show ?thesis using loop sd less.prems(1) by simp
    qed
    have sub: "length (cn_Outbuffer ?c) - cn_idx ?c < length (cn_Outbuffer c) - cn_idx c"
      "cn_idx ?c < length (cn_Outbuffer ?c)" "feed_inv (cn_decoder ?c)"
      using part(2,3) less.prems by simp_all
    have "?d = take k ?d @ unsent ?c"
      by (simp add: unsent_def add.commute flip: drop_drop)
    then show ?thesis
      using less.hyps [OF sub(1-3), of w1] l part(4,5,6) interest_events [OF part(5), of c]
      by (auto simp: flow_def unsent_def [of c])
  qed
qed

lemma handwrite_result:
  assumes "conn_inv c"
  shows "\<exists>res c' w'. handwrite net c w = Some (Some res, c', w') \<and> conn_inv c' \<and>
    flow (ctl_works net) (nv w) c [] (nv w') c' \<and>
    (cn_Outbuffer c' = [] \<longrightarrow> res = (\<not> (cn_peer_close c \<and> cn_inflight c = 0)))"
proof (cases "cn_Outbuffer c = []")
  case True
  then show ?thesis using assms by (auto simp: handwrite_def flow_def)
next
  case False
  then show ?thesis
    using handwrite_loop_result [of c w] assms by (simp add: handwrite_def conn_inv_def)
qed

text \<open>What a call of \<open>handreadable\<close> leaves: the messages \<open>new\<close> were submitted, each counted.\<close>

definition read_post :: "bool \<Rightarrow> net_view \<Rightarrow> connection \<Rightarrow> task pool \<Rightarrow> bytes list \<Rightarrow> bool \<Rightarrow> connection \<Rightarrow> task pool \<Rightarrow> net_view \<Rightarrow> bool" where
  "read_post reg v c pool ms ok c' pool' v' \<longleftrightarrow> (reg \<longrightarrow> ok \<longrightarrow> interest v c \<longrightarrow> interest v' c') \<and> (\<exists>new.
     pool' = foldl submit pool (tasks_of c new) \<and> cn_inflight c' = cn_inflight c + int (length new) \<and>
     nv_sent v' = nv_sent v \<and> nv_open v' = nv_open v \<and> (\<forall>fd. fd \<noteq> cn_fd c \<longrightarrow> nv_rcvd v' fd = nv_rcvd v fd \<and> nv_events v' fd = nv_events v fd) \<and>
     cn_fd c' = cn_fd c \<and> cn_id c' = cn_id c \<and> cn_epfd c' = cn_epfd c \<and>
     cn_Outbuffer c' = cn_Outbuffer c \<and> cn_idx c' = cn_idx c \<and> feed_inv (cn_decoder c') \<and>
     (if dec_error (cn_decoder c') then \<not> ok \<and> snd (snd (parse (nv_rcvd v' (cn_fd c))))
      else in_step c' (nv_rcvd v' (cn_fd c)) (ms @ new)))"

lemma read_post_id:
  "in_step c (nv_rcvd v (cn_fd c)) ms \<Longrightarrow> read_post reg v c pool ms ok c pool v"
  by (auto simp: read_post_def tasks_of_def in_step_def intro: exI [of _ "[]"])

lemma read_post_step:
  assumes "in_step c (nv_rcvd v (cn_fd c)) ms" "\<not> brokenmessage (feed (cn_decoder c) data)"
    "take_dispatch (c\<lparr>cn_decoder := feed (cn_decoder c) data\<rparr>) pool = (c1, pool1)"
    "v1 = v\<lparr>nv_rcvd := (nv_rcvd v)(cn_fd c := nv_rcvd v (cn_fd c) @ data)\<rparr>"
  defines "new \<equiv> dec_msg (feed (cn_decoder c) data)"
  shows "in_step c1 (nv_rcvd v1 (cn_fd c1)) (ms @ new)"
    and "read_post reg v1 c1 pool1 (ms @ new) ok c' pool' v' \<Longrightarrow> read_post reg v c pool ms ok c' pool' v'"
proof -
  note f = in_step_feed [OF assms(1), of data]
  have c1: "c1 = c\<lparr>cn_decoder := (feed (cn_decoder c) data)\<lparr>dec_msg := []\<rparr>, cn_inflight := cn_inflight c + int (length new)\<rparr>"
    "pool1 = foldl submit pool (tasks_of c new)"
    using assms(3) by (auto simp: take_dispatch_eq new_def tasks_of_def)
  then show "in_step c1 (nv_rcvd v1 (cn_fd c1)) (ms @ new)"
    using f(2) [OF refl assms(2)] assms(4) by (simp add: in_step_def new_def)
  assume post: "read_post reg v1 c1 pool1 (ms @ new) ok c' pool' v'"
  then obtain new2 where "pool' = foldl submit pool1 (tasks_of c1 new2)" "cn_inflight c' = cn_inflight c1 + int (length new2)"
     "nv_sent v' = nv_sent v1" "nv_open v' = nv_open v1" "\<forall>fd. fd \<noteq> cn_fd c1 \<longrightarrow> nv_rcvd v' fd = nv_rcvd v1 fd \<and> nv_events v' fd = nv_events v1 fd"
     "cn_fd c' = cn_fd c1" "cn_id c' = cn_id c1" "cn_epfd c' = cn_epfd c1"
     "cn_Outbuffer c' = cn_Outbuffer c1" "cn_idx c' = cn_idx c1" "feed_inv (cn_decoder c')"
     "if dec_error (cn_decoder c') then \<not> ok \<and> snd (snd (parse (nv_rcvd v' (cn_fd c1))))
      else in_step c' (nv_rcvd v' (cn_fd c1)) ((ms @ new) @ new2)"
    unfolding read_post_def by blast
  then have "\<exists>new. pool' = foldl submit pool (tasks_of c new) \<and> cn_inflight c' = cn_inflight c + int (length new) \<and>
     nv_sent v' = nv_sent v \<and> nv_open v' = nv_open v \<and> (\<forall>fd. fd \<noteq> cn_fd c \<longrightarrow> nv_rcvd v' fd = nv_rcvd v fd \<and> nv_events v' fd = nv_events v fd) \<and>
     cn_fd c' = cn_fd c \<and> cn_id c' = cn_id c \<and> cn_epfd c' = cn_epfd c \<and>
     cn_Outbuffer c' = cn_Outbuffer c \<and> cn_idx c' = cn_idx c \<and> feed_inv (cn_decoder c') \<and>
     (if dec_error (cn_decoder c') then \<not> ok \<and> snd (snd (parse (nv_rcvd v' (cn_fd c))))
      else in_step c' (nv_rcvd v' (cn_fd c)) (ms @ new))"
    using c1 assms(4) by (intro exI [of _ "new @ new2"]) (auto simp: tasks_of_def)
  moreover have "interest v c \<longrightarrow> interest v1 c1" using c1(1) assms(4) by (simp add: interest_def)
  ultimately show "read_post reg v c pool ms ok c' pool' v'"
    using post unfolding read_post_def by blast
qed

end

context net_contract_finite
begin

lemma senddata_result:
  assumes "conn_inv c"
  shows "\<exists>ok c' w'. senddata net c m w = Some (ok, c', w') \<and> send_post (ctl_works net) (nv w) c m ok (nv w') c'"
proof -
  have "\<exists>r. senddata net c m w = Some r"
  proof (induction "budget w" arbitrary: w rule: less_induct)
    case less
    obtain n w1 where sd: "net_send net (cn_fd c) (encode m) w = (n, w1)" by fastforce
    have "\<exists>r. senddata net c m w1 = Some r" if "n = -1" "net_errno net w1 = EINTR"
      using less send_budget [of "cn_fd c" "encode m" w w1] sd that by blast
    then show ?case
      by (subst senddata.simps) (auto simp: Let_def sd)
  qed
  then show ?thesis using senddata_raw [OF _ assms, of m w] by fastforce
qed

lemma handreadable_result:
  assumes "in_step c (nv_rcvd (nv w) (cn_fd c)) ms"
  shows "\<exists>ok c' pool' w'. handreadable net c pool w = Some (ok, c', pool', w') \<and>
    read_post (ctl_works net) (nv w) c pool ms ok c' pool' (nv w') \<and>
    (cn_peer_close c \<longrightarrow> cn_peer_close c')"
  using assms
proof (induction "budget w" arbitrary: c pool w ms rule: less_induct)
  case less
  obtain n data w1 where rd: "net_recv net (cn_fd c) (1024 * 64) w = (n, data, w1)" by (metis prod_cases3)
  note hr = handreadable.simps [of net c pool w, unfolded rd prod.case]
  consider (data) "0 < n" "nv w1 = (nv w)\<lparr>nv_rcvd := (nv_rcvd (nv w))(cn_fd c := nv_rcvd (nv w) (cn_fd c) @ data)\<rparr>"
    | (eof) "n = 0" "nv w1 = nv w" | (err) "n = -1" "nv w1 = nv w"
    using recv_law [OF rd] by (auto simp: recv_ok_def)
  then show ?case
  proof cases
    case data
    show ?thesis
    proof (cases "brokenmessage (feed (cn_decoder c) data)")
      case True
      have "read_post (ctl_works net) (nv w) c pool ms False (c\<lparr>cn_decoder := feed (cn_decoder c) data\<rparr>) pool (nv w1)"
        using in_step_feed [OF less.prems, of data] True data(2)
        by (auto simp: read_post_def tasks_of_def brokenmessage_def intro!: exI [of _ "[]"])
      then show ?thesis using hr data(1) True by (auto simp: Let_def)
    next
      case False
      obtain c1 pool1 where td: "take_dispatch (c\<lparr>cn_decoder := feed (cn_decoder c) data\<rparr>) pool = (c1, pool1)" by fastforce
      note step = read_post_step [OF less.prems False td data(2)]
      have "handreadable net c pool w = handreadable net c1 pool1 w1"
        using hr data(1) False td by (simp add: Let_def)
      moreover have "cn_peer_close c1 = cn_peer_close c" using td by (auto simp: take_dispatch_eq)
      ultimately show ?thesis
        using less.hyps [OF recv_budget [OF rd data(1)] step(1)] step(2) by metis
    qed
  next
    case eof
    have nb: "\<not> brokenmessage (cn_decoder c)" "dec_msg (cn_decoder c) = []" "\<not> dec_error (cn_decoder c)" "feed_inv (cn_decoder c)"
      using less.prems by (simp_all add: in_step_def brokenmessage_def)
    let ?c = "c\<lparr>cn_peer_close := True\<rparr>"
    have td: "take_dispatch ?c pool = (?c, pool)"
      using nb(2) by (simp add: take_dispatch_eq tasks_of_def)
    have "read_post (ctl_works net) (nv w) c pool ms ok ?c pool (nv w')"
      if "nv_sent (nv w') = nv_sent (nv w)" "nv_rcvd (nv w') = nv_rcvd (nv w)" "nv_open (nv w') = nv_open (nv w)"
        "\<forall>fd. fd \<noteq> cn_fd c \<longrightarrow> nv_events (nv w') fd = nv_events (nv w) fd" "ctl_works net \<longrightarrow> ok \<longrightarrow> interest (nv w') ?c" for ok w'
      using less.prems nb that by (auto simp: read_post_def tasks_of_def in_step_def intro!: exI [of _ "[]"])
    note rp = this
    have "ctl_works net \<longrightarrow> cn_Outbuffer c = [] \<longrightarrow> interest (nv (set_event net ?c 0 w1)) ?c"
      "ctl_works net \<longrightarrow> interest (nv (set_event net ?c EPOLLOUT w1)) ?c"
      by (simp_all add: interest_set)
    then show ?thesis
      using hr eof nb(1) td rp by (auto simp: Let_def)
  next
    case err
    then show ?thesis using hr read_post_id [OF less.prems] by (auto split: if_splits)
  qed
qed

end

section \<open>A session\<close>

text \<open>What the event loop does with one connection: it is readable, it is writable, or a response
  of its own is ready (\<open>ondone\<close> counts it off before it sends). A result \<open>false\<close> makes the
  loop close the connection. \<open>None\<close> stands for a call without a result.\<close>

datatype conn_event = Readable | Writable | Response bytes

definition conn_step :: "'w net_os \<Rightarrow> connection \<Rightarrow> task pool \<Rightarrow> conn_event \<Rightarrow> 'w \<Rightarrow>
  (bool \<times> connection \<times> task pool \<times> 'w) option" where
  "conn_step net c pool ev w = (case ev of
     Readable \<Rightarrow> handreadable net c pool w
   | Writable \<Rightarrow> (case handwrite net c w of Some (Some ok, c, w) \<Rightarrow> Some (ok, c, pool, w) | _ \<Rightarrow> None)
   | Response resp \<Rightarrow> (case senddata net (c\<lparr>cn_inflight := cn_inflight c - 1\<rparr>) resp w of
       Some (ok, c, w) \<Rightarrow> Some (ok, c, pool, w) | None \<Rightarrow> None))"

fun conn_run :: "'w net_os \<Rightarrow> connection \<Rightarrow> task pool \<Rightarrow> conn_event list \<Rightarrow> 'w \<Rightarrow>
  (bool \<times> connection \<times> task pool \<times> 'w) option" where
  "conn_run net c pool [] w = Some (True, c, pool, w)"
| "conn_run net c pool (ev # evs) w = (case conn_step net c pool ev w of
     None \<Rightarrow> None
   | Some (ok, c, pool, w) \<Rightarrow> if ok then conn_run net c pool evs w else Some (False, c, pool, w))"

fun responses :: "conn_event list \<Rightarrow> bytes list" where
  "responses [] = []"
| "responses (Response r # evs) = r # responses evs"
| "responses (_ # evs) = responses evs"

definition session_inv :: "bool \<Rightarrow> net_view \<Rightarrow> connection \<Rightarrow> task pool \<Rightarrow> task pool \<Rightarrow> bytes list \<Rightarrow> bytes list \<Rightarrow> bool" where
  "session_inv reg v c pool0 pool ms resps \<longleftrightarrow>
     conn_inv c \<and> nv_sent v (cn_fd c) @ unsent c = concat (map encode resps) \<and>
     in_step c (nv_rcvd v (cn_fd c)) ms \<and> pool = foldl submit pool0 (tasks_of c ms) \<and>
     cn_inflight c = int (length ms) - int (length resps) \<and> (reg \<longrightarrow> interest v c)"

context net_contract_finite
begin

lemma conn_step_inv:
  assumes "session_inv reg (nv w) c pool0 pool ms resps" "reg \<longrightarrow> ctl_works net"
  shows "\<exists>ok c' pool' w'. conn_step net c pool ev w = Some (ok, c', pool', w') \<and> cn_fd c' = cn_fd c \<and> cn_id c' = cn_id c \<and>
    (ok \<longrightarrow> (\<exists>new. session_inv reg (nv w') c' pool0 pool' (ms @ new) (resps @ responses [ev])))"
proof -
  have inv: "conn_inv c" "nv_sent (nv w) (cn_fd c) @ unsent c = concat (map encode resps)"
    "in_step c (nv_rcvd (nv w) (cn_fd c)) ms" "pool = foldl submit pool0 (tasks_of c ms)"
    "cn_inflight c = int (length ms) - int (length resps)" "reg \<longrightarrow> interest (nv w) c"
    using assms(1) by (auto simp: session_inv_def)
  show ?thesis
  proof (cases ev)
    case Readable
    obtain ok c' pool' w' where r: "handreadable net c pool w = Some (ok, c', pool', w')"
      "read_post (ctl_works net) (nv w) c pool ms ok c' pool' (nv w')"
      using handreadable_result [OF inv(3)] by blast
    then obtain new where n: "pool' = foldl submit pool (tasks_of c new)" "cn_inflight c' = cn_inflight c + int (length new)"
      "nv_sent (nv w') = nv_sent (nv w)" "cn_fd c' = cn_fd c" "cn_id c' = cn_id c"
      "cn_Outbuffer c' = cn_Outbuffer c" "cn_idx c' = cn_idx c" "feed_inv (cn_decoder c')"
      "ok \<longrightarrow> in_step c' (nv_rcvd (nv w') (cn_fd c)) (ms @ new)" "reg \<longrightarrow> ok \<longrightarrow> interest (nv w') c'"
      using inv(6) assms(2) unfolding read_post_def by metis
    then have "ok \<longrightarrow> session_inv reg (nv w') c' pool0 pool' (ms @ new) (resps @ responses [ev])"
      using inv by (auto simp: session_inv_def Readable conn_inv_def unsent_def tasks_of_def)
    then show ?thesis using r n Readable by (auto simp: conn_step_def)
  next
    case Writable
    obtain res c' w' where r: "handwrite net c w = Some (Some res, c', w')" "conn_inv c'"
      "flow (ctl_works net) (nv w) c [] (nv w') c'"
      using handwrite_result [OF inv(1)] by blast
    have f: "nv_sent (nv w') (cn_fd c) @ unsent c' = nv_sent (nv w) (cn_fd c) @ unsent c" "nv_rcvd (nv w') = nv_rcvd (nv w)"
      "cn_fd c' = cn_fd c" "cn_id c' = cn_id c" "cn_inflight c' = cn_inflight c" "cn_decoder c' = cn_decoder c"
      "ctl_works net \<longrightarrow> interest (nv w) c \<longrightarrow> interest (nv w') c'"
      using r(3) by (simp_all add: flow_def)
    have "session_inv reg (nv w') c' pool0 pool (ms @ []) (resps @ responses [ev])"
      unfolding session_inv_def Writable using r(2) f inv assms(2) by (simp add: in_step_def tasks_of_def)
    then show ?thesis using r(1) Writable f(3,4)
      by (intro exI [of _ res] exI [of _ c'] exI [of _ pool] exI [of _ w'] conjI impI exI [of _ "[]"])
        (simp_all add: conn_step_def)
  next
    case (Response resp)
    let ?c = "c\<lparr>cn_inflight := cn_inflight c - 1\<rparr>"
    have "conn_inv ?c" using inv(1) by (simp add: conn_inv_def)
    then obtain ok c' w' where r: "senddata net ?c resp w = Some (ok, c', w')"
      "send_post (ctl_works net) (nv w) ?c resp ok (nv w') c'"
      using senddata_result by blast
    have f: "conn_inv c'" "nv_sent (nv w') (cn_fd c) @ unsent c' = nv_sent (nv w) (cn_fd c) @ unsent c @ (if ok then encode resp else [])"
      "nv_rcvd (nv w') = nv_rcvd (nv w)" "cn_fd c' = cn_fd c" "cn_id c' = cn_id c" "cn_inflight c' = cn_inflight c - 1"
      "cn_decoder c' = cn_decoder c" "ctl_works net \<longrightarrow> interest (nv w) c \<longrightarrow> interest (nv w') c'"
      using r(2) by (simp_all add: send_post_def flow_def unsent_def)
    have "session_inv reg (nv w') c' pool0 pool (ms @ []) (resps @ responses [ev])" if ok
      unfolding session_inv_def Response using that f inv assms(2) by (simp add: in_step_def tasks_of_def)
    then show ?thesis using r(1) Response f(4,5)
      by (intro exI [of _ ok] exI [of _ c'] exI [of _ pool] exI [of _ w'] conjI impI exI [of _ "[]"])
        (simp_all add: conn_step_def)
  qed
qed

lemma conn_run_inv:
  assumes "session_inv reg (nv w) c pool0 pool ms resps" "reg \<longrightarrow> ctl_works net"
  shows "\<exists>ok c' pool' w'. conn_run net c pool evs w = Some (ok, c', pool', w') \<and> cn_fd c' = cn_fd c \<and> cn_id c' = cn_id c \<and>
    (ok \<longrightarrow> (\<exists>new. session_inv reg (nv w') c' pool0 pool' (ms @ new) (resps @ responses evs)))"
  using assms(1)
proof (induction evs arbitrary: w c pool ms resps)
  case Nil
  then show ?case by simp (metis append_Nil2)
next
  case (Cons ev evs)
  obtain ok c1 pool1 w1 where s: "conn_step net c pool ev w = Some (ok, c1, pool1, w1)" "cn_fd c1 = cn_fd c" "cn_id c1 = cn_id c"
    "ok \<longrightarrow> (\<exists>new. session_inv reg (nv w1) c1 pool0 pool1 (ms @ new) (resps @ responses [ev]))"
    using conn_step_inv [OF Cons.prems assms(2), of ev] by blast
  have resp: "responses (ev # evs) = responses [ev] @ responses evs" by (cases ev) simp_all
  show ?case
  proof (cases ok)
    case False
    then show ?thesis using s by auto
  next
    case True
    then obtain new where "session_inv reg (nv w1) c1 pool0 pool1 (ms @ new) (resps @ responses [ev])"
      using s(4) by blast
    from Cons.IH [OF this] show ?thesis using s True resp by auto
  qed
qed

end

lemma session_start:
  assumes "nv_sent v fd = []" "nv_rcvd v fd = []"
  shows "session_inv False v (connection_new epfd fd conn_id) pool pool [] []"
  using assms feed_inv_init
  by (simp add: session_inv_def connection_new_def conn_inv_def unsent_def in_step_def tasks_of_def)
    (simp add: pending_def messagedecode_init_def)

section \<open>Properties\<close>

text \<open>\<open>handwrite\<close> always returns, and never by running off its end: it moves bytes from
  the front of the buffer to the wire and nothing else, keeps the position inside the buffer,
  and once the buffer is empty asks for the connection to be closed exactly if the peer has
  closed and no request is in flight.
\<close>

theorem handwrite_returns:
  assumes "net_contract net nv" "conn_inv c"
  shows "\<exists>ok c' w'. handwrite net c w = Some (Some ok, c', w') \<and> conn_inv c' \<and>
    nv_sent (nv w') (cn_fd c) @ drop (cn_idx c') (cn_Outbuffer c') =
      nv_sent (nv w) (cn_fd c) @ drop (cn_idx c) (cn_Outbuffer c) \<and>
    (\<forall>fd. fd \<noteq> cn_fd c \<longrightarrow> nv_sent (nv w') fd = nv_sent (nv w) fd) \<and>
    (cn_Outbuffer c' = [] \<longrightarrow> ok = (\<not> (cn_peer_close c \<and> cn_inflight c = 0)))"
proof -
  obtain ok c' w' where "handwrite net c w = Some (Some ok, c', w')" "conn_inv c'"
    "flow (ctl_works net) (nv w) c [] (nv w') c'"
    "cn_Outbuffer c' = [] \<longrightarrow> ok = (\<not> (cn_peer_close c \<and> cn_inflight c = 0))"
    using net_contract.handwrite_result [OF assms] by blast
  then show ?thesis
    by (intro exI [of _ ok] exI [of _ c'] exI [of _ w']) (simp add: flow_def unsent_def)
qed

theorem handwrite_returns_witness:
  "\<exists>ok c' w'. handwrite mnet_os ((connection_new 3 7 1)\<lparr>cn_Outbuffer := [1, 2, 3]\<rparr>)
      (mn_init [] [SPart 1, SErr EAGAIN] []) = Some (Some ok, c', w') \<and> conn_inv c' \<and>
    nv_sent (mn_view w') 7 @ drop (cn_idx c') (cn_Outbuffer c') = [1, 2, 3]"
proof -
  let ?c = "(connection_new 3 7 1)\<lparr>cn_Outbuffer := [1, 2, 3]\<rparr>"
  have c: "conn_inv ?c" "cn_fd ?c = 7" "cn_idx ?c = 0" "cn_Outbuffer ?c = [1, 2, 3]"
    using feed_inv_init by (simp_all add: conn_inv_def connection_new_def)
  have "nv_sent (mn_view (mn_init [] [SPart 1, SErr EAGAIN] [])) 7 = []" by (simp add: mn_init_def)
  with handwrite_returns [OF mnet_contract c(1), of "mn_init [] [SPart 1, SErr EAGAIN] []", unfolded c(2-4)]
  show ?thesis by auto
qed

text \<open>No connection goes deaf. If \<open>epoll_ctl\<close> succeeds, then after any sequence of
  events on a connection that was registered for input, as long as it is not to be closed, it
  is registered for output while its buffer holds bytes, and for input until the peer has closed.
\<close>

theorem connection_registered:
  assumes "net_contract_finite net nv budget" "ctl_works net"
    and "nv_sent (nv w) fd = []" "nv_rcvd (nv w) fd = []" "nv_events (nv w) fd = Some (EPOLLIN OR EPOLLRDHUP)"
    and "conn_run net (connection_new epfd fd conn_id) pool evs w = Some (True, c, pool', w')"
  shows "\<exists>e. nv_events (nv w') fd = Some e \<and> (cn_Outbuffer c \<noteq> [] \<longrightarrow> e AND EPOLLOUT \<noteq> 0) \<and>
    (\<not> cn_peer_close c \<longrightarrow> e AND EPOLLIN \<noteq> 0)"
proof -
  have "session_inv True (nv w) (connection_new epfd fd conn_id) pool pool [] []"
    using session_start [OF assms(3,4), of epfd conn_id pool] assms(5)
    by (auto simp: session_inv_def interest_def) (simp_all add: connection_new_def)
  from net_contract_finite.conn_run_inv [OF assms(1) this, of evs] assms(2,6)
  show ?thesis by (auto simp: session_inv_def interest_def) (auto simp: connection_new_def)
qed

theorem connection_registered_witness:
  "\<exists>c pool' w' e. conn_run mnet_os (connection_new 3 7 1) (pool_new 2) [Response [5]]
      ((mn_init [] [SPart 2] [])\<lparr>mn_view := (mn_view (mn_init [] [SPart 2] []))\<lparr>nv_events := [7 \<mapsto> EPOLLIN OR EPOLLRDHUP]\<rparr>\<rparr>)
        = Some (True, c, pool', w') \<and> cn_Outbuffer c \<noteq> [] \<and> nv_events (mn_view w') 7 = Some e \<and> e AND EPOLLOUT \<noteq> 0"
proof -
  let ?w = "(mn_init [] [SPart 2] [])\<lparr>mn_view := (mn_view (mn_init [] [SPart 2] []))\<lparr>nv_events := [7 \<mapsto> EPOLLIN OR EPOLLRDHUP]\<rparr>\<rparr>"
  have w: "nv_sent (mn_view ?w) 7 = []" "nv_rcvd (mn_view ?w) 7 = []" "nv_events (mn_view ?w) 7 = Some (EPOLLIN OR EPOLLRDHUP)"
    by (simp_all add: mn_init_def)
  have ctl: "ctl_works mnet_os" by (simp add: ctl_works_def mnet_ctl_def)
  obtain c pool' w' where r: "conn_run mnet_os (connection_new 3 7 1) (pool_new 2) [Response [5]] ?w = Some (True, c, pool', w')"
    and c: "cn_Outbuffer c \<noteq> []"
    by (simp add: conn_step_def senddata.simps mnet_eval connection_new_def encode_def)
  from connection_registered [OF mnet_contract_finite ctl w r] c r show ?thesis by blast
qed

end
