(* ===== verification/Net_width.thy ===== *)
theory Net_width
  imports Net_connection
begin

text \<open>
  The \<open>int\<close>s of \<open>src/net/Connection.cpp\<close> at their width. In \<open>Net_connection\<close> the position \<open>idx\<close> in the
  output buffer is a natural number and the result of \<open>send\<close> an unbounded integer; the code keeps
  both in an \<open>int\<close>. Here \<open>handwrite\<close> and \<open>senddata\<close> are written with the conversions; the lemmas show
  that they are the functions of \<open>Net_connection\<close> as long as the bytes in the buffer are fewer than
  \<open>2^31\<close>, and what happens beyond. The property about a whole session is stated for both.
\<close>

section \<open>The conversions\<close>

text \<open>The conversion of a wider integer to \<open>int\<close>.\<close>

definition to_int :: "int \<Rightarrow> int" where
  "to_int x = signed_take_bit 31 x"

lemma to_int_id: "- (2 ^ 31) \<le> x \<Longrightarrow> x < 2 ^ 31 \<Longrightarrow> to_int x = x"
  by (simp add: to_int_def signed_take_bit_int_eq_self)

lemma to_int_simps [simp]: "to_int (-1) = -1"
  by (rule to_int_id) simp_all

lemma to_int_wraps: "2 ^ 31 \<le> x \<Longrightarrow> x < 2 ^ 32 \<Longrightarrow> to_int x < 0"
  using signed_take_bit_int_less_self_iff [of 31 x] by (simp add: to_int_def signed_take_bit_int_greater_eq_self_iff signed_take_bit_eq_take_bit_minus take_bit_int_eq_self bit_iff_odd)

text \<open>A negative \<open>idx\<close> is converted to \<open>size_t\<close> by the loop's condition and is above any size: the loop
  ends, and so does the function, without a result.\<close>

partial_function (option) handwrite_loop_int ::
  "'w net_os \<Rightarrow> connection \<Rightarrow> 'w \<Rightarrow> (bool option \<times> connection \<times> 'w) option" where
  "handwrite_loop_int net c w =
     (if \<not> cn_idx c < length (cn_Outbuffer c) then Some (None, c, w)
      else case net_send net (cn_fd c) (drop (cn_idx c) (cn_Outbuffer c)) w of (n, w1) \<Rightarrow>
        if n = int (length (cn_Outbuffer c)) - int (cn_idx c)
        then let c = c\<lparr>cn_idx := 0, cn_Outbuffer := []\<rparr>
          in if cn_peer_close c \<and> cn_inflight c = 0 then Some (Some False, c, w1)
             else if cn_peer_close c then Some (Some True, c, set_event net c 0 w1)
             else Some (Some True, c, set_event net c EPOLLIN w1)
        else if n = -1
        then if net_errno net w1 = EAGAIN \<or> net_errno net w1 = EWOULDBLOCK \<or> net_errno net w1 = EINTR
             then Some (Some True, c, w1) else Some (Some False, c, w1)
        else if n < int (length (cn_Outbuffer c)) - int (cn_idx c)
        then let idx = to_int (int (cn_idx c) + n)
          in if idx < 0 then Some (None, c, w1) else handwrite_loop_int net (c\<lparr>cn_idx := nat idx\<rparr>) w1
        else handwrite_loop_int net c w1)"

definition handwrite_int :: "'w net_os \<Rightarrow> connection \<Rightarrow> 'w \<Rightarrow> (bool option \<times> connection \<times> 'w) option" where
  "handwrite_int net c w =
     (if cn_Outbuffer c = [] then Some (Some (\<not> (cn_peer_close c \<and> cn_inflight c = 0)), c, w)
      else handwrite_loop_int net c w)"

text \<open>A negative \<open>achieve\<close> other than \<open>-1\<close> would be added to \<open>data.begin()\<close>, which is undefined: the
  inner \<open>None\<close>.\<close>

partial_function (option) senddata_int ::
  "'w net_os \<Rightarrow> connection \<Rightarrow> bytes \<Rightarrow> 'w \<Rightarrow> (bool option \<times> connection \<times> 'w) option" where
  "senddata_int net c accept w =
     (let data = encode accept in
      if cn_Outbuffer c \<noteq> []
      then let c = c\<lparr>cn_Outbuffer := cn_Outbuffer c @ data\<rparr>
        in Some (Some True, c, set_event net c (EPOLLIN OR EPOLLOUT) w)
      else case net_send net (cn_fd c) data w of (n, w1) \<Rightarrow>
        let achieve = to_int n in
        if achieve = to_int (int (length data)) then Some (Some True, c, w1)
        else if achieve = -1
        then if net_errno net w1 = EAGAIN \<or> net_errno net w1 = EWOULDBLOCK
             then let c = c\<lparr>cn_Outbuffer := cn_Outbuffer c @ data\<rparr>
               in Some (Some True, c, set_event net c (EPOLLIN OR EPOLLOUT) w1)
             else if net_errno net w1 = EINTR then senddata_int net c accept w1
             else Some (Some False, c\<lparr>cn_closed := True\<rparr>, w1)
        else if achieve < 0 then Some (None, c, w1)
        else let c = c\<lparr>cn_Outbuffer := cn_Outbuffer c @ drop (nat achieve) data\<rparr>
          in Some (Some True, c, set_event net c (EPOLLIN OR EPOLLOUT) w1))"

definition conn_step_int :: "'w net_os \<Rightarrow> connection \<Rightarrow> task pool \<Rightarrow> conn_event \<Rightarrow> 'w \<Rightarrow>
  (bool \<times> connection \<times> task pool \<times> 'w) option" where
  "conn_step_int net c pool ev w = (case ev of
     Readable \<Rightarrow> handreadable net c pool w
   | Writable \<Rightarrow> (case handwrite_int net c w of Some (Some ok, c, w) \<Rightarrow> Some (ok, c, pool, w) | _ \<Rightarrow> None)
   | Response resp \<Rightarrow> (case senddata_int net (c\<lparr>cn_inflight := cn_inflight c - 1\<rparr>) resp w of
       Some (Some ok, c, w) \<Rightarrow> Some (ok, c, pool, w) | _ \<Rightarrow> None))"

fun conn_run_int :: "'w net_os \<Rightarrow> connection \<Rightarrow> task pool \<Rightarrow> conn_event list \<Rightarrow> 'w \<Rightarrow>
  (bool \<times> connection \<times> task pool \<times> 'w) option" where
  "conn_run_int net c pool [] w = Some (True, c, pool, w)"
| "conn_run_int net c pool (ev # evs) w = (case conn_step_int net c pool ev w of
     None \<Rightarrow> None
   | Some (ok, c, pool, w) \<Rightarrow> if ok then conn_run_int net c pool evs w else Some (False, c, pool, w))"

section \<open>Below two gibibytes the width does not matter\<close>

context net_contract
begin

lemma handwrite_loop_width:
  assumes "cn_idx c < length (cn_Outbuffer c)" "length (cn_Outbuffer c) < 2 ^ 31"
  shows "handwrite_loop_int net c w = handwrite_loop net c w \<and>
    (\<forall>res c' w'. handwrite_loop net c w = Some (res, c', w') \<longrightarrow> cn_Outbuffer c' = cn_Outbuffer c \<or> cn_Outbuffer c' = [])"
  using assms
proof (induction "length (cn_Outbuffer c) - cn_idx c" arbitrary: c w rule: less_induct)
  case less
  let ?d = "drop (cn_idx c) (cn_Outbuffer c)"
  obtain n w1 where sd: "net_send net (cn_fd c) ?d w = (n, w1)" by fastforce
  have d: "?d \<noteq> []" "int (length ?d) = int (length (cn_Outbuffer c)) - int (cn_idx c)" using less.prems(1) by auto
  note loops = handwrite_loop_int.simps [of net c w] handwrite_loop.simps [of net c w]
  show ?case
  proof (cases "n = -1 \<or> n = int (length (cn_Outbuffer c)) - int (cn_idx c)")
    case True
    then show ?thesis using loops sd less.prems(1) by (auto simp: Let_def split: if_splits)
  next
    case False
    then have n: "0 < n" "n < int (length (cn_Outbuffer c)) - int (cn_idx c)" using send_flow [OF sd d(1)] d(2) by linarith+
    let ?c = "c\<lparr>cn_idx := nat (int (cn_idx c) + n)\<rparr>"
    have i: "to_int (int (cn_idx c) + n) = int (cn_idx c) + n" by (intro to_int_id) (use n less.prems(2) in simp_all)
    have l: "handwrite_loop_int net c w = handwrite_loop_int net ?c w1" "handwrite_loop net c w = handwrite_loop net ?c w1"
      using loops sd less.prems(1) False n i by (simp_all add: Let_def)
    have "length (cn_Outbuffer ?c) - cn_idx ?c < length (cn_Outbuffer c) - cn_idx c" "cn_idx ?c < length (cn_Outbuffer ?c)"
      "length (cn_Outbuffer ?c) < 2 ^ 31" using n less.prems by auto
    from less.hyps [OF this, of w1] show ?thesis unfolding l by simp
  qed
qed

lemma handwrite_width:
  assumes "conn_inv c" "length (cn_Outbuffer c) < 2 ^ 31"
  shows "handwrite_int net c w = handwrite net c w \<and>
    (\<forall>res c' w'. handwrite net c w = Some (res, c', w') \<longrightarrow> length (cn_Outbuffer c') \<le> length (cn_Outbuffer c))"
proof (cases "cn_Outbuffer c = []")
  case True
  then show ?thesis by (simp add: handwrite_int_def handwrite_def)
next
  case False
  then have "cn_idx c < length (cn_Outbuffer c)" using assms(1) by (simp add: conn_inv_def)
  from handwrite_loop_width [OF this assms(2), of w] False show ?thesis
    by (auto simp: handwrite_int_def handwrite_def)
qed

end

context net_contract_finite
begin

lemma senddata_width:
  assumes "length (encode m) < 2 ^ 31"
  shows "senddata_int net c m w = map_option (\<lambda>(ok, c, w). (Some ok, c, w)) (senddata net c m w) \<and>
    (\<forall>ok c' w'. senddata net c m w = Some (ok, c', w') \<longrightarrow> length (cn_Outbuffer c') \<le> length (cn_Outbuffer c) + length (encode m))"
proof (induction "budget w" arbitrary: w rule: less_induct)
  case less
  obtain n w1 where sd: "net_send net (cn_fd c) (encode m) w = (n, w1)" by fastforce
  note defs = senddata_int.simps [of net c m w] senddata.simps [of net c m w]
  have n: "n = -1 \<or> 0 < n \<and> n \<le> int (length (encode m))" using send_flow [OF sd] by auto
  then have i: "to_int n = n" "to_int (int (length (encode m))) = int (length (encode m))" using assms by (auto intro!: to_int_id)
  show ?case
  proof (cases "cn_Outbuffer c = [] \<and> n = -1 \<and> net_errno net w1 = EINTR")
    case True
    then have "senddata_int net c m w = senddata_int net c m w1" "senddata net c m w = senddata net c m w1"
      using defs sd i by (simp_all add: Let_def)
    then show ?thesis using less send_budget [of "cn_fd c" "encode m" w w1] sd True by simp
  next
    case False
    then show ?thesis using defs sd n i by (auto simp: Let_def)
  qed
qed

lemma conn_step_width:
  assumes "session_inv reg (nv w) c pool0 pool ms resps"
    "length (cn_Outbuffer c) + length (concat (map encode (responses [ev]))) < 2 ^ 31"
  shows "conn_step_int net c pool ev w = conn_step net c pool ev w \<and>
    (\<forall>ok c' pool' w'. conn_step net c pool ev w = Some (ok, c', pool', w') \<longrightarrow>
      length (cn_Outbuffer c') \<le> length (cn_Outbuffer c) + length (concat (map encode (responses [ev]))))"
proof (cases ev)
  case Readable
  have "in_step c (nv_rcvd (nv w) (cn_fd c)) ms" using assms(1) by (simp add: session_inv_def)
  from handreadable_result [OF this, of pool] show ?thesis
    using Readable by (auto simp: conn_step_def conn_step_int_def read_post_def)
next
  case Writable
  have "conn_inv c" "length (cn_Outbuffer c) < 2 ^ 31" using assms by (simp_all add: session_inv_def)
  from handwrite_width [OF this, of w] show ?thesis
    using Writable by (auto simp: conn_step_def conn_step_int_def split: option.splits)
next
  case (Response resp)
  then have "length (encode resp) < 2 ^ 31" using assms(2) by simp
  from senddata_width [OF this, of "c\<lparr>cn_inflight := cn_inflight c - 1\<rparr>" w] show ?thesis
    using Response by (auto simp: conn_step_def conn_step_int_def split: option.splits)
qed

lemma responses_Cons: "responses (ev # evs) = responses [ev] @ responses evs"
  by (cases ev) simp_all

lemma conn_run_width:
  assumes "session_inv False (nv w) c pool0 pool ms resps"
    "length (cn_Outbuffer c) + length (concat (map encode (responses evs))) < 2 ^ 31"
  shows "conn_run_int net c pool evs w = conn_run net c pool evs w"
  using assms
proof (induction evs arbitrary: w c pool ms resps)
  case (Cons ev evs)
  have len: "length (cn_Outbuffer c) + length (concat (map encode (responses [ev]))) + length (concat (map encode (responses evs))) < 2 ^ 31"
    using Cons.prems(2) by (simp add: responses_Cons [of ev evs])
  obtain ok c1 pool1 w1 where s: "conn_step net c pool ev w = Some (ok, c1, pool1, w1)"
    "ok \<longrightarrow> (\<exists>new. session_inv False (nv w1) c1 pool0 pool1 (ms @ new) (resps @ responses [ev]))"
    using conn_step_inv [OF Cons.prems(1), of ev] by blast
  have st: "conn_step_int net c pool ev w = conn_step net c pool ev w"
    "length (cn_Outbuffer c1) \<le> length (cn_Outbuffer c) + length (concat (map encode (responses [ev])))"
    using conn_step_width [OF Cons.prems(1), of ev] len s(1) by auto
  show ?case
  proof (cases ok)
    case True
    then obtain new where "session_inv False (nv w1) c1 pool0 pool1 (ms @ new) (resps @ responses [ev])" using s(2) by blast
    from Cons.IH [OF this] show ?thesis using st s(1) True len by simp
  qed (use st s(1) in simp)
qed simp

end

section \<open>Beyond\<close>

text \<open>Once \<open>idx\<close> passes \<open>2^31\<close>, \<open>handwrite\<close> runs off its end: a connection whose client reads slowly
  and whose buffer holds more than two gibibytes has no defined behaviour.\<close>

theorem handwrite_overflow:
  assumes "cn_idx c < length (cn_Outbuffer c)" "net_send net (cn_fd c) (drop (cn_idx c) (cn_Outbuffer c)) w = (n, w')"
    and "0 < n" "n < int (length (cn_Outbuffer c)) - int (cn_idx c)" "2 ^ 31 \<le> int (cn_idx c) + n" "int (cn_idx c) + n < 2 ^ 32"
  shows "handwrite_int net c w = Some (None, c, w')"
proof -
  have "cn_Outbuffer c \<noteq> []" using assms(1) by auto
  then show ?thesis
    using assms to_int_wraps [OF assms(5,6)] by (simp add: handwrite_int_def handwrite_loop_int.simps [of net c w] Let_def)
qed

theorem handwrite_overflow_witness:
  "\<exists>w'. handwrite_int mnet_os ((connection_new 3 7 1)\<lparr>cn_Outbuffer := replicate (2 ^ 31 + 1) 0, cn_idx := 2 ^ 31 - 1\<rparr>)
     (mn_init [] [SPart 1] []) =
   Some (None, (connection_new 3 7 1)\<lparr>cn_Outbuffer := replicate (2 ^ 31 + 1) 0, cn_idx := 2 ^ 31 - 1\<rparr>, w')"
proof -
  let ?c = "(connection_new 3 7 1)\<lparr>cn_Outbuffer := replicate (2 ^ 31 + 1) 0, cn_idx := 2 ^ 31 - 1\<rparr>"
  have c: "cn_fd ?c = 7" "cn_idx ?c = 2 ^ 31 - 1" "cn_Outbuffer ?c = replicate (2 ^ 31 + 1) 0" by (simp_all add: connection_new_def)
  obtain w' where "net_send mnet_os 7 (drop (2 ^ 31 - 1) (replicate (2 ^ 31 + 1) 0)) (mn_init [] [SPart 1] []) = (1, w')"
    by (simp add: mnet_send_def mn_init_def drop_replicate Let_def)
  then show ?thesis using handwrite_overflow [of ?c mnet_os "mn_init [] [SPart 1] []" 1 w'] unfolding c by auto
qed

section \<open>Properties\<close>

text \<open>Property C25. One connection, both directions. For any sequence of events (readable, writable,
  a response ready) and any answers of the kernel (short sends, full buffers, interruptions) in which the
  data that arrive and the interruptions are finite (a peer that never stops sending keeps \<open>handreadable\<close> in
  its loop), every call returns, and as long as none asks for the connection to be closed: the bytes on the
  wire followed by those in the buffer are the encodings of the responses in order; the requests
  submitted to the pool are the frames of the bytes received, in order, each once; and
  \<open>inflight\<close> is the number of requests minus responses. If the responses are fewer than \<open>2^31\<close> bytes, all of
  this holds with \<open>idx\<close> and the result of \<open>send\<close> kept in an \<open>int\<close>, as the code does.
\<close>

theorem connection_session:
  assumes "net_contract_finite net nv budget"
    and "nv_sent (nv w) fd = []" "nv_rcvd (nv w) fd = []"
  shows "\<exists>ok c pool' w'. conn_run net (connection_new epfd fd conn_id) pool evs w = Some (ok, c, pool', w') \<and>
    (ok \<longrightarrow> nv_sent (nv w') fd @ drop (cn_idx c) (cn_Outbuffer c) = concat (map encode (responses evs)) \<and>
      (\<exists>ms rest. parse (nv_rcvd (nv w') fd) = (ms, rest, False) \<and>
        pool' = foldl submit pool (map (\<lambda>m. \<lparr>tk_fd = fd, tk_id = conn_id, tk_msg = m\<rparr>) ms) \<and>
        cn_inflight c = int (length ms) - int (length (responses evs)))) \<and>
    (length (concat (map encode (responses evs))) < 2 ^ 31 \<longrightarrow>
      conn_run_int net (connection_new epfd fd conn_id) pool evs w = Some (ok, c, pool', w'))"
proof -
  let ?c = "connection_new epfd fd conn_id"
  have inv: "session_inv False (nv w) ?c pool pool [] []"
    using session_start [OF assms(2,3)] .
  have "cn_Outbuffer ?c = []" by (simp add: connection_new_def)
  then have "length (concat (map encode (responses evs))) < 2 ^ 31 \<longrightarrow> conn_run_int net ?c pool evs w = conn_run net ?c pool evs w"
    using net_contract_finite.conn_run_width [OF assms(1) inv, of evs] by simp
  with net_contract_finite.conn_run_inv [OF assms(1) inv, of evs] show ?thesis
    by (auto simp: session_inv_def in_step_def unsent_def tasks_of_def) (auto simp: connection_new_def)
qed

theorem connection_session_witness:
  "\<exists>ok c pool' w'. conn_run_int mnet_os (connection_new 3 7 1) (pool_new 2) [Readable, Response [5], Writable]
      (mn_init [RData (encode [1, 2])] [SPart 2] []) = Some (ok, c, pool', w') \<and>
    (ok \<longrightarrow> nv_sent (mn_view w') 7 @ drop (cn_idx c) (cn_Outbuffer c) = encode [5])"
proof -
  let ?w = "mn_init [RData (encode [1, 2])] [SPart 2] []"
  have w: "nv_sent (mn_view ?w) 7 = []" "nv_rcvd (mn_view ?w) 7 = []" by (simp_all add: mn_init_def)
  have "length (encode [5]) < 2 ^ 31" by (simp add: encode_def be32_def)
  with connection_session [OF mnet_contract_finite w, of 3 1 "pool_new 2" "[Readable, Response [5], Writable]"]
  show ?thesis by auto
qed

end
