(* ===== verification/Epoll.thy ===== *)
theory Epoll
  imports Net_connection
begin

text \<open>
  The event loop of \<open>src/Epoll.cpp\<close> and \<open>include/Epoll.h\<close>: it accepts connections, hands
  readable and writable sockets to their \<open>Connection\<close>, sends the responses the workers left in
  the \<open>Donequeue\<close>, and shuts down after a signal.

  The state is one record; \<open>unordered_map\<close> is an association list with distinct keys (nothing
  depends on its order). Other threads act on the pool, the queue and the flag \<open>stopping\<close>
  while the loop waits: \<open>epoll_wait\<close> is a parameter that also returns what they did, and the
  relation \<open>ep_step\<close> of \<open>Epoll_safety\<close> interleaves the handlers of the loop with the workers.
  The request handler is a parameter; \<open>None\<close> is an exception, which \<open>workerLoop\<close> swallows.
  The invariants are in \<open>Epoll_inv\<close>, the properties in \<open>Epoll_safety\<close>.
\<close>

section \<open>State\<close>

record epoll =
  ep_done :: donequeue
  ep_pool :: "task pool"
  ep_stopping :: bool
  ep_idle_fd :: int
  ep_epfd :: int
  ep_m_listen :: int
  ep_status :: "(int \<times> connection) list"
  ep_conn_id :: u64

definition st_put :: "int \<Rightarrow> connection \<Rightarrow> (int \<times> connection) list \<Rightarrow> (int \<times> connection) list" where
  "st_put fd c st = map (\<lambda>(k, v). if k = fd then (k, c) else (k, v)) st"

definition st_emplace :: "int \<Rightarrow> connection \<Rightarrow> (int \<times> connection) list \<Rightarrow> (int \<times> connection) list" where
  "st_emplace fd c st = (if fd \<in> fst ` set st then st else st @ [(fd, c)])"

definition st_erase :: "int \<Rightarrow> (int \<times> connection) list \<Rightarrow> (int \<times> connection) list" where
  "st_erase fd st = filter (\<lambda>(k, v). k \<noteq> fd) st"

text \<open>The constructor: the members \<open>done\<close> and \<open>epoll_poll(4)\<close>, then the spare descriptor. The
  destructor closes the listening socket and the epoll descriptor, and the members: the pool is
  stopped before the queue is destroyed. The spare descriptor is not closed.\<close>

definition epoll_new :: "'w net_os \<Rightarrow> 'w \<Rightarrow> epoll \<times> 'w" where
  "epoll_new net w = (case dq_new net w of (done, w1) \<Rightarrow> case net_devnull net w1 of (idle_fd, w2) \<Rightarrow>
     (\<lparr>ep_done = done, ep_pool = pool_new 4, ep_stopping = False, ep_idle_fd = idle_fd, ep_epfd = -1,
       ep_m_listen = -1, ep_status = [], ep_conn_id = 0\<rparr>, w2))"

definition epoll_destroy :: "'w net_os \<Rightarrow> epoll \<Rightarrow> 'w \<Rightarrow> epoll \<times> 'w" where
  "epoll_destroy net e w =
     (let w = (if ep_m_listen e > 0 then snd (net_close net (ep_m_listen e) w) else w);
          w = (if ep_epfd e > 0 then snd (net_close net (ep_epfd e) w) else w);
          e = e\<lparr>ep_pool := pool_notify_all (pool_stop (ep_pool e))\<rparr>
      in (e, dq_destroy net (ep_done e) w))"

section \<open>Sockets\<close>

definition set_nonblocking :: "'w net_os \<Rightarrow> int \<Rightarrow> 'w \<Rightarrow> int \<times> 'w" where
  "set_nonblocking net fd w = (case net_getfl net fd w of (flags, w1) \<Rightarrow>
     if flags = -1 then (-1, w1)
     else case net_setfl net fd w1 of (r, w2) \<Rightarrow> if r = -1 then (-1, w2) else (0, w2))"

text \<open>The two options \<open>SO_REUSEADDR\<close> and \<open>SO_REUSEPORT\<close>: their failure is not an error.\<close>

definition create_fd :: "'w net_os \<Rightarrow> nat \<Rightarrow> 'w \<Rightarrow> int \<times> 'w" where
  "create_fd net a w = (case net_socket net w of (mlisten, w1) \<Rightarrow>
     if mlisten < 0 then (-1, w1)
     else let w2 = snd (net_setsockopt net mlisten w1); w3 = snd (net_setsockopt net mlisten w2)
       in case net_bind net mlisten a w3 of (b, w4) \<Rightarrow>
         if b < 0 then (-1, snd (net_close net mlisten w4))
         else case net_listen net mlisten 8192 w4 of (l, w5) \<Rightarrow>
           if l < 0 then (-1, snd (net_close net mlisten w5)) else (mlisten, w5))"

section \<open>The handlers\<close>

definition onclose :: "'w net_os \<Rightarrow> epoll \<Rightarrow> int \<Rightarrow> 'w \<Rightarrow> epoll \<times> 'w" where
  "onclose net e fd w =
     (let w1 = snd (net_ctl net (ep_epfd e) CTL_DEL fd 0 w)
      in (e\<lparr>ep_status := st_erase fd (ep_status e)\<rparr>, snd (net_close net fd w1)))"

text \<open>One turn of the loop of \<open>onaccept\<close>: whether it goes on.\<close>

definition accept_one :: "'w net_os \<Rightarrow> epoll \<Rightarrow> 'w \<Rightarrow> bool \<times> epoll \<times> 'w" where
  "accept_one net e w = (case net_accept net (ep_m_listen e) w of (client, w1) \<Rightarrow>
     if client < 0
     then if net_errno net w1 = EAGAIN \<or> net_errno net w1 = EWOULDBLOCK then (False, e, w1)
          else if net_errno net w1 = EMFILE \<or> net_errno net w1 = ENFILE
          then let w2 = snd (net_close net (ep_idle_fd e) w1)
            in case net_accept net (ep_m_listen e) w2 of (client2, w3) \<Rightarrow>
              let w4 = snd (net_close net client2 w3)
              in case net_devnull net w4 of (idle_fd, w5) \<Rightarrow> (False, e\<lparr>ep_idle_fd := idle_fd\<rparr>, w5)
          else (False, e, w1)
     else let w2 = snd (net_setsockopt net client w1)
       in case set_nonblocking net client w2 of (r, w3) \<Rightarrow>
         if r = -1 then (False, e, snd (net_close net client w3))
         else let w4 = snd (net_ctl net (ep_epfd e) CTL_ADD client (EPOLLIN OR EPOLLRDHUP) w3);
                  e = e\<lparr>ep_conn_id := ep_conn_id e + 1\<rparr>
           in (True, e\<lparr>ep_status := st_emplace client (connection_new (ep_epfd e) client (ep_conn_id e)) (ep_status e)\<rparr>, w4))"

partial_function (option) onaccept :: "'w net_os \<Rightarrow> epoll \<Rightarrow> int \<Rightarrow> 'w \<Rightarrow> (epoll \<times> 'w) option" where
  "onaccept net e fd w =
     (if fd < 0 then Some (e, w)
      else case accept_one net e w of (again, e, w) \<Rightarrow> if again then onaccept net e fd w else Some (e, w))"

text \<open>The loop over the drained responses.\<close>

fun done_loop :: "'w net_os \<Rightarrow> epoll \<Rightarrow> done_item list \<Rightarrow> 'w \<Rightarrow> (epoll \<times> 'w) option" where
  "done_loop net e [] w = Some (e, w)"
| "done_loop net e (item # items) w = (case map_of (ep_status e) (di_fd item) of
     None \<Rightarrow> done_loop net e items w
   | Some con \<Rightarrow>
       if cn_id con \<noteq> di_id item then done_loop net e items w
       else case senddata net (con\<lparr>cn_inflight := cn_inflight con - 1\<rparr>) (di_resp item) w of
         None \<Rightarrow> None
       | Some (ok, con, w) \<Rightarrow>
           let e = e\<lparr>ep_status := st_put (di_fd item) con (ep_status e)\<rparr>
           in if \<not> ok \<or> (cn_peer_close con \<and> cn_Outbuffer con = [] \<and> cn_inflight con = 0)
              then case onclose net e (di_fd item) w of (e, w) \<Rightarrow> done_loop net e items w
              else done_loop net e items w)"

definition ondone :: "'w net_os \<Rightarrow> epoll \<Rightarrow> 'w \<Rightarrow> (epoll \<times> 'w) option" where
  "ondone net e w = (case net_read net (dq_fd (ep_done e)) w of (n, got, w1) \<Rightarrow>
     case dq_drain (ep_done e) of (items, q) \<Rightarrow> done_loop net (e\<lparr>ep_done := q\<rparr>) items w1)"

text \<open>The result of a handler of the connection is stored back (the code works on a reference);
  on \<open>false\<close> the connection is closed.\<close>

definition close_unless :: "'w net_os \<Rightarrow> epoll \<Rightarrow> int \<Rightarrow> bool \<Rightarrow> connection \<Rightarrow> 'w \<Rightarrow> epoll \<times> 'w" where
  "close_unless net e fd ok con w =
     (let e = e\<lparr>ep_status := st_put fd con (ep_status e)\<rparr>
      in if \<not> ok then onclose net e fd w else (e, w))"

definition addevent :: "'w net_os \<Rightarrow> epoll \<Rightarrow> int \<Rightarrow> u32 \<Rightarrow> 'w \<Rightarrow> (epoll \<times> 'w) option" where
  "addevent net e fd event w =
     (if fd = dq_fd (ep_done e) then ondone net e w
      else if fd = ep_m_listen e then onaccept net e fd w
      else case map_of (ep_status e) fd of
        None \<Rightarrow> Some (e, w)
      | Some con \<Rightarrow>
          let write = (\<lambda>w. case handwrite net con w of Some (Some ok, con, w) \<Rightarrow> Some (close_unless net e fd ok con w) | _ \<Rightarrow> None)
          in if ep_stopping e then if event AND EPOLLOUT \<noteq> 0 then write w else Some (e, w)
             else if event AND (EPOLLERR OR EPOLLHUP) \<noteq> 0 then Some (onclose net e fd w)
             else if event AND EPOLLIN \<noteq> 0
             then case handreadable net con (ep_pool e) w of
                 None \<Rightarrow> None
               | Some (ok, con, pool, w) \<Rightarrow> Some (close_unless net (e\<lparr>ep_pool := pool\<rparr>) fd ok con w)
             else if event AND (EPOLLIN OR EPOLLOUT) \<noteq> 0 then write w
             else Some (e, w))"

section \<open>The loop\<close>

text \<open>The events of one \<open>epoll_wait\<close>.\<close>

fun handle_events :: "'w net_os \<Rightarrow> epoll \<Rightarrow> (int \<times> u32) list \<Rightarrow> 'w \<Rightarrow> (epoll \<times> 'w) option" where
  "handle_events net e [] w = Some (e, w)"
| "handle_events net e ((fd, event_flags) # evs) w =
     (if fd = ep_m_listen e \<or> map_of (ep_status e) fd \<noteq> None \<or> fd = dq_fd (ep_done e)
      then case addevent net e fd event_flags w of None \<Rightarrow> None | Some (e, w) \<Rightarrow> handle_events net e evs w
      else handle_events net e evs w)"

text \<open>\<open>epoll_wait\<close> with a timeout in milliseconds: its result, the events, and the state after
  the other threads ran; a clock in milliseconds.\<close>

record 'w waiter =
  wt_wait :: "epoll \<Rightarrow> int \<Rightarrow> 'w \<Rightarrow> int \<times> (int \<times> u32) list \<times> epoll \<times> 'w"
  wt_now :: "'w \<Rightarrow> int \<times> 'w"

partial_function (option) drain_loop :: "'w net_os \<Rightarrow> 'w waiter \<Rightarrow> int \<Rightarrow> epoll \<Rightarrow> 'w \<Rightarrow> (epoll \<times> 'w) option" where
  "drain_loop net wt deadline e w =
     (let all_pass = list_all (\<lambda>(k, c). \<not> cn_inflight c > 0) (ep_status e)
      in case (if all_pass then (0, w) else wt_now wt w) of (now, w1) \<Rightarrow>
        if all_pass \<or> deadline < now then Some (e, w1)
        else case wt_wait wt e 100 w1 of (npfd, evs, e, w2) \<Rightarrow>
          case handle_events net e (take (nat npfd) evs) w2 of None \<Rightarrow> None
          | Some (e, w3) \<Rightarrow> drain_loop net wt deadline e w3)"

partial_function (option) event_loop :: "'w net_os \<Rightarrow> 'w waiter \<Rightarrow> epoll \<Rightarrow> 'w \<Rightarrow> (epoll \<times> 'w) option" where
  "event_loop net wt e w =
     (if ep_stopping e
      then let w1 = snd (net_close net (ep_m_listen e) w); e = e\<lparr>ep_m_listen := -1\<rparr>
        in case wt_now wt w1 of (now, w2) \<Rightarrow> drain_loop net wt (now + 3000) e w2
      else case wt_wait wt e (-1) w of (nfds, evs, e, w1) \<Rightarrow>
        if nfds < 0 then if net_errno net w1 = EINTR then event_loop net wt e w1 else Some (e, w1)
        else case handle_events net e (take (nat nfds) evs) w1 of None \<Rightarrow> None
          | Some (e, w2) \<Rightarrow> event_loop net wt e w2)"

function close_all :: "'w net_os \<Rightarrow> epoll \<Rightarrow> 'w \<Rightarrow> epoll \<times> 'w" where
  "close_all net e w = (case ep_status e of [] \<Rightarrow> (e, w)
     | (fd, c) # st \<Rightarrow> case onclose net e fd w of (e, w) \<Rightarrow> close_all net e w)"
  by pat_completeness auto
termination
  by (relation "measure (\<lambda>(net, e, w). length (ep_status e))")
    (auto simp: onclose_def Let_def st_erase_def less_Suc_eq_le)

declare close_all.simps [simp del]

text \<open>The part of \<open>start\<close> before the loop (lines 148 to 176), then all of it. A failure
  before the registration leaves the epoll descriptor open.\<close>

definition start_setup :: "'w net_os \<Rightarrow> epoll \<Rightarrow> nat \<Rightarrow> 'w \<Rightarrow> bool \<times> epoll \<times> 'w" where
  "start_setup net e port w = (case net_epoll_create net w of (epfd, w1) \<Rightarrow>
     case create_fd net port w1 of (m_listen, w2) \<Rightarrow>
     let e = e\<lparr>ep_epfd := epfd, ep_m_listen := m_listen\<rparr>
     in if m_listen < 0 \<or> dq_fd (ep_done e) < 0 then (False, e, w2)
        else if epfd < 0 then (False, e, snd (net_close net m_listen (snd (net_close net epfd w2))))
        else case set_nonblocking net m_listen w2 of (r1, w3) \<Rightarrow>
          if r1 = -1 then (False, e, snd (net_close net m_listen w3))
          else case set_nonblocking net (dq_fd (ep_done e)) w3 of (r2, w4) \<Rightarrow>
            if r2 = -1 then (False, e, snd (net_close net m_listen w4))
            else case net_ctl net epfd CTL_ADD m_listen EPOLLIN w4 of (r3, w5) \<Rightarrow>
              if r3 < 0 then (False, e, snd (net_close net epfd (snd (net_close net m_listen w5))))
              else case net_ctl net epfd CTL_ADD (dq_fd (ep_done e)) EPOLLIN w5 of (r4, w6) \<Rightarrow>
                if r4 < 0 then (False, e, snd (net_close net epfd (snd (net_close net m_listen w6))))
                else (True, e, w6))"

text \<open>After the loop.\<close>

definition start_finish :: "'w net_os \<Rightarrow> epoll \<Rightarrow> 'w \<Rightarrow> epoll \<times> 'w" where
  "start_finish net e w = (case close_all net e w of (e, w) \<Rightarrow>
     let w = snd (net_close net (ep_m_listen e) w); w = snd (net_close net (ep_epfd e) w)
     in (e\<lparr>ep_epfd := -1, ep_m_listen := -1\<rparr>, w))"

definition start :: "'w net_os \<Rightarrow> 'w waiter \<Rightarrow> epoll \<Rightarrow> nat \<Rightarrow> 'w \<Rightarrow> (bool \<times> epoll \<times> 'w) option" where
  "start net wt e port w = (case start_setup net e port w of (ok, e, w) \<Rightarrow>
     if \<not> ok then Some (False, e, w)
     else case event_loop net wt e w of None \<Rightarrow> None
       | Some (e, w) \<Rightarrow> case start_finish net e w of (e, w) \<Rightarrow> Some (True, e, w))"

text \<open>The signal handler, for every instance.\<close>

fun on_signal :: "'w net_os \<Rightarrow> epoll list \<Rightarrow> 'w \<Rightarrow> epoll list \<times> 'w" where
  "on_signal net [] w = ([], w)"
| "on_signal net (g # gs) w =
     (let g = g\<lparr>ep_stopping := True\<rparr>; w1 = snd (net_write net (dq_fd (ep_done g)) 1 w)
      in case on_signal net gs w1 of (gs, w2) \<Rightarrow> (g # gs, w2))"

text \<open>The closure submitted by \<open>handreadable\<close>, run by a worker.\<close>

definition run_task :: "'w net_os \<Rightarrow> (bytes \<Rightarrow> bytes option) \<Rightarrow> donequeue \<Rightarrow> task \<Rightarrow> 'w \<Rightarrow> donequeue \<times> 'w" where
  "run_task net handler done t w = (case handler (tk_msg t) of None \<Rightarrow> (done, w)
     | Some resp \<Rightarrow> dq_push net done (tk_fd t) (tk_id t) resp w)"

end
