(* ===== verification/Epoll_inv.thy ===== *)
theory Epoll_inv
  imports Epoll "HOL-Library.Multiset"
begin

text \<open>
  The invariant of the event loop and its preservation by every handler of \<open>src/Epoll.cpp\<close>.
  \<open>loop_inv\<close> says that the table maps distinct descriptors to connections with distinct ids,
  that each is open, in step with the bytes received, registered for what it waits for, and that
  its \<open>inflight\<close> is the number of its requests in the multiset \<open>outstanding\<close> of the requests
  queued, running or answered. The relation \<open>done_post\<close> is the specification of \<open>ondone\<close>:
  per connection, the stream grows by the responses routed to it, or the connection is closed.
\<close>

section \<open>The table of connections\<close>

abbreviation keys :: "epoll \<Rightarrow> int set" where
  "keys e \<equiv> fst ` set (ep_status e)"

abbreviation conn_at :: "epoll \<Rightarrow> int \<Rightarrow> connection option" where
  "conn_at e fd \<equiv> map_of (ep_status e) fd"

lemma map_of_put [simp]: "map_of (st_put fd c st) k = (if k = fd \<and> map_of st fd \<noteq> None then Some c else map_of st k)"
  by (induction st) (auto simp: st_put_def)

lemma keys_put [simp]: "map fst (st_put fd c st) = map fst st"
  by (induction st) (auto simp: st_put_def)

lemma keys_put_set [simp]: "fst ` set (st_put fd c st) = fst ` set st"
  by (metis keys_put list.set_map)

lemma map_of_erase [simp]: "map_of (st_erase fd st) k = (if k = fd then None else map_of st k)"
  by (induction st) (auto simp: st_erase_def)

lemma keys_erase [simp]: "map fst (st_erase fd st) = filter (\<lambda>k. k \<noteq> fd) (map fst st)"
  by (induction st) (auto simp: st_erase_def)

lemma erase_put [simp]: "st_erase fd (st_put fd c st) = st_erase fd st"
  by (induction st) (auto simp: st_erase_def st_put_def)

lemma map_of_emplace: "map_of st fd = None \<Longrightarrow> st_emplace fd c st = st @ [(fd, c)]"
  by (simp add: st_emplace_def map_of_eq_None_iff)

lemma in_set_map_of: "distinct (map fst st) \<Longrightarrow> (k, c) \<in> set st \<longleftrightarrow> map_of st k = Some c"
  by simp

section \<open>Responses\<close>

text \<open>The responses among \<open>items\<close> meant for the connection \<open>cid\<close> on descriptor \<open>fd\<close>.\<close>

definition routed :: "done_item list \<Rightarrow> int \<Rightarrow> u64 \<Rightarrow> bytes list" where
  "routed items fd cid = map di_resp (filter (\<lambda>i. di_fd i = fd \<and> di_id i = cid) items)"

lemma routed_simps [simp]:
  "routed [] fd cid = []"
  "routed (i # items) fd cid = (if di_fd i = fd \<and> di_id i = cid then di_resp i # routed items fd cid else routed items fd cid)"
  by (simp_all add: routed_def)

text \<open>One connection before and after \<open>ondone\<close> sent it the responses \<open>rs\<close>: it lives on and its
  stream grew by their encodings, or it was closed after a prefix of them.\<close>

definition conn_done :: "bool \<Rightarrow> net_view \<Rightarrow> int \<Rightarrow> connection \<Rightarrow> bytes list \<Rightarrow> net_view \<Rightarrow> connection option \<Rightarrow> bool" where
  "conn_done reg v fd c rs v' r \<longleftrightarrow> (case r of
     None \<Rightarrow> fd \<notin> nv_open v' \<and> (\<exists>rest. nv_sent v' fd @ rest = nv_sent v fd @ unsent c @ concat (map encode rs))
   | Some c' \<Rightarrow> nv_sent v' fd @ unsent c' = nv_sent v fd @ unsent c @ concat (map encode rs) \<and>
       cn_inflight c' = cn_inflight c - int (length rs) \<and> conn_inv c' \<and> (fd \<in> nv_open v' \<longleftrightarrow> fd \<in> nv_open v) \<and>
       (reg \<longrightarrow> interest v c \<longrightarrow> interest v' c') \<and> cn_fd c' = cn_fd c \<and> cn_id c' = cn_id c \<and>
       cn_decoder c' = cn_decoder c \<and> cn_peer_close c' = cn_peer_close c)"

definition done_post :: "bool \<Rightarrow> net_view \<Rightarrow> epoll \<Rightarrow> done_item list \<Rightarrow> net_view \<Rightarrow> epoll \<Rightarrow> bool" where
  "done_post reg v e items v' e' \<longleftrightarrow> e' = e\<lparr>ep_status := ep_status e'\<rparr> \<and>
     (\<exists>gone. map fst (ep_status e') = filter (\<lambda>k. k \<notin> gone) (map fst (ep_status e)) \<and> gone \<subseteq> keys e \<and>
        nv_open v' = nv_open v - gone) \<and>
     nv_rcvd v' = nv_rcvd v \<and> (\<forall>k. k \<notin> keys e \<longrightarrow> nv_events v' k = nv_events v k) \<and>
     (\<forall>fd. case conn_at e fd of
        None \<Rightarrow> conn_at e' fd = None \<and> nv_sent v' fd = nv_sent v fd
      | Some c \<Rightarrow> conn_done reg v fd c (routed items fd (cn_id c)) v' (conn_at e' fd))"

definition table_inv :: "epoll \<Rightarrow> bool" where
  "table_inv e \<longleftrightarrow> distinct (map fst (ep_status e)) \<and> (\<forall>fd c. conn_at e fd = Some c \<longrightarrow> cn_fd c = fd \<and> conn_inv c)"

lemma done_post_count:
  "done_post reg (v\<lparr>nv_count := k\<rparr>) e items v' e' = done_post reg v e items v' e'"
  by (simp add: done_post_def conn_done_def interest_def cong: option.case_cong)

lemma done_post_inv:
  assumes "table_inv e" "done_post reg v e items v' e'"
  shows "table_inv e'"
proof -
  have "cn_fd c' = fd \<and> conn_inv c'" if c': "conn_at e' fd = Some c'" for fd c'
  proof (cases "conn_at e fd")
    case None
    then show ?thesis using assms(2) c' by (auto simp: done_post_def dest!: spec [of _ fd])
  next
    case (Some c)
    then have "conn_done reg v fd c (routed items fd (cn_id c)) v' (Some c')"
      using assms(2) c' by (auto simp: done_post_def dest!: spec [of _ fd])
    then show ?thesis using assms(1) Some by (simp add: conn_done_def table_inv_def)
  qed
  moreover have "distinct (map fst (ep_status e'))"
    using assms unfolding table_inv_def done_post_def by (metis distinct_filter)
  ultimately show ?thesis by (simp add: table_inv_def)
qed

lemma conn_done_trans:
  assumes "conn_done reg v fd c rs v1 (Some c1)" "conn_done reg v1 fd c1 rs' v' r"
  shows "conn_done reg v fd c (rs @ rs') v' r"
proof -
  have s: "nv_sent v1 fd @ unsent c1 @ xs = nv_sent v fd @ unsent c @ concat (map encode rs) @ xs" for xs
    using assms(1) by (simp add: conn_done_def)
  show ?thesis using assms by (cases r) (simp_all add: conn_done_def s)
qed

lemma conn_done_gone:
  assumes "conn_done reg v fd c rs v1 None" "nv_sent v' fd = nv_sent v1 fd" "fd \<notin> nv_open v'"
  shows "conn_done reg v fd c (rs @ rs') v' None"
  using assms by (auto simp: conn_done_def) (metis append.assoc)

lemma done_post_trans:
  assumes "done_post reg v e items v1 e1" "done_post reg v1 e1 items' v' e'"
  shows "done_post reg v e (items @ items') v' e'"
proof -
  have 1: "e1 = e\<lparr>ep_status := ep_status e1\<rparr>" "e' = e1\<lparr>ep_status := ep_status e'\<rparr>" "nv_rcvd v1 = nv_rcvd v" "nv_rcvd v' = nv_rcvd v1"
    using assms by (simp_all add: done_post_def)
  obtain g g' where g: "map fst (ep_status e1) = filter (\<lambda>k. k \<notin> g) (map fst (ep_status e))" "g \<subseteq> keys e" "nv_open v1 = nv_open v - g"
    "map fst (ep_status e') = filter (\<lambda>k. k \<notin> g') (map fst (ep_status e1))" "g' \<subseteq> keys e1" "nv_open v' = nv_open v1 - g'"
    using assms unfolding done_post_def by blast
  have k1: "keys e1 \<subseteq> keys e" using arg_cong [OF g(1), of set] by force
  have "map fst (ep_status e') = filter (\<lambda>k. k \<notin> g \<union> g') (map fst (ep_status e)) \<and> g \<union> g' \<subseteq> keys e \<and> nv_open v' = nv_open v - (g \<union> g')"
    using g k1 by (auto simp: conj_commute)
  then have "\<exists>gone. map fst (ep_status e') = filter (\<lambda>k. k \<notin> gone) (map fst (ep_status e)) \<and> gone \<subseteq> keys e \<and> nv_open v' = nv_open v - gone"
    by blast
  moreover have "case conn_at e fd of None \<Rightarrow> conn_at e' fd = None \<and> nv_sent v' fd = nv_sent v fd
      | Some c \<Rightarrow> conn_done reg v fd c (routed (items @ items') fd (cn_id c)) v' (conn_at e' fd)" for fd
  proof (cases "conn_at e fd")
    case None
    then have "conn_at e1 fd = None" "nv_sent v1 fd = nv_sent v fd"
      using assms(1) by (auto simp: done_post_def dest!: spec [of _ fd])
    then show ?thesis using None assms(2) by (auto simp: done_post_def dest!: spec [of _ fd])
  next
    case (Some c)
    then have 2: "conn_done reg v fd c (routed items fd (cn_id c)) v1 (conn_at e1 fd)"
      using assms(1) by (auto simp: done_post_def dest!: spec [of _ fd])
    have r: "routed (items @ items') fd (cn_id c) = routed items fd (cn_id c) @ routed items' fd (cn_id c)"
      by (simp add: routed_def)
    show ?thesis
    proof (cases "conn_at e1 fd")
      case None
      then have "conn_at e' fd = None" "nv_sent v' fd = nv_sent v1 fd"
        using assms(2) by (auto simp: done_post_def dest!: spec [of _ fd])
      moreover have "fd \<notin> nv_open v'" using 2 None g(6) by (simp add: conn_done_def)
      ultimately show ?thesis using Some 2 None r by (simp add: conn_done_gone)
    next
      case (Some c1)
      then have "conn_done reg v1 fd c1 (routed items' fd (cn_id c1)) v' (conn_at e' fd)"
        using assms(2) by (auto simp: done_post_def dest!: spec [of _ fd])
      moreover have "cn_id c1 = cn_id c" using 2 Some by (simp add: conn_done_def)
      ultimately show ?thesis using \<open>conn_at e fd = Some c\<close> 2 Some r conn_done_trans by fastforce
    qed
  qed
  moreover have "e' = e\<lparr>ep_status := ep_status e'\<rparr>"
  proof -
    obtain S S' where "e1 = e\<lparr>ep_status := S\<rparr>" "e' = e1\<lparr>ep_status := S'\<rparr>" using 1(1,2) by blast
    then show ?thesis by simp
  qed
  moreover have "\<forall>k. k \<notin> keys e \<longrightarrow> nv_events v' k = nv_events v k"
    using assms k1 unfolding done_post_def by (metis subsetD)
  ultimately show ?thesis using 1(3,4) unfolding done_post_def by simp
qed


context net_contract
begin

lemma onclose_result:
  assumes "onclose net e fd w = (e', w')"
  shows "e' = e\<lparr>ep_status := st_erase fd (ep_status e)\<rparr> \<and> nv_sent (nv w') = nv_sent (nv w) \<and>
    nv_rcvd (nv w') = nv_rcvd (nv w) \<and> nv_open (nv w') = nv_open (nv w) - {fd} \<and>
    (\<forall>k. k \<noteq> fd \<longrightarrow> nv_events (nv w') k = nv_events (nv w) k)"
proof -
  obtain n1 w1 where c: "net_ctl net (ep_epfd e) CTL_DEL fd 0 w = (n1, w1)" by fastforce
  obtain n2 w2 where d: "net_close net fd w1 = (n2, w2)" by fastforce
  show ?thesis
    using assms ctl_law [OF c] close_law [OF d] c d
    by (auto simp: onclose_def Let_def ctl_ok_def close_fd_ok_def)
qed

end

context net_contract_finite
begin

text \<open>One response.\<close>

lemma done_item:
  assumes "table_inv e"
  shows "\<exists>e1 w1. done_loop net e (item # items) w = done_loop net e1 items w1 \<and>
    done_post (ctl_works net) (nv w) e [item] (nv w1) e1"
proof (cases "\<exists>con. conn_at e (di_fd item) = Some con \<and> cn_id con = di_id item")
  case False
  then have "done_loop net e (item # items) w = done_loop net e items w" by (auto split: option.splits)
  moreover have "done_post (ctl_works net) (nv w) e [item] (nv w) e"
    using False assms by (auto simp: done_post_def conn_done_def table_inv_def split: option.splits intro: exI [of _ "{}"])
  ultimately show ?thesis by blast
next
  case True
  let ?fd = "di_fd item"
  obtain con where con: "conn_at e ?fd = Some con" "cn_id con = di_id item" using True by blast
  have inv: "cn_fd con = ?fd" "conn_inv con" "distinct (map fst (ep_status e))" "?fd \<in> keys e"
    using assms con(1) by (auto simp: table_inv_def dest: map_of_SomeD intro: rev_image_eqI)
  let ?c = "con\<lparr>cn_inflight := cn_inflight con - 1\<rparr>"
  have "conn_inv ?c" using inv(2) by (simp add: conn_inv_def)
  then obtain ok c' w1 where s: "senddata net ?c (di_resp item) w = Some (ok, c', w1)"
    "send_post (ctl_works net) (nv w) ?c (di_resp item) ok (nv w1) c'"
    using senddata_result by blast
  let ?e = "e\<lparr>ep_status := st_put ?fd c' (ep_status e)\<rparr>"
  have f: "conn_inv c'" "nv_sent (nv w1) ?fd @ unsent c' = nv_sent (nv w) ?fd @ unsent con @ (if ok then encode (di_resp item) else [])"
    "\<And>k. k \<noteq> ?fd \<Longrightarrow> nv_sent (nv w1) k = nv_sent (nv w) k \<and> nv_events (nv w1) k = nv_events (nv w) k"
    "nv_rcvd (nv w1) = nv_rcvd (nv w)" "nv_open (nv w1) = nv_open (nv w)" "cn_fd c' = ?fd" "cn_id c' = cn_id con"
    "cn_inflight c' = cn_inflight con - 1" "cn_decoder c' = cn_decoder con" "cn_peer_close c' = cn_peer_close con"
    "ctl_works net \<longrightarrow> interest (nv w) con \<longrightarrow> interest (nv w1) c'"
    using s(2) inv(1) by (simp_all add: send_post_def flow_def unsent_def)
  have other: "conn_done (ctl_works net) (nv w) k c [] v' (Some c)"
    if "conn_at e k = Some c" "nv_sent v' k = nv_sent (nv w) k" "k \<in> nv_open v' \<longleftrightarrow> k \<in> nv_open (nv w)" "nv_events v' k = nv_events (nv w) k" for k c v'
  proof -
    have "cn_fd c = k" "conn_inv c" using assms that(1) by (auto simp: table_inv_def)
    then show ?thesis using that by (simp add: conn_done_def) (simp add: interest_def)
  qed
  show ?thesis
  proof (cases "\<not> ok \<or> (cn_peer_close c' \<and> cn_Outbuffer c' = [] \<and> cn_inflight c' = 0)")
    case True
    obtain e2 w2 where cl: "onclose net ?e ?fd w1 = (e2, w2)" by fastforce
    note oc = onclose_result [OF cl]
    have "done_loop net e (item # items) w = done_loop net e2 items w2"
      using con s(1) cl True by (simp add: Let_def)
    moreover have "done_post (ctl_works net) (nv w) e [item] (nv w2) e2"
    proof -
      have gone: "conn_done (ctl_works net) (nv w) ?fd con [di_resp item] (nv w2) None"
        using oc arg_cong [OF f(2), of "\<lambda>x. x @ (if ok then [] else encode (di_resp item))"]
        by (auto simp: conn_done_def split: if_splits intro: exI [of _ "unsent c' @ (if ok then [] else encode (di_resp item))"])
      have "case conn_at e k of None \<Rightarrow> conn_at e2 k = None \<and> nv_sent (nv w2) k = nv_sent (nv w) k
        | Some c \<Rightarrow> conn_done (ctl_works net) (nv w) k c (routed [item] k (cn_id c)) (nv w2) (conn_at e2 k)" for k
      proof (cases "k = ?fd")
        case True
        then show ?thesis using con oc gone by simp
      next
        case False
        then show ?thesis using oc f(3) [OF False] f(5) other [of k _ "nv w2"] by (simp split: option.splits)
      qed
      moreover have "nv_events (nv w2) k = nv_events (nv w) k" if "k \<notin> keys e" for k
        using that inv(4) f(3) oc by metis
      ultimately show ?thesis using oc f(4,5) inv(4) by (auto simp: done_post_def intro!: exI [of _ "{?fd}"])
    qed
    ultimately show ?thesis by blast
  next
    case False
    have "done_loop net e (item # items) w = done_loop net ?e items w1"
      using con s(1) False by (auto simp: Let_def)
    moreover have "done_post (ctl_works net) (nv w) e [item] (nv w1) ?e"
    proof -
      have stay: "conn_done (ctl_works net) (nv w) ?fd con [di_resp item] (nv w1) (Some c')"
        using f False inv(1) by (simp add: conn_done_def)
      have "case conn_at e k of None \<Rightarrow> conn_at ?e k = None \<and> nv_sent (nv w1) k = nv_sent (nv w) k
        | Some c \<Rightarrow> conn_done (ctl_works net) (nv w) k c (routed [item] k (cn_id c)) (nv w1) (conn_at ?e k)" for k
      proof (cases "k = ?fd")
        case True
        then show ?thesis using con stay by simp
      next
        case False
        then show ?thesis using f(3) [OF False] f(5) other [of k _ "nv w1"] by (simp split: option.splits)
      qed
      moreover have "nv_events (nv w1) k = nv_events (nv w) k" if "k \<notin> keys e" for k
        using that inv(4) f(3) by metis
      ultimately show ?thesis using f(4,5) by (auto simp: done_post_def intro: exI [of _ "{}"])
    qed
    ultimately show ?thesis by blast
  qed
qed

lemma done_loop_result:
  assumes "table_inv e"
  shows "\<exists>e' w'. done_loop net e items w = Some (e', w') \<and> done_post (ctl_works net) (nv w) e items (nv w') e'"
  using assms
proof (induction items arbitrary: e w)
  case Nil
  then show ?case
    by (auto simp: done_post_def conn_done_def table_inv_def split: option.splits intro: exI [of _ "{}"])
next
  case (Cons item items)
  obtain e1 w1 where s: "done_loop net e (item # items) w = done_loop net e1 items w1"
    "done_post (ctl_works net) (nv w) e [item] (nv w1) e1"
    using done_item [OF Cons.prems] by blast
  from Cons.IH [OF done_post_inv [OF Cons.prems s(2)]] obtain e' w' where
    "done_loop net e1 items w1 = Some (e', w')" "done_post (ctl_works net) (nv w1) e1 items (nv w') e'" by blast
  then show ?case using s(1) done_post_trans [OF s(2)] by fastforce
qed

lemma ondone_result:
  assumes "table_inv e"
  shows "\<exists>e' w'. ondone net e w = Some (e', w') \<and>
    done_post (ctl_works net) (nv w) (e\<lparr>ep_done := (ep_done e)\<lparr>dq_queue := []\<rparr>\<rparr>) (dq_queue (ep_done e)) (nv w') e'"
proof -
  let ?e = "e\<lparr>ep_done := (ep_done e)\<lparr>dq_queue := []\<rparr>\<rparr>" and ?items = "dq_queue (ep_done e)"
  obtain n k w1 where rd: "net_read net (dq_fd (ep_done e)) w = (n, k, w1)" by (metis prod_cases3)
  have "table_inv ?e" using assms by (simp add: table_inv_def)
  then obtain e' w' where l: "done_loop net ?e ?items w1 = Some (e', w')"
    "done_post (ctl_works net) (nv w1) ?e ?items (nv w') e'"
    using done_loop_result by blast
  have "ondone net e w = Some (e', w')" using rd l(1) by (simp add: ondone_def dq_drain_def)
  moreover have "done_post (ctl_works net) (nv w) ?e ?items (nv w') e'"
    using l(2) read_law [OF rd] by (auto simp: read_ok_def done_post_count)
  ultimately show ?thesis by blast
qed

end

section \<open>The invariant of the loop\<close>

text \<open>What stands for a request between its dispatch and its response: a queued or running task,
  or a response in the done queue; \<open>lost\<close> holds those whose handler threw. The key is the
  descriptor and the connection id.\<close>

definition tkey :: "task \<Rightarrow> int \<times> u64" where
  "tkey t = (tk_fd t, tk_id t)"

definition dkey :: "done_item \<Rightarrow> int \<times> u64" where
  "dkey i = (di_fd i, di_id i)"

definition outstanding :: "epoll \<Rightarrow> (int \<times> u64) multiset" where
  "outstanding e = image_mset tkey (mset (tp_tasks (ep_pool e)) + running (ep_pool e)) +
     mset (map dkey (dq_queue (ep_done e)))"

definition live :: "bool \<Rightarrow> net_view \<Rightarrow> u64 \<Rightarrow> (int \<times> u64) multiset \<Rightarrow> int \<Rightarrow> connection \<Rightarrow> bool" where
  "live reg v newest R fd c \<longleftrightarrow> cn_fd c = fd \<and> conn_inv c \<and> (\<exists>ms. in_step c (nv_rcvd v fd) ms) \<and>
     0 \<le> fd \<and> fd \<in> nv_open v \<and> cn_id c \<le> newest \<and> cn_inflight c = int (count R (fd, cn_id c)) \<and>
     (reg \<longrightarrow> interest v c)"

text \<open>The descriptors of the loop itself.\<close>

definition own :: "epoll \<Rightarrow> int set" where
  "own e = {ep_idle_fd e, ep_m_listen e, ep_epfd e, dq_fd (ep_done e)}"

text \<open>The connection on a descriptor of \<open>D\<close> is about to be closed and need not be right.\<close>

definition loop_inv :: "int set \<Rightarrow> bool \<Rightarrow> net_view \<Rightarrow> epoll \<Rightarrow> (int \<times> u64) multiset \<Rightarrow> bool" where
  "loop_inv D reg v e lost \<longleftrightarrow> distinct (map fst (ep_status e)) \<and>
     (\<forall>fd c. conn_at e fd = Some c \<longrightarrow> fd \<notin> D \<longrightarrow> live reg v (ep_conn_id e) (outstanding e + lost) fd c) \<and>
     (\<forall>fd c fd' c'. conn_at e fd = Some c \<longrightarrow> conn_at e fd' = Some c' \<longrightarrow> cn_id c = cn_id c' \<longrightarrow> fd = fd') \<and>
     (\<forall>x \<in># outstanding e + lost. snd x \<le> ep_conn_id e) \<and>
     (\<forall>x \<in> own e. x < 0 \<or> (x \<in> nv_open v \<and> x \<notin> keys e)) \<and>
     (0 \<le> ep_idle_fd e \<longrightarrow> ep_idle_fd e \<notin> {ep_m_listen e, ep_epfd e, dq_fd (ep_done e)}) \<and>
     \<not> tp_stopping (ep_pool e)"

lemma loop_inv_table: "loop_inv {} reg v e lost \<Longrightarrow> table_inv e"
  by (auto simp: loop_inv_def live_def table_inv_def)

lemma outstanding_simps [simp]:
  "outstanding (e\<lparr>ep_status := st\<rparr>) = outstanding e" "outstanding (e\<lparr>ep_idle_fd := i\<rparr>) = outstanding e"
  "outstanding (e\<lparr>ep_conn_id := k\<rparr>) = outstanding e" "outstanding (e\<lparr>ep_stopping := b\<rparr>) = outstanding e"
  by (simp_all add: outstanding_def)

lemma live_cong:
  assumes "nv_rcvd v' fd = nv_rcvd v fd" "nv_events v' fd = nv_events v fd" "fd \<in> nv_open v' \<longleftrightarrow> fd \<in> nv_open v"
    "count R' (fd, cn_id c) = count R (fd, cn_id c)" "newest \<le> newest'"
  shows "live reg v newest R fd c \<Longrightarrow> live reg v' newest' R' fd c"
  using assms by (auto simp: live_def interest_def)

text \<open>Closing a connection.\<close>

lemma keys_erase_set: "keys (e\<lparr>ep_status := st_erase fd (ep_status e)\<rparr>) = keys e - {fd}"
  by (auto simp: st_erase_def)

lemma own_status [simp]: "own (e\<lparr>ep_status := st\<rparr>) = own e"
  by (simp add: own_def)


lemma loop_inv_live:
  "loop_inv D reg v e lost \<Longrightarrow> conn_at e fd = Some c \<Longrightarrow> fd \<notin> D \<Longrightarrow> live reg v (ep_conn_id e) (outstanding e + lost) fd c"
  by (simp add: loop_inv_def)

lemma loop_inv_close:
  assumes "loop_inv D reg v e lost" "D \<subseteq> {fd}" "fd \<in> keys e"
    and "nv_rcvd v' = nv_rcvd v" "nv_open v' = nv_open v - {fd}" "\<forall>k. k \<noteq> fd \<longrightarrow> nv_events v' k = nv_events v k"
  shows "loop_inv {} reg v' (e\<lparr>ep_status := st_erase fd (ep_status e)\<rparr>) lost"
proof -
  have "live reg v' (ep_conn_id e) (outstanding e + lost) k c" if "conn_at e k = Some c" "k \<noteq> fd" for k c
  proof (rule live_cong)
    show "live reg v (ep_conn_id e) (outstanding e + lost) k c"
      using loop_inv_live [OF assms(1) that(1)] assms(2) that(2) by blast
  qed (use assms(4-6) that(2) in auto)
  then show ?thesis
    using assms(1,3,5) unfolding loop_inv_def keys_erase_set
    by (auto split: if_splits)
qed

text \<open>A handler of one connection, which may have submitted tasks of its own.\<close>

lemma loop_inv_update:
  assumes "loop_inv {} reg v e lost" "conn_at e fd = Some c" "cn_id c' = cn_id c"
    and "nv_open v' = nv_open v" "\<forall>k. k \<noteq> fd \<longrightarrow> nv_rcvd v' k = nv_rcvd v k \<and> nv_events v' k = nv_events v k"
    and "outstanding (e\<lparr>ep_pool := p\<rparr>) = outstanding e + replicate_mset n (fd, cn_id c)" "tp_stopping p = tp_stopping (ep_pool e)"
    and "live reg v' (ep_conn_id e) (outstanding (e\<lparr>ep_pool := p\<rparr>) + lost) fd c' \<or> D = {fd}"
  shows "loop_inv D reg v' (e\<lparr>ep_pool := p, ep_status := st_put fd c' (ep_status e)\<rparr>) lost"
proof -
  let ?e = "e\<lparr>ep_pool := p, ep_status := st_put fd c' (ep_status e)\<rparr>"
  have o: "outstanding ?e = outstanding e + replicate_mset n (fd, cn_id c)" "own ?e = own e" "keys ?e = keys e"
    using assms(6) by (simp_all add: own_def)
  have "live reg v (ep_conn_id e) (outstanding e + lost) fd c" using assms(1,2) by (simp add: loop_inv_def)
  then have le: "cn_id c \<le> ep_conn_id e" by (simp add: live_def)
  have "live reg v' (ep_conn_id e) (outstanding ?e + lost) k d"
    if "conn_at e k = Some d" "k \<noteq> fd" for k d
    by (rule live_cong [OF _ _ _ _ _ loop_inv_live [OF assms(1) that(1)]]) (use assms(4,5) that(2) o(1) in auto)
  then show ?thesis
    using assms(1-4,7,8) o le unfolding loop_inv_def
    by (auto split: if_splits)
qed


section \<open>Accepting\<close>

lemma loop_inv_own: "loop_inv D reg v e lost \<Longrightarrow> x \<in> own e \<Longrightarrow> x < 0 \<or> (x \<in> nv_open v \<and> x \<notin> keys e)"
  by (simp add: loop_inv_def)

lemma loop_inv_ids: "loop_inv D reg v e lost \<Longrightarrow> x \<in># outstanding e + lost \<Longrightarrow> snd x \<le> ep_conn_id e"
  unfolding loop_inv_def by blast

lemma loop_inv_idle:
  "loop_inv D reg v e lost \<Longrightarrow> 0 \<le> ep_idle_fd e \<Longrightarrow> ep_idle_fd e \<notin> {ep_m_listen e, ep_epfd e, dq_fd (ep_done e)}"
  by (simp add: loop_inv_def)

lemma key_at: "k \<in> keys e \<Longrightarrow> \<exists>c. conn_at e k = Some c"
  by (metis map_of_eq_None_iff not_None_eq)

lemma at_key: "conn_at e k = Some c \<Longrightarrow> k \<in> keys e"
  by (metis map_of_eq_None_iff option.distinct(1))

lemma loop_inv_keys:
  assumes "loop_inv {} reg v e lost" "k \<in> keys e"
  shows "0 \<le> k \<and> k \<in> nv_open v \<and> k \<notin> own e"
proof -
  obtain c where "conn_at e k = Some c" using key_at [OF assms(2)] by blast
  then have "live reg v (ep_conn_id e) (outstanding e + lost) k c" using loop_inv_live [OF assms(1)] by simp
  then have "0 \<le> k" "k \<in> nv_open v" by (simp_all add: live_def)
  then show ?thesis using loop_inv_own [OF assms(1), of k] assms(2) by linarith
qed

lemma loop_inv_view:
  assumes "loop_inv {} reg v e lost"
    and "\<forall>k \<in> nv_open v. k \<noteq> ep_idle_fd e \<longrightarrow> 0 \<le> k \<longrightarrow> k \<in> nv_open v' \<and> nv_rcvd v' k = nv_rcvd v k \<and> nv_events v' k = nv_events v k"
    and "i < 0 \<or> i \<in> nv_open v' \<and> (i \<in> nv_open v \<longrightarrow> i = ep_idle_fd e)"
  shows "loop_inv {} reg v' (e\<lparr>ep_idle_fd := i\<rparr>) lost"
proof -
  have ks: "k \<in> nv_open v \<and> k \<noteq> ep_idle_fd e \<and> 0 \<le> k" if "k \<in> keys e" for k
    using loop_inv_keys [OF assms(1) that] by (auto simp: own_def)
  have li: "live reg v' (ep_conn_id e) (outstanding e + lost) k c" if "conn_at e k = Some c" for k c
    by (rule live_cong [OF _ _ _ _ _ loop_inv_live [OF assms(1) that]]) (use assms(2) ks [OF at_key [OF that]] in auto)
  have fixed: "x < 0 \<or> (x \<in> nv_open v' \<and> x \<notin> keys e \<and> x \<noteq> i)"
    if "x \<in> {ep_m_listen e, ep_epfd e, dq_fd (ep_done e)}" for x
  proof (cases "x < 0")
    case False
    have "x \<in> own e" using that by (auto simp: own_def)
    then have x: "x \<in> nv_open v" "x \<notin> keys e" using loop_inv_own [OF assms(1)] False by blast+
    have "x \<noteq> ep_idle_fd e" using loop_inv_idle [OF assms(1)] that False by force
    then show ?thesis using x assms(2,3) False by auto
  qed simp
  have "i < 0 \<or> (i \<in> nv_open v' \<and> i \<notin> keys e)" using assms(3) ks by blast
  then have "\<forall>x \<in> own (e\<lparr>ep_idle_fd := i\<rparr>). x < 0 \<or> (x \<in> nv_open v' \<and> x \<notin> keys e)"
    using fixed by (simp add: own_def) blast
  moreover have "0 \<le> i \<longrightarrow> i \<notin> {ep_m_listen e, ep_epfd e, dq_fd (ep_done e)}" using fixed by fastforce
  ultimately show ?thesis using li assms(1) by (simp add: loop_inv_def)
qed

definition table_open :: "net_view \<Rightarrow> epoll \<Rightarrow> bool" where
  "table_open v e \<longleftrightarrow> keys e \<subseteq> nv_open v - {ep_idle_fd e} \<and> (\<forall>k \<in> keys e. 0 \<le> k) \<and> (ep_idle_fd e < 0 \<or> ep_idle_fd e \<in> nv_open v)"

lemma loop_inv_open:
  assumes "loop_inv {} reg v e lost"
  shows "table_open v e"
proof -
  have "ep_idle_fd e < 0 \<or> ep_idle_fd e \<in> nv_open v"
    using loop_inv_own [OF assms, of "ep_idle_fd e"] by (auto simp: own_def)
  then show ?thesis using loop_inv_keys [OF assms] by (force simp: table_open_def own_def)
qed

text \<open>A new connection.\<close>

lemma loop_inv_new:
  assumes "loop_inv {} reg v e lost" "unat (ep_conn_id e) + 1 < 2 ^ 64" "0 \<le> fd" "fd \<notin> nv_open v"
    and "nv_open v' = insert fd (nv_open v)" "nv_rcvd v' fd = []" "reg \<longrightarrow> nv_events v' fd = Some (EPOLLIN OR EPOLLRDHUP)"
    and "\<forall>k. k \<noteq> fd \<longrightarrow> nv_rcvd v' k = nv_rcvd v k \<and> nv_events v' k = nv_events v k"
  shows "loop_inv {} reg v' (e\<lparr>ep_conn_id := ep_conn_id e + 1,
    ep_status := ep_status e @ [(fd, connection_new (ep_epfd e) fd (ep_conn_id e + 1))]\<rparr>) lost"
proof -
  let ?id = "ep_conn_id e + 1" and ?c = "connection_new (ep_epfd e) fd (ep_conn_id e + 1)"
  let ?e = "e\<lparr>ep_conn_id := ?id, ep_status := ep_status e @ [(fd, ?c)]\<rparr>"
  have u: "unat ?id = unat (ep_conn_id e) + 1" using assms(2) by (simp add: unat_word_ariths)
  have lt: "x < ?id" if "x \<le> ep_conn_id e" for x using that u by (simp add: word_less_nat_alt word_le_nat_alt)
  have free: "conn_at e fd = None" "fd \<notin> keys e"
    using loop_inv_open [OF assms(1)] assms(4) by (auto simp: table_open_def map_of_eq_None_iff)
  have old: "live reg v' ?id (outstanding e + lost) k c" "cn_id c < ?id" "k \<noteq> fd" if "conn_at e k = Some c" for k c
  proof -
    show ne: "k \<noteq> fd" using that free by auto
    have l: "live reg v (ep_conn_id e) (outstanding e + lost) k c" using loop_inv_live [OF assms(1) that] by simp
    then show "cn_id c < ?id" by (simp add: live_def lt)
    show "live reg v' ?id (outstanding e + lost) k c"
      by (rule live_cong [OF _ _ _ _ _ l]) (use assms(5,8) ne lt [of "ep_conn_id e"] in auto)
  qed
  have "(fd, ?id) \<notin># outstanding e + lost"
  proof
    assume "(fd, ?id) \<in># outstanding e + lost"
    then have "?id \<le> ep_conn_id e" using assms(1) unfolding loop_inv_def by fastforce
    then show False using lt by fastforce
  qed
  then have "count (outstanding e) (fd, ?id) = 0" "count lost (fd, ?id) = 0" by (simp_all add: not_in_iff)
  then have new: "live reg v' ?id (outstanding e + lost) fd ?c"
    using session_start [of "\<lparr>nv_sent = (\<lambda>_. []), nv_rcvd = (\<lambda>_. []), nv_events = Map.empty, nv_count = (\<lambda>_. 0), nv_open = {}\<rparr>" fd "ep_epfd e" ?id "pool_new 0"] assms(3,5-7)
    by (auto simp: live_def session_inv_def) (auto simp: connection_new_def interest_def in_step_def)
  have at: "conn_at ?e k = (if k = fd then Some ?c else conn_at e k)" for k
    using free by (auto simp: map_add_def split: option.splits)
  have o: "outstanding ?e = outstanding e" "own ?e = own e" "keys ?e = insert fd (keys e)"
    by (simp_all add: own_def outstanding_def)
  have "\<forall>k c. conn_at ?e k = Some c \<longrightarrow> k \<notin> {} \<longrightarrow> live reg v' (ep_conn_id ?e) (outstanding ?e + lost) k c"
    using new old(1) unfolding at o(1) by simp
  moreover have "\<forall>k c k' c'. conn_at ?e k = Some c \<longrightarrow> conn_at ?e k' = Some c' \<longrightarrow> cn_id c = cn_id c' \<longrightarrow> k = k'"
  proof (intro allI impI)
    fix k c k' c'
    assume a: "conn_at ?e k = Some c" "conn_at ?e k' = Some c'" "cn_id c = cn_id c'"
    have n: "cn_id ?c = ?id" by (simp add: connection_new_def)
    show "k = k'"
      using a n old(2) [of k c] old(2) [of k' c'] assms(1) unfolding at loop_inv_def
      by (auto split: if_splits)
  qed
  moreover have "\<forall>x \<in># outstanding ?e + lost. snd x \<le> ep_conn_id ?e"
  proof
    fix x assume "x \<in># outstanding ?e + lost"
    then have "snd x \<le> ep_conn_id e" using loop_inv_ids [OF assms(1)] unfolding o(1) by blast
    then show "snd x \<le> ep_conn_id ?e" using lt [of "snd x"] by simp
  qed
  moreover have "\<forall>x \<in> own ?e. x < 0 \<or> (x \<in> nv_open v' \<and> x \<notin> keys ?e)"
    unfolding o using loop_inv_own [OF assms(1)] assms(4,5) by auto
  ultimately show ?thesis
    using assms(1) free(2) unfolding loop_inv_def by (simp add: own_def)
qed


text \<open>What one turn of the accept loop does: it stops with nothing changed but the descriptors
  that were not open, or with a new spare descriptor, or it goes on with a new connection.\<close>

definition kept :: "net_view \<Rightarrow> net_view \<Rightarrow> int set \<Rightarrow> bool" where
  "kept v v' X \<longleftrightarrow> (\<forall>k \<in> nv_open v - X. 0 \<le> k \<longrightarrow> k \<in> nv_open v' \<and> nv_rcvd v' k = nv_rcvd v k \<and> nv_events v' k = nv_events v k \<and>
     nv_sent v' k = nv_sent v k \<and> nv_count v' k = nv_count v k)"

context net_contract
begin

lemma set_nonblocking_view: "set_nonblocking net fd w = (r, w') \<Longrightarrow> nv w' = nv w"
  by (auto simp: set_nonblocking_def split: prod.splits if_splits dest!: getfl_law setfl_law)

lemma accept_spare:
  assumes "net_close net i w1 = (n1, w2)" "net_accept net l w2 = (n2, w3)" "net_close net n2 w3 = (n3, w4)"
    "net_devnull net w4 = (i', w5)"
  shows "kept (nv w1) (nv w5) {i} \<and> (i' < 0 \<or> i' \<in> nv_open (nv w5) \<and> (i' \<in> nv_open (nv w1) \<longrightarrow> i' = i))"
  using close_law [OF assms(1)] accept_law [OF assms(2)] close_law [OF assms(3)] devnull_law [OF assms(4)]
  by (auto simp: kept_def close_fd_ok_def fresh_ok_def)

end

context net_contract_accept
begin

lemma set_nonblocking_budget: "set_nonblocking net fd w = (r, w') \<Longrightarrow> budget w' \<le> budget w"
  by (auto simp: set_nonblocking_def split: prod.splits if_splits dest!: getfl_budget setfl_budget)

lemma accept_one_cases:
  assumes "accept_one net e w = (again, e', w')"
  obtains (stop) "\<not> again" "e' = e" "kept (nv w) (nv w') {}"
  | (spare) i where "\<not> again" "e' = e\<lparr>ep_idle_fd := i\<rparr>" "kept (nv w) (nv w') {ep_idle_fd e}"
      "i < 0 \<or> i \<in> nv_open (nv w') \<and> (i \<in> nv_open (nv w) \<longrightarrow> i = ep_idle_fd e)"
  | (new) fd where "again" "budget w' < budget w" "0 \<le> fd" "fd \<notin> nv_open (nv w)" "nv_open (nv w') = insert fd (nv_open (nv w))"
      "nv_rcvd (nv w') fd = []" "ctl_works net \<longrightarrow> nv_events (nv w') fd = Some (EPOLLIN OR EPOLLRDHUP)"
      "\<forall>k. k \<noteq> fd \<longrightarrow> nv_rcvd (nv w') k = nv_rcvd (nv w) k \<and> nv_events (nv w') k = nv_events (nv w) k"
      "e' = e\<lparr>ep_conn_id := ep_conn_id e + 1, ep_status := st_emplace fd
         (connection_new (ep_epfd e) fd (ep_conn_id e + 1)) (ep_status e)\<rparr>"
      "nv_sent (nv w') fd = []" "\<forall>k. k \<noteq> fd \<longrightarrow> nv_sent (nv w') k = nv_sent (nv w) k \<and> nv_count (nv w') k = nv_count (nv w) k"
proof -
  obtain client w1 where a: "net_accept net (ep_m_listen e) w = (client, w1)" by fastforce
  note al = accept_law [OF a, unfolded fresh_ok_def]
  show thesis
  proof (cases "client < 0")
    case True
    then have v1: "nv w1 = nv w" using al by auto
    show thesis
    proof (cases "net_errno net w1 \<in> {EMFILE, ENFILE}")
      case True
      obtain n1 w2 n2 w3 n3 w4 i w5 where c: "net_close net (ep_idle_fd e) w1 = (n1, w2)" "net_accept net (ep_m_listen e) w2 = (n2, w3)"
        "net_close net n2 w3 = (n3, w4)" "net_devnull net w4 = (i, w5)" by (metis prod.exhaust)
      have "accept_one net e w = (False, e\<lparr>ep_idle_fd := i\<rparr>, w5)"
        using a \<open>client < 0\<close> True c by (auto simp: accept_one_def Let_def)
      then show thesis using spare [of i] accept_spare [OF c] assms v1 by simp
    next
      case False
      then have "accept_one net e w = (False, e, w1)" using a \<open>client < 0\<close> by (auto simp: accept_one_def)
      then show thesis using stop assms v1 by (simp add: kept_def)
    qed
  next
    case False
    then have v1: "client \<notin> nv_open (nv w)" "nv w1 = (nv w)\<lparr>nv_open := insert client (nv_open (nv w)), nv_sent := (nv_sent (nv w))(client := []),
             nv_rcvd := (nv_rcvd (nv w))(client := []), nv_events := (nv_events (nv w))(client := None),
             nv_count := (nv_count (nv w))(client := 0)\<rparr>" using al by auto
    obtain n2 w2 r w3 where c: "net_setsockopt net client w1 = (n2, w2)" "set_nonblocking net client w2 = (r, w3)" by (metis prod.exhaust)
    have v3: "nv w3 = nv w1" using setsockopt_law [OF c(1)] set_nonblocking_view [OF c(2)] by simp
    have b3: "budget w3 < budget w"
      using accept_budget [OF a] False setsockopt_budget [OF c(1)] set_nonblocking_budget [OF c(2)] by linarith
    show thesis
    proof (cases "r = -1")
      case True
      obtain n4 w4 where d: "net_close net client w3 = (n4, w4)" by fastforce
      have "accept_one net e w = (False, e, w4)" using a False c True d by (simp add: accept_one_def Let_def)
      then show thesis using stop assms close_law [OF d] v1 v3 by (auto simp: kept_def close_fd_ok_def)
    next
      case False
      obtain n4 w4 where d: "net_ctl net (ep_epfd e) CTL_ADD client (EPOLLIN OR EPOLLRDHUP) w3 = (n4, w4)" by fastforce
      have "accept_one net e w = (True, e\<lparr>ep_conn_id := ep_conn_id e + 1, ep_status := st_emplace client
         (connection_new (ep_epfd e) client (ep_conn_id e + 1)) (ep_status e)\<rparr>, w4)"
        using a \<open>\<not> client < 0\<close> c False d by (simp add: accept_one_def Let_def)
      moreover have "ctl_works net \<longrightarrow> n4 = 0" using d by (metis ctl_works_def fst_conv)
      ultimately show thesis
        using new [of client] assms ctl_law [OF d] ctl_budget [OF d] b3 v1 v3 \<open>\<not> client < 0\<close>
        by (auto simp: ctl_ok_def)
    qed
  qed
qed

lemma accept_one_inv:
  assumes "accept_one net e w = (again, e', w')"
  shows "(again \<longrightarrow> budget w' < budget w) \<and> ep_conn_id e' = ep_conn_id e + (if again then 1 else 0) \<and>
    (table_open (nv w) e \<longrightarrow> table_open (nv w') e' \<and> length (ep_status e') = length (ep_status e) + (if again then 1 else 0)) \<and>
    (loop_inv {} (ctl_works net) (nv w) e lost \<longrightarrow> (again \<longrightarrow> unat (ep_conn_id e) + 1 < 2 ^ 64) \<longrightarrow> loop_inv {} (ctl_works net) (nv w') e' lost)"
proof (cases rule: accept_one_cases [OF assms, case_names stop spare new])
  case stop
  have "loop_inv {} (ctl_works net) (nv w') (e\<lparr>ep_idle_fd := ep_idle_fd e\<rparr>) lost"
    if "loop_inv {} (ctl_works net) (nv w) e lost"
    by (rule loop_inv_view [OF that]) (use stop(3) loop_inv_own [OF that, of "ep_idle_fd e"] in \<open>auto simp: kept_def own_def\<close>)
  then show ?thesis
    using stop by (auto simp: table_open_def kept_def)
next
  case (spare i)
  have "loop_inv {} (ctl_works net) (nv w') (e\<lparr>ep_idle_fd := i\<rparr>) lost"
    if "loop_inv {} (ctl_works net) (nv w) e lost"
    by (rule loop_inv_view [OF that]) (use spare(3,4) in \<open>auto simp: kept_def\<close>)
  then show ?thesis
    using spare by (fastforce simp: table_open_def kept_def)
next
  case (new fd)
  have em: "e' = e\<lparr>ep_conn_id := ep_conn_id e + 1, ep_status := ep_status e @ [(fd, connection_new (ep_epfd e) fd (ep_conn_id e + 1))]\<rparr>"
    if "table_open (nv w) e"
    using new(4,9) that by (auto simp: st_emplace_def table_open_def)
  have "loop_inv {} (ctl_works net) (nv w') e' lost"
    if "loop_inv {} (ctl_works net) (nv w) e lost" "unat (ep_conn_id e) + 1 < 2 ^ 64"
    unfolding em [OF loop_inv_open [OF that(1)]] by (rule loop_inv_new [OF that new(3-8)])
  moreover have "table_open (nv w') e' \<and> length (ep_status e') = length (ep_status e) + 1" if "table_open (nv w) e"
    using em [OF that] that new(3-5) by (auto simp: table_open_def)
  ultimately show ?thesis
    using new(1,2,9) by simp
qed


lemma onaccept_inv:
  "\<exists>e' w' n. onaccept net e fd w = Some (e', w') \<and> ep_conn_id e' = ep_conn_id e + of_nat n \<and>
    (table_open (nv w) e \<longrightarrow> table_open (nv w') e' \<and> length (ep_status e') = length (ep_status e) + n) \<and>
    (loop_inv {} (ctl_works net) (nv w) e lost \<longrightarrow> unat (ep_conn_id e) + n < 2 ^ 64 \<longrightarrow> loop_inv {} (ctl_works net) (nv w') e' lost)"
proof (induction "budget w" arbitrary: e w rule: less_induct)
  case less
  note simps = onaccept.simps [of net e fd w]
  obtain again e1 w1 where a: "accept_one net e w = (again, e1, w1)" by (metis prod_cases3)
  note one = accept_one_inv [OF a, of lost]
  show ?case
  proof (cases "fd < 0 \<or> \<not> again")
    case True
    then show ?thesis
      using simps a one by (cases "fd < 0") (auto intro!: exI [of _ "0 :: nat"])
  next
    case False
    then have again: "\<not> fd < 0" "again" by auto
    then have "budget w1 < budget w" using one by simp
    from less [OF this, of e1] obtain e' w' n where r: "onaccept net e1 fd w1 = Some (e', w')" "ep_conn_id e' = ep_conn_id e1 + of_nat n"
      "table_open (nv w1) e1 \<longrightarrow> table_open (nv w') e' \<and> length (ep_status e') = length (ep_status e1) + n"
      "loop_inv {} (ctl_works net) (nv w1) e1 lost \<longrightarrow> unat (ep_conn_id e1) + n < 2 ^ 64 \<longrightarrow> loop_inv {} (ctl_works net) (nv w') e' lost"
      by blast
    have "unat (ep_conn_id e1) + n < 2 ^ 64" if "unat (ep_conn_id e) + Suc n < 2 ^ 64"
      using that one again by (simp add: unat_word_ariths)
    then show ?thesis
      using simps a again one r by (intro exI [of _ e'] exI [of _ w'] exI [of _ "Suc n"]) auto
  qed
qed

lemma onaccept_induct [consumes 1, case_names start turn]:
  assumes "onaccept net e fd w = Some (e', w')" "P e w"
    and "\<And>e w again e1 w1. accept_one net e w = (again, e1, w1) \<Longrightarrow> P e w \<Longrightarrow> P e1 w1"
  shows "P e' w'"
  using assms(1,2)
proof (induction "budget w" arbitrary: e w rule: less_induct)
  case less
  obtain again e1 w1 where a: "accept_one net e w = (again, e1, w1)" by (metis prod_cases3)
  note one = assms(3) [OF a less.prems(2)]
  show ?case
  proof (cases "0 \<le> fd \<and> again")
    case False
    then show ?thesis using less.prems a one by (subst (asm) onaccept.simps) (auto split: if_splits)
  next
    case True
    then have "onaccept net e1 fd w1 = Some (e', w')" using less.prems a by (subst (asm) onaccept.simps) simp
    moreover have "budget w1 < budget w" using accept_one_inv [OF a] True by blast
    ultimately show ?thesis using less.hyps one by blast
  qed
qed

end

section \<open>Responses and the invariant\<close>

lemma count_dkeys: "count (mset (map dkey items)) (fd, cid) = length (routed items fd cid)"
  by (induction items) (auto simp: dkey_def)

lemma loop_inv_done:
  assumes "loop_inv {} reg v e lost"
    and "done_post reg v (e\<lparr>ep_done := (ep_done e)\<lparr>dq_queue := []\<rparr>\<rparr>) (dq_queue (ep_done e)) v' e'"
  shows "loop_inv {} reg v' e' lost"
proof -
  let ?e = "e\<lparr>ep_done := (ep_done e)\<lparr>dq_queue := []\<rparr>\<rparr>" and ?items = "dq_queue (ep_done e)"
  obtain S where e': "e' = ?e\<lparr>ep_status := S\<rparr>" using assms(2) unfolding done_post_def by blast
  have o: "outstanding e = outstanding e' + mset (map dkey ?items)" "own e' = own e"
    by (simp_all add: outstanding_def own_def dq_fd_def e')
  obtain gone where g: "map fst (ep_status e') = filter (\<lambda>k. k \<notin> gone) (map fst (ep_status e))" "gone \<subseteq> keys e" "nv_open v' = nv_open v - gone"
    using assms(2) unfolding done_post_def by auto
  have ks: "keys e' \<subseteq> keys e" using arg_cong [OF g(1), of set] by force
  have at: "\<exists>c. conn_at e k = Some c \<and> cn_id c = cn_id c' \<and> live reg v' (ep_conn_id e') (outstanding e' + lost) k c'"
    if "conn_at e' k = Some c'" for k c'
  proof (cases "conn_at e k")
    case None
    then show ?thesis using assms(2) that unfolding done_post_def by (auto dest!: spec [of _ k])
  next
    case (Some c)
    then have d: "conn_done reg v k c (routed ?items k (cn_id c)) v' (Some c')"
      using assms(2) that unfolding done_post_def by (auto dest!: spec [of _ k])
    have l: "live reg v (ep_conn_id e) (outstanding e + lost) k c" using loop_inv_live [OF assms(1) Some] by simp
    have "k \<in> keys e'" using at_key [OF that] .
    have r: "nv_rcvd v' = nv_rcvd v" using assms(2) by (simp add: done_post_def)
    have "live reg v' (ep_conn_id e') (outstanding e' + lost) k c'"
      using d l count_dkeys [of ?items k "cn_id c"] r unfolding o(1)
      by (auto simp: live_def conn_done_def in_step_def e' simp del: mset_map)
    then show ?thesis using Some d by (simp add: conn_done_def)
  qed
  have "\<forall>k c k' c'. conn_at e' k = Some c \<longrightarrow> conn_at e' k' = Some c' \<longrightarrow> cn_id c = cn_id c' \<longrightarrow> k = k'"
    using at assms(1) unfolding loop_inv_def by metis
  moreover have "\<forall>x \<in># outstanding e' + lost. snd x \<le> ep_conn_id e'"
  proof
    fix x assume "x \<in># outstanding e' + lost"
    then have "x \<in># outstanding e + lost" unfolding o(1) by auto
    then show "snd x \<le> ep_conn_id e'" using loop_inv_ids [OF assms(1)] by (simp add: e')
  qed
  moreover have "\<forall>x \<in> own e'. x < 0 \<or> (x \<in> nv_open v' \<and> x \<notin> keys e')"
    unfolding o(2) g(3) using loop_inv_own [OF assms(1)] g(2) ks by blast
  moreover have "distinct (map fst (ep_status e'))" using assms(1) g(1) by (simp add: loop_inv_def)
  moreover have "0 \<le> ep_idle_fd e' \<longrightarrow> ep_idle_fd e' \<notin> {ep_m_listen e', ep_epfd e', dq_fd (ep_done e')}"
    using loop_inv_idle [OF assms(1)] by (simp add: e' dq_fd_def)
  moreover have "\<not> tp_stopping (ep_pool e')" using assms(1) by (simp add: loop_inv_def e')
  ultimately show ?thesis using at unfolding loop_inv_def by blast
qed

section \<open>The handlers\<close>

lemma foldl_submit:
  "\<not> tp_stopping p \<Longrightarrow> tp_tasks (foldl submit p ts) = tp_tasks p @ ts \<and> running (foldl submit p ts) = running p \<and>
   \<not> tp_stopping (foldl submit p ts)"
proof (induction ts arbitrary: p)
  case (Cons t ts)
  have "running (submit p t) = running p"
    using running_update [of "first_waiting p" "tp_workers p" Check]
    by (auto simp: submit_def submit_push_def submit_notify_def first_waiting_def Let_def running_def)
  then show ?case using Cons.IH [of "submit p t"] Cons.prems
    by (simp add: submit_def submit_push_def submit_notify_def Let_def)
qed simp

lemma outstanding_submit:
  assumes "\<not> tp_stopping (ep_pool e)"
  shows "outstanding (e\<lparr>ep_pool := foldl submit (ep_pool e) (tasks_of c new)\<rparr>) =
    outstanding e + replicate_mset (length new) (cn_fd c, cn_id c)"
proof -
  have "image_mset tkey (mset (tasks_of c new)) = replicate_mset (length new) (cn_fd c, cn_id c)"
    by (induction new) (simp_all add: tasks_of_def tkey_def)
  then show ?thesis using foldl_submit [OF assms] by (simp add: outstanding_def)
qed


text \<open>What \<open>addevent\<close> did, by the branch it took.\<close>

lemma addevent_cases [consumes 1]:
  assumes "addevent net e fd ev w = Some (e', w')"
  obtains (resp) "ondone net e w = Some (e', w')"
  | (acc) "fd = ep_m_listen e" "onaccept net e fd w = Some (e', w')"
  | (same) "e' = e" "w' = w"
  | (readable) c ok c' pool w1 where "conn_at e fd = Some c" "handreadable net c (ep_pool e) w = Some (ok, c', pool, w1)"
      "close_unless net (e\<lparr>ep_pool := pool\<rparr>) fd ok c' w1 = (e', w')"
  | (writable) c ok c' w1 where "conn_at e fd = Some c" "handwrite net c w = Some (Some ok, c', w1)" "close_unless net e fd ok c' w1 = (e', w')"
  | (close) c where "conn_at e fd = Some c" "onclose net e fd w = (e', w')"
proof (cases "fd = dq_fd (ep_done e) \<or> fd = ep_m_listen e \<or> conn_at e fd = None")
  case True
  then show thesis using assms resp acc same by (auto simp: addevent_def split: if_splits)
next
  case False
  then obtain c where c: "conn_at e fd = Some c" by auto
  let ?flush = "case handwrite net c w of Some (Some ok, con, w) \<Rightarrow> Some (close_unless net e fd ok con w) | _ \<Rightarrow> None"
  let ?read = "case handreadable net c (ep_pool e) w of None \<Rightarrow> None
    | Some (ok, con, pool, w) \<Rightarrow> Some (close_unless net (e\<lparr>ep_pool := pool\<rparr>) fd ok con w)"
  have "addevent net e fd ev w \<in> {?flush, ?read, Some (onclose net e fd w), Some (e, w)}"
    using False c by (simp add: addevent_def Let_def)
  then consider "?flush = Some (e', w')" | "?read = Some (e', w')" | "onclose net e fd w = (e', w')" | "e' = e" "w' = w"
    unfolding assms by auto
  then show thesis
  proof cases
    case 1
    then show thesis using writable [OF c] by (auto split: option.splits prod.splits)
  next
    case 2
    then show thesis using readable [OF c] by (auto split: option.splits prod.splits)
  next
    case 3
    then show thesis using close [OF c] by blast
  next
    case 4
    then show thesis using same by blast
  qed
qed

lemma put_pool: "(e\<lparr>ep_pool := p, ep_status := st\<rparr>) = (e\<lparr>ep_status := st\<rparr>)\<lparr>ep_pool := p\<rparr>"
  by simp

context net_contract
begin

lemma close_unless_inv:
  assumes "loop_inv D reg (nv w) (e\<lparr>ep_status := st_put fd con (ep_status e)\<rparr>) lost" "D \<subseteq> {fd}" "fd \<in> keys e" "ok \<longrightarrow> D = {}"
    and "close_unless net e fd ok con w = (e', w')"
  shows "loop_inv {} reg (nv w') e' lost"
proof (cases ok)
  case True
  then show ?thesis using assms by (simp add: close_unless_def)
next
  case False
  let ?e = "e\<lparr>ep_status := st_put fd con (ep_status e)\<rparr>"
  have c: "onclose net ?e fd w = (e', w')" using assms(5) False by (simp add: close_unless_def)
  note oc = onclose_result [OF c]
  have "fd \<in> keys ?e" using assms(3) by simp
  from loop_inv_close [OF assms(1,2) this, of "nv w'"] oc show ?thesis by simp
qed

lemma onclose_inv:
  assumes "loop_inv {} reg (nv w) e lost" "fd \<in> keys e" "onclose net e fd w = (e', w')"
  shows "loop_inv {} reg (nv w') e' lost"
  using loop_inv_close [OF assms(1) _ assms(2), of "nv w'"] onclose_result [OF assms(3)] by simp

end

context net_contract_accept
begin

lemma read_event_inv:
  assumes "loop_inv {} (ctl_works net) (nv w) e lost" "conn_at e fd = Some con"
  shows "\<exists>ok con' pool w1 e' w'. handreadable net con (ep_pool e) w = Some (ok, con', pool, w1) \<and>
    close_unless net (e\<lparr>ep_pool := pool\<rparr>) fd ok con' w1 = (e', w') \<and> loop_inv {} (ctl_works net) (nv w') e' lost"
proof -
  have l: "live (ctl_works net) (nv w) (ep_conn_id e) (outstanding e + lost) fd con" using loop_inv_live [OF assms] by simp
  then obtain ms where ms: "in_step con (nv_rcvd (nv w) (cn_fd con)) ms" "cn_fd con = fd" by (auto simp: live_def)
  obtain ok con' pool w1 where r: "handreadable net con (ep_pool e) w = Some (ok, con', pool, w1)"
    "read_post (ctl_works net) (nv w) con (ep_pool e) ms ok con' pool (nv w1)"
    using handreadable_result [OF ms(1)] by blast
  then obtain new where n: "pool = foldl submit (ep_pool e) (tasks_of con new)" "cn_inflight con' = cn_inflight con + int (length new)"
      "nv_open (nv w1) = nv_open (nv w)" "\<forall>k. k \<noteq> fd \<longrightarrow> nv_rcvd (nv w1) k = nv_rcvd (nv w) k \<and> nv_events (nv w1) k = nv_events (nv w) k"
      "cn_fd con' = fd" "cn_id con' = cn_id con" "cn_Outbuffer con' = cn_Outbuffer con" "cn_idx con' = cn_idx con" "feed_inv (cn_decoder con')"
      "ok \<longrightarrow> in_step con' (nv_rcvd (nv w1) fd) (ms @ new)"
      "ctl_works net \<longrightarrow> ok \<longrightarrow> interest (nv w) con \<longrightarrow> interest (nv w1) con'"
    using ms(2) unfolding read_post_def by metis
  have ns: "\<not> tp_stopping (ep_pool e)" using assms(1) by (simp add: loop_inv_def)
  have o: "outstanding (e\<lparr>ep_pool := pool\<rparr>) = outstanding e + replicate_mset (length new) (fd, cn_id con)"
    "tp_stopping pool = tp_stopping (ep_pool e)"
    using outstanding_submit [OF ns, of con new] foldl_submit [OF ns, of "tasks_of con new"] ns n(1) ms(2) by simp_all
  have "live (ctl_works net) (nv w1) (ep_conn_id e) (outstanding (e\<lparr>ep_pool := pool\<rparr>) + lost) fd con'" if ok
    using l n that unfolding o(1) by (auto simp: live_def conn_inv_def)
  then have "loop_inv (if ok then {} else {fd}) (ctl_works net) (nv w1) (e\<lparr>ep_pool := pool, ep_status := st_put fd con' (ep_status e)\<rparr>) lost"
    by (intro loop_inv_update [OF assms n(6,3,4) o]) auto
  moreover obtain e' w' where c: "close_unless net (e\<lparr>ep_pool := pool\<rparr>) fd ok con' w1 = (e', w')" by fastforce
  ultimately have "loop_inv {} (ctl_works net) (nv w') e' lost"
    using close_unless_inv [OF _ _ _ _ c] at_key [OF assms(2)] by (cases ok) auto
  then show ?thesis using r(1) c by blast
qed

lemma write_event_inv:
  assumes "loop_inv {} (ctl_works net) (nv w) e lost" "conn_at e fd = Some con"
  shows "\<exists>ok con' w1 e' w'. handwrite net con w = Some (Some ok, con', w1) \<and>
    close_unless net e fd ok con' w1 = (e', w') \<and> loop_inv {} (ctl_works net) (nv w') e' lost"
proof -
  have l: "live (ctl_works net) (nv w) (ep_conn_id e) (outstanding e + lost) fd con" using loop_inv_live [OF assms] by simp
  then have c: "conn_inv con" "cn_fd con = fd" by (auto simp: live_def)
  obtain ok con' w1 where r: "handwrite net con w = Some (Some ok, con', w1)" "conn_inv con'"
    "flow (ctl_works net) (nv w) con [] (nv w1) con'"
    using handwrite_result [OF c(1)] by blast
  then have f: "nv_open (nv w1) = nv_open (nv w)" "\<forall>k. k \<noteq> fd \<longrightarrow> nv_rcvd (nv w1) k = nv_rcvd (nv w) k \<and> nv_events (nv w1) k = nv_events (nv w) k"
    "cn_id con' = cn_id con" "live (ctl_works net) (nv w1) (ep_conn_id e) (outstanding (e\<lparr>ep_pool := ep_pool e\<rparr>) + lost) fd con'"
    using l c(2) by (auto simp: flow_def live_def in_step_def)
  have "loop_inv {} (ctl_works net) (nv w1) (e\<lparr>ep_pool := ep_pool e, ep_status := st_put fd con' (ep_status e)\<rparr>) lost"
    by (rule loop_inv_update [OF assms f(3,1,2), where n = 0]) (use f(4) in auto)
  moreover obtain e' w' where c: "close_unless net e fd ok con' w1 = (e', w')" by fastforce
  ultimately have "loop_inv {} (ctl_works net) (nv w') e' lost"
    using close_unless_inv [OF _ _ _ _ c] at_key [OF assms(2)] by auto
  then show ?thesis using r(1) c by blast
qed

lemma addevent_inv:
  assumes "loop_inv {} (ctl_works net) (nv w) e lost"
  shows "\<exists>e' w'. addevent net e fd ev w = Some (e', w') \<and>
    (fd \<noteq> ep_m_listen e \<or> unat (ep_conn_id e) + length (ep_status e') < 2 ^ 64 \<longrightarrow> loop_inv {} (ctl_works net) (nv w') e' lost)"
proof -
  consider (resp) "fd = dq_fd (ep_done e)" | (acc) "fd \<noteq> dq_fd (ep_done e)" "fd = ep_m_listen e"
    | (none) "fd \<noteq> dq_fd (ep_done e)" "fd \<noteq> ep_m_listen e" "conn_at e fd = None"
    | (conn) con where "fd \<noteq> dq_fd (ep_done e)" "fd \<noteq> ep_m_listen e" "conn_at e fd = Some con" by blast
  then show ?thesis
  proof cases
    case resp
    then show ?thesis
      using ondone_result [OF loop_inv_table [OF assms], of w] loop_inv_done [OF assms] by (fastforce simp: addevent_def)
  next
    case acc
    obtain e' w' n where r: "onaccept net e fd w = Some (e', w')"
      "length (ep_status e') = length (ep_status e) + n" "unat (ep_conn_id e) + n < 2 ^ 64 \<longrightarrow> loop_inv {} (ctl_works net) (nv w') e' lost"
      using onaccept_inv [of e fd w lost] loop_inv_open [OF assms] assms by blast
    have "addevent net e fd ev w = Some (e', w')" using acc r(1) by (simp add: addevent_def)
    then show ?thesis using r(2,3) acc(2) by auto
  next
    case none
    then show ?thesis using assms by (simp add: addevent_def)
  next
    case (conn con)
    obtain ok con' pool w1 e' w' where rd: "handreadable net con (ep_pool e) w = Some (ok, con', pool, w1)"
      "close_unless net (e\<lparr>ep_pool := pool\<rparr>) fd ok con' w1 = (e', w')" "loop_inv {} (ctl_works net) (nv w') e' lost"
      using read_event_inv [OF assms conn(3)] by blast
    obtain ok2 con2 w2 e3 w3 where wr: "handwrite net con w = Some (Some ok2, con2, w2)"
      "close_unless net e fd ok2 con2 w2 = (e3, w3)" "loop_inv {} (ctl_works net) (nv w3) e3 lost"
      using write_event_inv [OF assms conn(3)] by blast
    obtain e4 w4 where cl: "onclose net e fd w = (e4, w4)" "loop_inv {} (ctl_works net) (nv w4) e4 lost"
      using onclose_inv [OF assms at_key [OF conn(3)]] by fastforce
    show ?thesis using conn assms rd wr cl by (auto simp: addevent_def Let_def)
  qed
qed

end

end
