(* ===== verification/Epoll_safety.thy ===== *)
theory Epoll_safety
  imports Epoll_inv
begin

text \<open>
  The event loop of \<open>src/Epoll.cpp\<close> with the workers of the pool and the signal handler as one
  transition system (\<open>ep_step\<close>, \<open>ep_reach\<close>), and what holds in all its states: responses reach
  their connection only, descriptors and ids are never confused, \<open>inflight\<close> is exact, and every
  handler returns. The last property is about a failed start.
\<close>

section \<open>The loop and the workers\<close>

text \<open>The state is the loop's object, the world, and the requests whose handler threw. A step of the
  other threads is one of a worker or of a submitter's notification, the end
  of a task with its response pushed, the end of a task by an exception, or a signal; a step of the system
  is one of these or an event handled by the loop (the counter of connection ids does not wrap: the table has less
  than \<open>2^64\<close> entries more).\<close>

inductive other_step :: "'w net_os \<Rightarrow> (bytes \<Rightarrow> bytes option) \<Rightarrow> epoll \<times> 'w \<times> (int \<times> u64) multiset \<Rightarrow>
    epoll \<times> 'w \<times> (int \<times> u64) multiset \<Rightarrow> bool" for net handler where
  worker: "pool_step (ep_pool e) l p \<Longrightarrow> submitted [l] = [] \<Longrightarrow> finished [l] = [] \<Longrightarrow> tp_stopping p = tp_stopping (ep_pool e) \<Longrightarrow>
    other_step net handler (e, w, lost) (e\<lparr>ep_pool := p\<rparr>, w, lost)"
| respond: "i < length (tp_workers (ep_pool e)) \<Longrightarrow> tp_workers (ep_pool e) ! i = Running t \<Longrightarrow> handler (tk_msg t) \<noteq> None \<Longrightarrow>
    run_task net handler (ep_done e) t w = (q, w') \<Longrightarrow>
    other_step net handler (e, w, lost) (e\<lparr>ep_pool := worker_done (ep_pool e) i, ep_done := q\<rparr>, w', lost)"
| throw: "i < length (tp_workers (ep_pool e)) \<Longrightarrow> tp_workers (ep_pool e) ! i = Running t \<Longrightarrow> handler (tk_msg t) = None \<Longrightarrow>
    run_task net handler (ep_done e) t w = (q, w') \<Longrightarrow>
    other_step net handler (e, w, lost) (e\<lparr>ep_pool := worker_done (ep_pool e) i, ep_done := q\<rparr>, w', add_mset (tkey t) lost)"
| signal: "on_signal net [e] w = ([e'], w') \<Longrightarrow> other_step net handler (e, w, lost) (e', w', lost)"

inductive ep_step :: "'w net_os \<Rightarrow> (bytes \<Rightarrow> bytes option) \<Rightarrow> epoll \<times> 'w \<times> (int \<times> u64) multiset \<Rightarrow>
    epoll \<times> 'w \<times> (int \<times> u64) multiset \<Rightarrow> bool" for net handler where
  event: "addevent net e fd ev w = Some (e', w') \<Longrightarrow> unat (ep_conn_id e) + length (ep_status e') < 2 ^ 64 \<Longrightarrow>
    ep_step net handler (e, w, lost) (e', w', lost)"
| other: "other_step net handler s s' \<Longrightarrow> ep_step net handler s s'"

inductive ep_reach :: "'w net_os \<Rightarrow> (bytes \<Rightarrow> bytes option) \<Rightarrow> nat \<Rightarrow> epoll \<times> 'w \<times> (int \<times> u64) multiset \<Rightarrow> bool" for net handler port where
  started: "epoll_new net w0 = (e0, w1) \<Longrightarrow> start_setup net e0 port w1 = (True, e, w2) \<Longrightarrow> ep_reach net handler port (e, w2, {#})"
| steps: "ep_reach net handler port s \<Longrightarrow> ep_step net handler s s' \<Longrightarrow> ep_reach net handler port s'"

lemma loop_inv_same:
  assumes "loop_inv {} reg v e lost" "outstanding e' + lost' = outstanding e + lost"
    and "ep_status e' = ep_status e" "ep_conn_id e' = ep_conn_id e" "ep_idle_fd e' = ep_idle_fd e" "ep_m_listen e' = ep_m_listen e"
      "ep_epfd e' = ep_epfd e" "dq_fd (ep_done e') = dq_fd (ep_done e)" "tp_stopping (ep_pool e') = tp_stopping (ep_pool e)"
    and "nv_rcvd v' = nv_rcvd v" "nv_open v' = nv_open v" "nv_events v' = nv_events v"
  shows "loop_inv {} reg v' e' lost'"
  using assms(1) unfolding loop_inv_def own_def assms(2-9) live_def interest_def assms(10-12) by blast

text \<open>The tasks a pool holds, queued or running: a step of a worker keeps them, the end of a task
  takes that one away.\<close>

lemma work_kept:
  assumes "pool_step p l q" "submitted [l] = []" "finished [l] = []"
  shows "mset (tp_tasks q) + running q = mset (tp_tasks p) + running p"
proof -
  have "mset (tp_tasks p) = mset (started [l]) + mset (tp_tasks q)"
    using arg_cong [OF step_queue [OF assms(1)], of mset] assms(2) by simp
  then show ?thesis using step_running [OF assms(1)] assms(3) by simp
qed

lemma work_done:
  assumes "i < length (tp_workers p)" "tp_workers p ! i = Running t"
  shows "running (worker_done p i) + {#t#} = running p"
  using step_running [OF pool_step.finish [OF assms]] by simp

lemma outstanding_finish:
  assumes "i < length (tp_workers (ep_pool e))" "tp_workers (ep_pool e) ! i = Running t"
  shows "outstanding (e\<lparr>ep_pool := worker_done (ep_pool e) i, ep_done := q\<rparr>) + {#tkey t#} + mset (map dkey (dq_queue (ep_done e))) =
    outstanding e + mset (map dkey (dq_queue q))"
proof -
  have "image_mset tkey (running (worker_done (ep_pool e) i)) + {#tkey t#} = image_mset tkey (running (ep_pool e))"
    using work_done [OF assms] by (metis image_mset_single image_mset_union)
  moreover have "tp_tasks (worker_done (ep_pool e) i) = tp_tasks (ep_pool e)" by (simp add: worker_done_def)
  ultimately show ?thesis by (simp add: outstanding_def add_ac del: mset_map)
qed

context net_contract_accept
begin

lemma dq_push_view:
  assumes "dq_push net q fd cid resp w = (q', w')"
  shows "nv_sent (nv w') = nv_sent (nv w) \<and> nv_rcvd (nv w') = nv_rcvd (nv w) \<and> nv_open (nv w') = nv_open (nv w) \<and> nv_events (nv w') = nv_events (nv w) \<and>
    dq_fd q' = dq_fd q \<and> dq_queue q' = dq_queue q @ [\<lparr>di_fd = fd, di_id = cid, di_resp = resp\<rparr>]"
proof -
  obtain n w1 where "net_write net (dq_wake_fd q) 1 w = (n, w1)" by fastforce
  then show ?thesis using assms write_law [of "dq_wake_fd q" 1 w n w1]
    by (auto simp: dq_push_def dq_put_def dq_fd_def write_ok_def)
qed

lemma other_step_inv:
  assumes "other_step net handler s s'" "loop_inv {} (ctl_works net) (nv (fst (snd s))) (fst s) (snd (snd s))"
  shows "loop_inv {} (ctl_works net) (nv (fst (snd s'))) (fst s') (snd (snd s'))"
  using assms
proof cases
  case (worker e l p w lost)
  have "outstanding (e\<lparr>ep_pool := p\<rparr>) + lost = outstanding e + lost"
    using work_kept [OF worker(3-5)] by (simp add: outstanding_def)
  then show ?thesis using assms(2) worker(6) unfolding worker(1,2) fst_conv snd_conv
    by - (rule loop_inv_same, assumption+, simp_all)
next
  case (respond i e t w q w' lost)
  then obtain resp where h: "handler (tk_msg t) = Some resp" by blast
  note push = dq_push_view [of "ep_done e" "tk_fd t" "tk_id t" resp w q w']
  have p: "dq_push net (ep_done e) (tk_fd t) (tk_id t) resp w = (q, w')" using respond(6) h by (simp add: run_task_def)
  have "outstanding (e\<lparr>ep_pool := worker_done (ep_pool e) i, ep_done := q\<rparr>) + lost = outstanding e + lost"
  proof -
    have "mset (map dkey (dq_queue q)) = {#tkey t#} + mset (map dkey (dq_queue (ep_done e)))"
      using push [OF p] by (simp add: dkey_def tkey_def)
    then show ?thesis using outstanding_finish [OF respond(3,4), of q] by (simp only: add.assoc add_right_cancel)
  qed
  then show ?thesis using assms(2) push [OF p] unfolding respond(1,2) fst_conv snd_conv
    by - (rule loop_inv_same, assumption+, simp_all add: worker_done_def)
next
  case (throw i e t w q w' lost)
  then have q: "q = ep_done e" "w' = w" by (auto simp: run_task_def)
  have "outstanding (e\<lparr>ep_pool := worker_done (ep_pool e) i, ep_done := q\<rparr>) + add_mset (tkey t) lost = outstanding e + lost"
    using outstanding_finish [OF throw(3,4), of q] q by simp
  then show ?thesis using assms(2) q unfolding throw(1,2) fst_conv snd_conv
    by - (rule loop_inv_same, assumption+, simp_all add: worker_done_def)
next
  case (signal e w e' w' lost)
  obtain n w1 where wr: "net_write net (dq_fd (ep_done e)) 1 w = (n, w1)" by fastforce
  then have e': "e' = e\<lparr>ep_stopping := True\<rparr>" "w' = w1" using signal(3) by (auto simp: Let_def)
  have "nv_rcvd (nv w1) = nv_rcvd (nv w) \<and> nv_open (nv w1) = nv_open (nv w) \<and> nv_events (nv w1) = nv_events (nv w)"
    using write_law [OF wr] by (auto simp: write_ok_def)
  then show ?thesis using assms(2) unfolding signal(1,2) fst_conv snd_conv e'
    by - (rule loop_inv_same, assumption, simp_all)
qed

lemma ep_step_inv:
  assumes "ep_step net handler s s'" "loop_inv {} (ctl_works net) (nv (fst (snd s))) (fst s) (snd (snd s))"
  shows "loop_inv {} (ctl_works net) (nv (fst (snd s'))) (fst s') (snd (snd s'))"
  using assms(1)
proof cases
  case (event e fd ev w e' w' lost)
  then show ?thesis using assms(2) addevent_inv [of w e lost fd ev] by auto
next
  case other
  then show ?thesis using assms(2) by (rule other_step_inv)
qed

end


context net_contract_accept
begin

lemma create_fd_view:
  assumes "create_fd net a w = (fd, w')" "0 \<le> fd"
  shows "fresh_ok (nv w) fd (nv w')"
  using assms
  by (auto simp: create_fd_def Let_def split: prod.splits if_splits
      dest!: socket_law setsockopt_law bind_law listen_law)
    (metis setsockopt_law bind_law listen_law prod.collapse)+

lemma started_inv:
  assumes "epoll_new net w0 = (e0, w1)" "start_setup net e0 port w1 = (True, e, w2)"
  shows "loop_inv {} reg (nv w2) e {#}"
proof -
  obtain wake wa idle wb where n: "net_eventfd net w0 = (wake, wa)" "net_devnull net wa = (idle, wb)" by (metis prod.exhaust)
  then have e0: "e0 = \<lparr>ep_done = \<lparr>dq_queue = [], dq_wake_fd = wake\<rparr>, ep_pool = pool_new 4, ep_stopping = False, ep_idle_fd = idle,
     ep_epfd = -1, ep_m_listen = -1, ep_status = [], ep_conn_id = 0\<rparr>" "w1 = wb"
    using assms(1) by (auto simp: epoll_new_def dq_new_def)
  obtain ep wc l wd where c: "net_epoll_create net wb = (ep, wc)" "create_fd net port wc = (l, wd)" by (metis prod.exhaust)
  have e: "e = e0\<lparr>ep_epfd := ep, ep_m_listen := l\<rparr>" "0 \<le> l" "0 \<le> wake" "0 \<le> ep" "nv_open (nv w2) = nv_open (nv wd)"
    using assms(2) c e0 unfolding start_setup_def
    by (auto simp: Let_def dq_fd_def split: prod.splits if_splits dest!: set_nonblocking_view ctl_streams)
  have "wake \<in> nv_open (nv wa)" "idle < 0 \<and> nv_open (nv wb) = nv_open (nv wa) \<or> idle \<notin> nv_open (nv wa) \<and> nv_open (nv wb) = insert idle (nv_open (nv wa))"
    "ep \<notin> nv_open (nv wb)" "nv_open (nv wc) = insert ep (nv_open (nv wb))" "l \<notin> nv_open (nv wc)" "nv_open (nv wd) = insert l (nv_open (nv wc))"
    using eventfd_law [OF n(1)] devnull_law [OF n(2)] epoll_create_law [OF c(1)] create_fd_view [OF c(2) e(2)] e(2-4)
    by (auto simp: fresh_ok_def)
  moreover have "running (pool_new 4 :: task pool) = {#}" by (simp add: pool_new_def running_def)
  ultimately show ?thesis
    using e by (auto simp: loop_inv_def e0 own_def dq_fd_def outstanding_def pool_new_def)
qed

lemma ep_reach_inv:
  "ep_reach net handler port s \<Longrightarrow> loop_inv {} (ctl_works net) (nv (fst (snd s))) (fst s) (snd (snd s))"
  by (induction rule: ep_reach.induct) (simp_all add: started_inv ep_step_inv)

end

section \<open>Properties\<close>

text \<open>Responses reach the connection they belong to and no other. \<open>ondone\<close> returns and
  empties the queue; of each connection that stays open, the bytes on the wire followed by those
  in the buffer grew by the encodings of exactly the responses with its descriptor and its id, in
  the order of the queue, and \<open>inflight\<close> went down by their number; a connection that was closed
  sent a prefix of these; a descriptor without a connection is sent nothing, whatever stale
  responses carry its number.
\<close>

theorem responses_routed:
  assumes "net_contract_finite net nv budget" "distinct (map fst (ep_status e))"
    and "\<And>fd c. map_of (ep_status e) fd = Some c \<Longrightarrow> cn_fd c = fd \<and> conn_inv c"
  shows "\<exists>e' w'. ondone net e w = Some (e', w') \<and> dq_queue (ep_done e') = [] \<and>
    (\<forall>fd. case map_of (ep_status e) fd of
       None \<Rightarrow> map_of (ep_status e') fd = None \<and> nv_sent (nv w') fd = nv_sent (nv w) fd
     | Some c \<Rightarrow> let rs = map di_resp (filter (\<lambda>i. di_fd i = fd \<and> di_id i = cn_id c) (dq_queue (ep_done e))) in
         (case map_of (ep_status e') fd of
            Some c' \<Rightarrow> cn_id c' = cn_id c \<and> cn_inflight c' = cn_inflight c - int (length rs) \<and>
              nv_sent (nv w') fd @ drop (cn_idx c') (cn_Outbuffer c') =
              nv_sent (nv w) fd @ drop (cn_idx c) (cn_Outbuffer c) @ concat (map encode rs)
          | None \<Rightarrow> fd \<notin> nv_open (nv w') \<and> (\<exists>rest. nv_sent (nv w') fd @ rest =
              nv_sent (nv w) fd @ drop (cn_idx c) (cn_Outbuffer c) @ concat (map encode rs))))"
proof -
  have "table_inv e" using assms(2,3) by (auto simp: table_inv_def)
  then obtain e' w' where r: "ondone net e w = Some (e', w')"
    "done_post (ctl_works net) (nv w) (e\<lparr>ep_done := (ep_done e)\<lparr>dq_queue := []\<rparr>\<rparr>) (dq_queue (ep_done e)) (nv w') e'"
    using net_contract_finite.ondone_result [OF assms(1)] by blast
  have "e' = (e\<lparr>ep_done := (ep_done e)\<lparr>dq_queue := []\<rparr>\<rparr>)\<lparr>ep_status := ep_status e'\<rparr>" using r(2) by (simp add: done_post_def)
  then have "ep_done e' = (ep_done e)\<lparr>dq_queue := []\<rparr>" by (metis epoll.select_convs(1) epoll.surjective epoll.update_convs(1) epoll.update_convs(7))
  moreover have "case map_of (ep_status e) fd of
       None \<Rightarrow> map_of (ep_status e') fd = None \<and> nv_sent (nv w') fd = nv_sent (nv w) fd
     | Some c \<Rightarrow> conn_done (ctl_works net) (nv w) fd c (routed (dq_queue (ep_done e)) fd (cn_id c)) (nv w') (map_of (ep_status e') fd)" for fd
    using r(2) by (auto simp: done_post_def dest!: spec [of _ fd])
  then have "case map_of (ep_status e) fd of
       None \<Rightarrow> map_of (ep_status e') fd = None \<and> nv_sent (nv w') fd = nv_sent (nv w) fd
     | Some c \<Rightarrow> let rs = map di_resp (filter (\<lambda>i. di_fd i = fd \<and> di_id i = cn_id c) (dq_queue (ep_done e))) in
         (case map_of (ep_status e') fd of
            Some c' \<Rightarrow> cn_id c' = cn_id c \<and> cn_inflight c' = cn_inflight c - int (length rs) \<and>
              nv_sent (nv w') fd @ drop (cn_idx c') (cn_Outbuffer c') =
              nv_sent (nv w) fd @ drop (cn_idx c) (cn_Outbuffer c) @ concat (map encode rs)
          | None \<Rightarrow> fd \<notin> nv_open (nv w') \<and> (\<exists>rest. nv_sent (nv w') fd @ rest =
              nv_sent (nv w) fd @ drop (cn_idx c) (cn_Outbuffer c) @ concat (map encode rs)))" for fd
    unfolding routed_def [symmetric] unsent_def [symmetric] Let_def
    by (cases "map_of (ep_status e) fd"; cases "map_of (ep_status e') fd") (force simp: conn_done_def dest: spec [of _ fd])+
  ultimately show ?thesis using r(1) by (intro exI [of _ e'] exI [of _ w']) simp
qed

text \<open>Property C26. Descriptors and ids are never confused. In every state the loop, the workers and
  the signal handler can reach together: the table has one connection per descriptor, with that
  descriptor and its own id, which no other connection has; each of these descriptors is open and
  none is the listening socket, the epoll descriptor, the eventfd or the spare one; and if
  \<open>epoll_ctl\<close> succeeds, each connection is registered for what it waits for.
\<close>

theorem loop_tables_sound:
  assumes "net_contract_accept net nv budget" "ep_reach net handler port (e, w, lost)"
  shows "distinct (map fst (ep_status e)) \<and> distinct (map (cn_id \<circ> snd) (ep_status e)) \<and>
    (\<forall>(fd, c) \<in> set (ep_status e). cn_fd c = fd \<and> 0 \<le> fd \<and> fd \<in> nv_open (nv w) \<and>
       fd \<notin> {ep_m_listen e, ep_epfd e, dq_fd (ep_done e), ep_idle_fd e} \<and> cn_id c \<le> ep_conn_id e \<and>
       (ctl_works net \<longrightarrow> (\<exists>ev. nv_events (nv w) fd = Some ev \<and>
          (cn_Outbuffer c \<noteq> [] \<longrightarrow> ev AND EPOLLOUT \<noteq> 0) \<and> (\<not> cn_peer_close c \<longrightarrow> ev AND EPOLLIN \<noteq> 0))))"
proof -
  have inv: "loop_inv {} (ctl_works net) (nv w) e lost"
    using net_contract_accept.ep_reach_inv [OF assms] by simp
  then have d: "distinct (map fst (ep_status e))" by (simp add: loop_inv_def)
  have at: "conn_at e fd = Some c" if "(fd, c) \<in> set (ep_status e)" for fd c using d that by simp
  have "inj_on (cn_id \<circ> snd) (set (ep_status e))"
    using inv d at unfolding inj_on_def loop_inv_def by (metis comp_apply eq_key_imp_eq_value prod.collapse)
  then have "distinct (map (cn_id \<circ> snd) (ep_status e))" using d by (metis distinct_map)
  moreover have "cn_fd c = fd \<and> 0 \<le> fd \<and> fd \<in> nv_open (nv w) \<and>
       fd \<notin> {ep_m_listen e, ep_epfd e, dq_fd (ep_done e), ep_idle_fd e} \<and> cn_id c \<le> ep_conn_id e \<and>
       (ctl_works net \<longrightarrow> interest (nv w) c)" if "(fd, c) \<in> set (ep_status e)" for fd c
    using loop_inv_live [OF inv at [OF that]] loop_inv_keys [OF inv at_key [OF at [OF that]]]
    by (auto simp: live_def own_def)
  ultimately show ?thesis using d by (fastforce simp: interest_def)
qed

text \<open>Property C27. The counter \<open>inflight\<close> is exact: in every reachable state, for each connection it
  is the number of its requests in the queue of the pool, being handled by a worker, or answered
  and waiting in the done queue, plus those whose handler threw an exception, which stay counted
  for ever. It is never negative, and a connection with a new id starts without old requests.
\<close>

theorem inflight_exact:
  assumes "net_contract_accept net nv budget" "ep_reach net handler port (e, w, lost)"
    and "map_of (ep_status e) fd = Some c"
  shows "cn_inflight c = int (length (filter (\<lambda>t. tk_fd t = fd \<and> tk_id t = cn_id c) (tp_tasks (ep_pool e))) +
    length (filter (\<lambda>x. \<exists>t. x = Running t \<and> tk_fd t = fd \<and> tk_id t = cn_id c) (tp_workers (ep_pool e))) +
    length (filter (\<lambda>i. di_fd i = fd \<and> di_id i = cn_id c) (dq_queue (ep_done e))) + count lost (fd, cn_id c))"
proof -
  have inv: "loop_inv {} (ctl_works net) (nv w) e lost"
    using net_contract_accept.ep_reach_inv [OF assms(1,2)] by simp
  have ts: "count (image_mset tkey (mset ts)) (fd, cn_id c) = length (filter (\<lambda>t. tk_fd t = fd \<and> tk_id t = cn_id c) ts)" for ts
    by (induction ts) (auto simp: tkey_def)
  have ws: "length (filter (\<lambda>t. tk_fd t = fd \<and> tk_id t = cn_id c) (concat (map task_of ws))) =
      length (filter (\<lambda>x. \<exists>t. x = Running t \<and> tk_fd t = fd \<and> tk_id t = cn_id c) ws)" for ws
    by (induction ws) (auto split: worker.splits)
  have ds: "count (mset (map dkey ds)) (fd, cn_id c) = length (filter (\<lambda>i. di_fd i = fd \<and> di_id i = cn_id c) ds)" for ds
    by (simp add: count_dkeys routed_def del: mset_map)
  show ?thesis
    using loop_inv_live [OF inv assms(3)]
    by (simp add: live_def outstanding_def ts ws ds running_def del: mset_map)
qed

text \<open>Property C28. No handler blocks the loop: in every reachable state, every event on any
  descriptor is handled and the handler returns, if the kernel delivers finitely much between two
  events.
\<close>

theorem handlers_return:
  assumes "net_contract_accept net nv budget" "ep_reach net handler port (e, w, lost)"
  shows "\<exists>e' w'. addevent net e fd ev w = Some (e', w')"
  using net_contract_accept.addevent_inv [OF assms(1), of w e lost fd ev]
    net_contract_accept.ep_reach_inv [OF assms] by auto

section \<open>A run\<close>

text \<open>One client connects and sends one request \<open>m\<close>, which is queued.\<close>

definition demo_loop :: "(int \<times> connection) list \<Rightarrow> task pool \<Rightarrow> u64 \<Rightarrow> epoll" where
  "demo_loop st p k = \<lparr>ep_done = \<lparr>dq_queue = [], dq_wake_fd = 10\<rparr>, ep_pool = p, ep_stopping = False, ep_idle_fd = 11,
     ep_epfd = 12, ep_m_listen = 13, ep_status = st, ep_conn_id = k\<rparr>"

definition run_conn :: "bytes \<Rightarrow> connection" where
  "run_conn m = (connection_new 12 14 1)\<lparr>cn_decoder := (feed messagedecode_init (encode m))\<lparr>dec_msg := []\<rparr>\<rparr>"

lemma run_feed:
  assumes "length m \<le> unat messagemaxlen"
  shows "dec_msg (feed messagedecode_init (encode m)) = [m]" "\<not> dec_error (feed messagedecode_init (encode m))"
proof -
  have "parse (encode m @ []) = ([m], [], False)" using assms by (subst parse_encode) simp_all
  then have "view (feed messagedecode_init (encode m)) = ([m], [], False)"
    using feed_view [OF feed_inv_init, of "encode m"] by (simp add: messagedecode_init_def pending_def)
  then show "dec_msg (feed messagedecode_init (encode m)) = [m]" "\<not> dec_error (feed messagedecode_init (encode m))"
    by (simp_all add: view_def)
qed

lemma run_started:
  "\<exists>e0 w1 w2. epoll_new mnet_os (mn_init [RData (encode m)] [] [AConn]) = (e0, w1) \<and>
     start_setup mnet_os e0 80 w1 = (True, demo_loop [] (pool_new 4) 0, w2) \<and>
     mn_accept w2 = [AConn] \<and> mn_recv w2 = [RData (encode m)] \<and> mn_send w2 = [] \<and> mn_next w2 = 14 \<and> 14 \<notin> nv_open (mn_view w2)"
  by (simp add: demo_loop_def epoll_new_def dq_new_def start_setup_def create_fd_def
      set_nonblocking_def dq_fd_def mnet_eval)

lemma run_accept:
  assumes "mn_accept w = [AConn]" "mn_next w = 14" "14 \<notin> nv_open (mn_view w)"
  shows "\<exists>w'. addevent mnet_os (demo_loop [] p 0) 13 EPOLLIN w = Some (demo_loop [(14, connection_new 12 14 1)] p 1, w') \<and>
    mn_recv w' = mn_recv w \<and> mn_send w' = mn_send w \<and> nv_rcvd (mn_view w') 14 = []"
  using assms
  by (simp add: demo_loop_def addevent_def dq_fd_def onaccept.simps accept_one_def set_nonblocking_def st_emplace_def mnet_eval)

lemma run_read:
  assumes "mn_recv w = [RData (encode m)]" "length m \<le> 65532" "nv_rcvd (mn_view w) 14 = []"
  shows "\<exists>w'. handreadable mnet_os (connection_new 12 14 1) p w =
    Some (True, (run_conn m)\<lparr>cn_inflight := 1\<rparr>, submit p \<lparr>tk_fd = 14, tk_id = 1, tk_msg = m\<rparr>, w') \<and>
    nv_rcvd (mn_view w') 14 = encode m \<and> mn_send w' = mn_send w"
proof -
  have "length (encode m) \<le> 65536" "encode m \<noteq> []" using assms(2) by (simp_all add: encode_def be32_def)
  moreover note run_feed [of m]
  ultimately show ?thesis
    using assms
    by (simp add: handreadable.simps connection_new_def brokenmessage_def take_dispatch_def take_msgs_def mnet_eval run_conn_def messagemaxlen_eq)
qed

lemma run_request:
  assumes "length m \<le> 65532"
  shows "\<exists>w. ep_reach mnet_os handler 80
      (demo_loop [(14, (run_conn m)\<lparr>cn_inflight := 1\<rparr>)] (submit (pool_new 4) \<lparr>tk_fd = 14, tk_id = 1, tk_msg = m\<rparr>) 1, w, {#}) \<and>
    mn_send w = [] \<and> nv_rcvd (mn_view w) 14 = encode m"
proof -
  let ?c = "(run_conn m)\<lparr>cn_inflight := 1\<rparr>"
  let ?p = "submit (pool_new 4) \<lparr>tk_fd = 14, tk_id = 1, tk_msg = m\<rparr>"
  obtain e0 w1 w2 where s: "epoll_new mnet_os (mn_init [RData (encode m)] [] [AConn]) = (e0, w1)"
     "start_setup mnet_os e0 80 w1 = (True, demo_loop [] (pool_new 4) 0, w2)"
     "mn_accept w2 = [AConn]" "mn_recv w2 = [RData (encode m)]" "mn_send w2 = []" "mn_next w2 = 14" "14 \<notin> nv_open (mn_view w2)"
    using run_started by blast
  obtain w3 where a: "addevent mnet_os (demo_loop [] (pool_new 4) 0) 13 EPOLLIN w2 = Some (demo_loop [(14, connection_new 12 14 1)] (pool_new 4) 1, w3)"
    "mn_recv w3 = [RData (encode m)]" "mn_send w3 = []" "nv_rcvd (mn_view w3) 14 = []"
    using run_accept [OF s(3,6,7), of "pool_new 4"] s(4,5) by auto
  obtain w4 where r: "handreadable mnet_os (connection_new 12 14 1) (pool_new 4) w3 = Some (True, ?c, ?p, w4)"
    "nv_rcvd (mn_view w4) 14 = encode m" "mn_send w4 = []"
    using run_read [OF a(2) assms a(4)] a(3) by metis
  have b: "addevent mnet_os (demo_loop [(14, connection_new 12 14 1)] (pool_new 4) 1) 14 EPOLLIN w3 = Some (demo_loop [(14, ?c)] ?p 1, w4)"
    using r(1) by (simp add: addevent_def demo_loop_def dq_fd_def close_unless_def st_put_def epoll_flags)
  have "ep_reach mnet_os handler 80 (demo_loop [(14, connection_new 12 14 1)] (pool_new 4) 1, w3, {#})"
    by (rule ep_reach.steps [OF ep_reach.started [OF s(1,2)] ep_step.event [OF a(1)]]) (simp add: demo_loop_def)
  from ep_reach.steps [OF this ep_step.event [OF b]] r(2,3) show ?thesis by (auto simp: demo_loop_def)
qed

text \<open>The request \<open>[7]\<close>.\<close>

definition demo_world :: mnet where
  "demo_world = mn_init [RData (encode [7])] [] [AConn]"

definition demo_conn :: connection where
  "demo_conn = (connection_new 12 14 1)\<lparr>cn_decoder := \<lparr>dec_Inputbuf = [0, 0, 0, 1, 7], dec_msg = [], dec_error = False, dec_idx = 5\<rparr>, cn_inflight := 1\<rparr>"

abbreviation demo_pool :: "task pool" where
  "demo_pool \<equiv> submit (pool_new 4) \<lparr>tk_fd = 14, tk_id = 1, tk_msg = [7]\<rparr>"

lemma demo_feed: "feed messagedecode_init (encode [7]) = \<lparr>dec_Inputbuf = [0, 0, 0, 1, 7], dec_msg = [[7]], dec_error = False, dec_idx = 5\<rparr>"
  by (simp add: feed_def messagedecode_init_def feed_loop.simps compact_def encode_def be32_def read_crc_big_def messagemaxlen_def Let_def)

lemma demo_reach: "\<exists>w. ep_reach mnet_os Some 80 (demo_loop [(14, demo_conn)] demo_pool 1, w, {#})"
proof -
  have "(run_conn [7])\<lparr>cn_inflight := 1\<rparr> = demo_conn" by (simp add: run_conn_def demo_conn_def demo_feed)
  then show ?thesis using run_request [of "[7]" Some] by auto
qed

theorem loop_tables_sound_witness:
  "\<exists>w. ep_reach mnet_os Some 80 (demo_loop [(14, demo_conn)] demo_pool 1, w, {#}) \<and> 14 \<in> nv_open (mn_view w)"
proof -
  obtain w where r: "ep_reach mnet_os Some 80 (demo_loop [(14, demo_conn)] demo_pool 1, w, {#})" using demo_reach by blast
  from loop_tables_sound [OF mnet_contract_accept r] have "14 \<in> nv_open (mn_view w)" by (simp add: demo_loop_def)
  with r show ?thesis by blast
qed

theorem inflight_exact_witness:
  "cn_inflight demo_conn = int (length (filter (\<lambda>t. tk_fd t = 14 \<and> tk_id t = 1) (tp_tasks demo_pool)))"
proof -
  obtain w where r: "ep_reach mnet_os Some 80 (demo_loop [(14, demo_conn)] demo_pool 1, w, {#})" using demo_reach by blast
  have "map_of (ep_status (demo_loop [(14, demo_conn)] demo_pool 1)) 14 = Some demo_conn" by (simp add: demo_loop_def)
  from inflight_exact [OF mnet_contract_accept r this] show ?thesis
    by (simp add: demo_loop_def demo_conn_def connection_new_def submit_def submit_push_def submit_notify_def pool_new_def
        first_waiting_def)
qed

theorem handlers_return_witness:
  "\<exists>w e' w'. addevent mnet_os (demo_loop [(14, demo_conn)] demo_pool 1) 14 EPOLLOUT w = Some (e', w')"
proof -
  obtain w where "ep_reach mnet_os Some 80 (demo_loop [(14, demo_conn)] demo_pool 1, w, {#})" using demo_reach by blast
  from handlers_return [OF mnet_contract_accept this] show ?thesis by blast
qed

text \<open>Three responses wait: one for the connection, one for an earlier connection on the same
  descriptor, one for a descriptor that was closed.\<close>

definition route_demo :: epoll where
  "route_demo = (demo_loop [(14, (connection_new 12 14 3)\<lparr>cn_inflight := 1\<rparr>)] (pool_new 4) 3)
     \<lparr>ep_done := \<lparr>dq_queue = [\<lparr>di_fd = 14, di_id = 1, di_resp = [6]\<rparr>, \<lparr>di_fd = 14, di_id = 3, di_resp = [5]\<rparr>,
        \<lparr>di_fd = 15, di_id = 2, di_resp = [4]\<rparr>], dq_wake_fd = 10\<rparr>\<rparr>"

theorem responses_routed_witness:
  "\<exists>e' w'. ondone mnet_os route_demo (mn_init [] [SPart 2] []) = Some (e', w') \<and> nv_sent (mn_view w') 15 = [] \<and>
    (case map_of (ep_status e') 14 of None \<Rightarrow> 14 \<notin> nv_open (mn_view w')
     | Some c' \<Rightarrow> nv_sent (mn_view w') 14 @ drop (cn_idx c') (cn_Outbuffer c') = encode [5] \<and> cn_inflight c' = 0)"
proof -
  have d: "distinct (map fst (ep_status route_demo))"
    "\<And>fd c. map_of (ep_status route_demo) fd = Some c \<Longrightarrow> cn_fd c = fd \<and> conn_inv c"
    using feed_inv_init by (auto simp: route_demo_def demo_loop_def connection_new_def conn_inv_def split: if_splits)
  obtain e' w' where r: "ondone mnet_os route_demo (mn_init [] [SPart 2] []) = Some (e', w')"
    "\<forall>fd. case map_of (ep_status route_demo) fd of
       None \<Rightarrow> map_of (ep_status e') fd = None \<and> nv_sent (mn_view w') fd = nv_sent (mn_view (mn_init [] [SPart 2] [])) fd
     | Some c \<Rightarrow> let rs = map di_resp (filter (\<lambda>i. di_fd i = fd \<and> di_id i = cn_id c) (dq_queue (ep_done route_demo))) in
         (case map_of (ep_status e') fd of
            Some c' \<Rightarrow> cn_id c' = cn_id c \<and> cn_inflight c' = cn_inflight c - int (length rs) \<and>
              nv_sent (mn_view w') fd @ drop (cn_idx c') (cn_Outbuffer c') =
              nv_sent (mn_view (mn_init [] [SPart 2] [])) fd @ drop (cn_idx c) (cn_Outbuffer c) @ concat (map encode rs)
          | None \<Rightarrow> fd \<notin> nv_open (mn_view w') \<and> (\<exists>rest. nv_sent (mn_view w') fd @ rest =
              nv_sent (mn_view (mn_init [] [SPart 2] [])) fd @ drop (cn_idx c) (cn_Outbuffer c) @ concat (map encode rs)))"
    using responses_routed [OF mnet_contract_finite d, of "mn_init [] [SPart 2] []"] by blast
  have "nv_sent (mn_view w') 15 = []" using spec [OF r(2), of 15] by (simp add: route_demo_def demo_loop_def mn_init_def)
  moreover have "case map_of (ep_status e') 14 of None \<Rightarrow> 14 \<notin> nv_open (mn_view w')
     | Some c' \<Rightarrow> nv_sent (mn_view w') 14 @ drop (cn_idx c') (cn_Outbuffer c') = encode [5] \<and> cn_inflight c' = 0"
    using spec [OF r(2), of 14]
    by (cases "map_of (ep_status e') 14") (simp_all add: route_demo_def demo_loop_def mn_init_def connection_new_def)
  ultimately show ?thesis using r(1) by blast
qed

text \<open>A failed start leaves a trap for the destructor: when \<open>start\<close> fails after it
  created the listening socket and the eventfd was good, it has closed the socket but kept its
  number, and the destructor closes that number again, whatever it stands for by then.
\<close>

theorem failed_start_closes_twice:
  assumes "net_contract net nv" "start_setup net e port w = (False, e', w')"
    and "0 < ep_m_listen e'" "0 \<le> dq_fd (ep_done e)"
  shows "ep_m_listen e' \<notin> nv_open (nv w') \<and>
    snd (epoll_destroy net e' w') = snd (epoll_destroy net (e'\<lparr>ep_m_listen := -1\<rparr>) (snd (net_close net (ep_m_listen e') w')))"
proof -
  obtain ep w1 l w2 where c: "net_epoll_create net w = (ep, w1)" "create_fd net port w1 = (l, w2)" by (metis prod.exhaust)
  have l: "ep_m_listen e' = l" "ep_done e' = ep_done e" using assms(2) c by (auto simp: start_setup_def Let_def split: prod.splits if_splits)
  have closed: "l \<notin> nv_open (nv (snd (net_close net l w)))" for w
    using net_contract.close_law [OF assms(1), of l w] by (cases "net_close net l w") (simp add: close_fd_ok_def)
  have closed2: "l \<notin> nv_open (nv (snd (net_close net k (snd (net_close net l w)))))" for k w
    using closed [of w] net_contract.close_law [OF assms(1), of k "snd (net_close net l w)"]
    by (cases "net_close net k (snd (net_close net l w))") (simp add: close_fd_ok_def)
  have "l \<notin> nv_open (nv w')"
    using assms(2-4) c l closed closed2
    by (auto simp: start_setup_def Let_def split: prod.splits if_splits)
  then show ?thesis using assms(3) l by (simp add: epoll_destroy_def Let_def)
qed

theorem failed_start_closes_twice_witness:
  "\<exists>e' w'. start_setup (mnet_os\<lparr>net_setfl := \<lambda>fd w. (-1, w)\<rparr>) (demo_loop [] (pool_new 4) 0) 80 (mn_init [] [] []) = (False, e', w') \<and>
    ep_m_listen e' = 11 \<and> 11 \<notin> nv_open (mn_view w')"
proof -
  let ?net = "mnet_os\<lparr>net_setfl := \<lambda>fd w. (-1, w)\<rparr>"
  have n: "net_contract ?net mn_view"
    by unfold_locales
      (auto simp: mnet_recv_ok mnet_send_ok ctl_ok_def mnet_ctl_def write_ok_def mnet_write_def
        read_ok_def mnet_read_def mnet_fresh_ok mnet_accept_ok close_fd_ok_def mnet_close_def split: if_splits)
  have s: "\<exists>e' w'. start_setup ?net (demo_loop [] (pool_new 4) 0) 80 (mn_init [] [] []) = (False, e', w') \<and> ep_m_listen e' = 11"
    by (simp add: start_setup_def create_fd_def demo_loop_def set_nonblocking_def dq_fd_def mnet_eval)
  then obtain e' w' where r: "start_setup ?net (demo_loop [] (pool_new 4) 0) 80 (mn_init [] [] []) = (False, e', w')" "ep_m_listen e' = 11"
    by blast
  from failed_start_closes_twice [OF n r(1)] r show ?thesis by (simp add: demo_loop_def dq_fd_def)
qed

end
