(* ===== verification/Epoll_shutdown.thy ===== *)
theory Epoll_shutdown
  imports Epoll_safety
begin

text \<open>
  The descriptors of the event loop, and its end. Every handler leaves open only the descriptors that were open
  before and those of the loop and its connections (\<open>effect\<close>); without a listening socket
  it only closes connections (\<open>quiet\<close>). After a signal the loop waits for its workers, at most
  for three seconds, and \<open>start\<close> then closes everything it had opened.
\<close>

section \<open>Descriptors\<close>

definition effect :: "net_view \<Rightarrow> epoll \<Rightarrow> net_view \<Rightarrow> epoll \<Rightarrow> bool" where
  "effect v e v' e' \<longleftrightarrow> ep_m_listen e' = ep_m_listen e \<and> ep_epfd e' = ep_epfd e \<and> dq_fd (ep_done e') = dq_fd (ep_done e) \<and>
     nv_open v' \<subseteq> (nv_open v - (own e \<union> keys e)) \<union> own e' \<union> keys e'"

definition quiet :: "net_view \<Rightarrow> epoll \<Rightarrow> net_view \<Rightarrow> epoll \<Rightarrow> bool" where
  "quiet v e v' e' \<longleftrightarrow> ep_m_listen e' = ep_m_listen e \<and> ep_epfd e' = ep_epfd e \<and> dq_fd (ep_done e') = dq_fd (ep_done e) \<and>
     ep_idle_fd e' = ep_idle_fd e \<and> ep_conn_id e' = ep_conn_id e \<and> length (ep_status e') \<le> length (ep_status e) \<and>
     keys e' \<subseteq> keys e \<and> nv_open v' = nv_open v - (keys e - keys e')"

lemma quiet_effect: "quiet v e v' e' \<Longrightarrow> effect v e v' e'"
  by (auto simp: quiet_def effect_def own_def)

lemma quiet_trans:
  assumes "quiet v e v' e'" "quiet v' e' v'' e''"
  shows "quiet v e v'' e''"
proof -
  have a: "keys e' \<subseteq> keys e" "nv_open v' = nv_open v - (keys e - keys e')" "keys e'' \<subseteq> keys e'"
    "nv_open v'' = nv_open v' - (keys e' - keys e'')" using assms by (simp_all add: quiet_def)
  have "keys e'' \<subseteq> keys e" using a(1,3) by (rule order.trans [rotated])
  moreover have "nv_open v'' = nv_open v - (keys e - keys e'')" unfolding a(2,4) using a(1,3) by blast
  moreover have "length (ep_status e'') \<le> length (ep_status e)" using assms unfolding quiet_def by linarith
  ultimately show ?thesis using assms by (simp add: quiet_def)
qed

lemma effect_trans: "effect v e v' e' \<Longrightarrow> effect v' e' v'' e'' \<Longrightarrow> effect v e v'' e''"
  by (auto simp: effect_def)

lemma effect_refl: "effect v e v e"
  by (auto simp: effect_def)

lemma quiet_same:
  "nv_open v' = nv_open v \<Longrightarrow> ep_m_listen e' = ep_m_listen e \<Longrightarrow> ep_epfd e' = ep_epfd e \<Longrightarrow> dq_fd (ep_done e') = dq_fd (ep_done e) \<Longrightarrow>
   ep_idle_fd e' = ep_idle_fd e \<Longrightarrow> ep_conn_id e' = ep_conn_id e \<Longrightarrow> map fst (ep_status e') = map fst (ep_status e) \<Longrightarrow> quiet v e v' e'"
proof -
  assume a: "map fst (ep_status e') = map fst (ep_status e)"
  then have "keys e' = keys e" "length (ep_status e') = length (ep_status e)" by (metis list.set_map, rule map_eq_imp_length_eq)
  then show "nv_open v' = nv_open v \<Longrightarrow> ep_m_listen e' = ep_m_listen e \<Longrightarrow> ep_epfd e' = ep_epfd e \<Longrightarrow> dq_fd (ep_done e') = dq_fd (ep_done e) \<Longrightarrow>
   ep_idle_fd e' = ep_idle_fd e \<Longrightarrow> ep_conn_id e' = ep_conn_id e \<Longrightarrow> quiet v e v' e'" by (simp add: quiet_def)
qed

context net_contract
begin

lemma onclose_quiet:
  assumes "onclose net e fd w = (e', w')" "fd \<in> keys e"
  shows "quiet (nv w) e (nv w') e'"
proof -
  have e: "e' = e\<lparr>ep_status := st_erase fd (ep_status e)\<rparr>" and op: "nv_open (nv w') = nv_open (nv w) - {fd}"
    using onclose_result [OF assms(1)] by blast+
  have k: "keys e' = keys e - {fd}" unfolding e by (rule keys_erase_set)
  have "keys e - keys e' = {fd}" unfolding k using assms(2) by blast
  moreover have "length (ep_status e') \<le> length (ep_status e)" by (simp add: e st_erase_def)
  moreover have "keys e' \<subseteq> keys e" unfolding k by blast
  ultimately show ?thesis unfolding quiet_def op by (simp add: e)
qed

lemma close_unless_quiet:
  assumes "close_unless net e fd ok con w = (e', w')" "fd \<in> keys e"
  shows "quiet (nv w) e (nv w') e'"
proof -
  let ?e = "e\<lparr>ep_status := st_put fd con (ep_status e)\<rparr>"
  have 1: "quiet (nv w) e (nv w) ?e" by (intro quiet_same) simp_all
  show ?thesis
  proof (cases ok)
    case True
    then show ?thesis using assms 1 by (simp add: close_unless_def)
  next
    case False
    then have "onclose net ?e fd w = (e', w')" using assms(1) by (simp add: close_unless_def)
    then show ?thesis using assms(2) by (intro quiet_trans [OF 1]) (rule onclose_quiet, simp_all)
  qed
qed

lemma accept_one_effect:
  assumes "accept_one net e w = (again, e', w')"
  shows "effect (nv w) e (nv w') e'"
proof -
  obtain client w1 where a: "net_accept net (ep_m_listen e) w = (client, w1)" by fastforce
  show ?thesis
  proof (cases "client < 0")
    case True
    then have v1: "nv w1 = nv w" using accept_law [OF a] by (auto simp: fresh_ok_def)
    show ?thesis
    proof (cases "net_errno net w1 \<in> {EMFILE, ENFILE}")
      case spare: True
      obtain n1 w2 n2 w3 n3 w4 i w5 where c: "net_close net (ep_idle_fd e) w1 = (n1, w2)" "net_accept net (ep_m_listen e) w2 = (n2, w3)"
        "net_close net n2 w3 = (n3, w4)" "net_devnull net w4 = (i, w5)" by (metis prod.exhaust)
      have e: "e' = e\<lparr>ep_idle_fd := i\<rparr>" "w' = w5" using assms a True spare c by (auto simp: accept_one_def Let_def)
      have "nv_open (nv w2) = nv_open (nv w) - {ep_idle_fd e}" "nv_open (nv w4) = nv_open (nv w3) - {n2}"
        using close_law [OF c(1)] close_law [OF c(3)] v1 by (simp_all add: close_fd_ok_def)
      moreover have "nv_open (nv w3) \<subseteq> insert n2 (nv_open (nv w2))" "nv_open (nv w5) \<subseteq> insert i (nv_open (nv w4))"
        using accept_law [OF c(2)] devnull_law [OF c(4)] by (auto simp: fresh_ok_def)
      ultimately have "nv_open (nv w5) \<subseteq> insert i (nv_open (nv w) - {ep_idle_fd e})" by blast
      then show ?thesis unfolding e by (auto simp: effect_def own_def)
    next
      case False
      then have "e' = e" "w' = w1" using assms a True by (cases "net_errno net w1 = EAGAIN"; simp add: accept_one_def)+
      then show ?thesis using v1 effect_refl by simp
    qed
  next
    case False
    then have v1: "nv_open (nv w1) = insert client (nv_open (nv w))" "client \<notin> nv_open (nv w)" using accept_law [OF a] by (auto simp: fresh_ok_def)
    obtain n2 w2 r w3 where c: "net_setsockopt net client w1 = (n2, w2)" "set_nonblocking net client w2 = (r, w3)" by (metis prod.exhaust)
    have v3: "nv w3 = nv w1" using setsockopt_law [OF c(1)] set_nonblocking_view [OF c(2)] by simp
    show ?thesis
    proof (cases "r = -1")
      case True
      obtain n4 w4 where d: "net_close net client w3 = (n4, w4)" by fastforce
      have "e' = e" "w' = w4" using assms a False c True d by (simp_all add: accept_one_def Let_def)
      then show ?thesis using close_law [OF d] v1 v3 by (auto simp: effect_def close_fd_ok_def)
    next
      case ok: False
      obtain n4 w4 where d: "net_ctl net (ep_epfd e) CTL_ADD client (EPOLLIN OR EPOLLRDHUP) w3 = (n4, w4)" by fastforce
      have e: "e' = e\<lparr>ep_conn_id := ep_conn_id e + 1, ep_status := st_emplace client
         (connection_new (ep_epfd e) client (ep_conn_id e + 1)) (ep_status e)\<rparr>" "w' = w4"
        using assms a False c ok d by (simp_all add: accept_one_def Let_def)
      have "keys e' = insert client (keys e)" unfolding e by (auto simp: st_emplace_def)
      then show ?thesis using ctl_streams [OF d] v1 v3 unfolding e by (auto simp: effect_def own_def)
    qed
  qed
qed

end

context net_contract_accept
begin

lemma onaccept_effect: "onaccept net e fd w = Some (e', w') \<Longrightarrow> effect (nv w) e (nv w') e'"
proof (induction rule: onaccept_induct)
  case start
  show ?case by (rule effect_refl)
next
  case (turn e1 w1 again e2 w2)
  then show ?case using accept_one_effect effect_trans by blast
qed

lemma ondone_quiet:
  assumes "table_inv e" "ondone net e w = Some (e', w')"
  shows "quiet (nv w) e (nv w') e'"
proof -
  let ?e = "e\<lparr>ep_done := (ep_done e)\<lparr>dq_queue := []\<rparr>\<rparr>"
  have d: "done_post (ctl_works net) (nv w) ?e (dq_queue (ep_done e)) (nv w') e'" using ondone_result [OF assms(1), of w] assms(2) by auto
  then obtain gone S where g: "map fst (ep_status e') = filter (\<lambda>k. k \<notin> gone) (map fst (ep_status e))" "gone \<subseteq> keys e"
    "nv_open (nv w') = nv_open (nv w) - gone" "e' = ?e\<lparr>ep_status := S\<rparr>" unfolding done_post_def by auto
  have "keys e' = keys e - gone" using arg_cong [OF g(1), of set] by auto
  moreover have "length (map fst (ep_status e')) \<le> length (map fst (ep_status e))" unfolding g(1) by (rule length_filter_le)
  ultimately show ?thesis using g(2,3) unfolding quiet_def g(4) by (auto simp: dq_fd_def)
qed

lemma addevent_effect:
  assumes "loop_inv {} (ctl_works net) (nv w) e lost" "addevent net e fd ev w = Some (e', w')"
  shows "effect (nv w) e (nv w') e' \<and> (ep_m_listen e < 0 \<longrightarrow> quiet (nv w) e (nv w') e')"
proof -
  have q: ?thesis if "quiet (nv w) e (nv w') e'" using that quiet_effect by blast
  from assms(2) show ?thesis
  proof (cases rule: addevent_cases)
    case resp
    then show ?thesis using ondone_quiet [OF loop_inv_table [OF assms(1)]] by (intro q)
  next
    case acc
    have "quiet (nv w) e (nv w') e'" if "fd < 0"
      using acc(2) that by (subst (asm) onaccept.simps) (simp add: quiet_same)
    then show ?thesis using onaccept_effect [OF acc(2)] acc(1) by auto
  next
    case same
    then show ?thesis by (intro q quiet_same) simp_all
  next
    case (readable c ok c' pool w1)
    obtain ms where ms: "in_step c (nv_rcvd (nv w) (cn_fd c)) ms"
      using loop_inv_live [OF assms(1) readable(1)] by (auto simp: live_def)
    then have "read_post (ctl_works net) (nv w) c (ep_pool e) ms ok c' pool (nv w1)"
      using handreadable_result [OF ms, of "ep_pool e"] readable(2) by simp
    then have "quiet (nv w) e (nv w1) (e\<lparr>ep_pool := pool\<rparr>)" by (intro quiet_same) (auto simp: read_post_def)
    then show ?thesis by (intro q) (rule quiet_trans, assumption, rule close_unless_quiet [OF readable(3)], simp add: at_key [OF readable(1)])
  next
    case (writable c ok c' w1)
    have "conn_inv c" using loop_inv_live [OF assms(1) writable(1)] by (simp add: live_def)
    then have "flow (ctl_works net) (nv w) c [] (nv w1) c'" using handwrite_result [where w = w and c = c] writable(2) by auto
    then have "quiet (nv w) e (nv w1) e" by (intro quiet_same) (auto simp: flow_def)
    then show ?thesis by (intro q) (rule quiet_trans [OF _ close_unless_quiet [OF writable(3) at_key [OF writable(1)]]])
  next
    case (close c)
    then show ?thesis using onclose_quiet [OF close(2) at_key [OF close(1)]] by (intro q)
  qed
qed

end

section \<open>The waiting\<close>

text \<open>While the loop waits, other threads take their steps, and the world may change (time passes, data
  arrives) where the calls of the program do not see it yet.\<close>

inductive wait_step :: "'w net_os \<Rightarrow> ('w \<Rightarrow> net_view) \<Rightarrow> (bytes \<Rightarrow> bytes option) \<Rightarrow> epoll \<times> 'w \<times> (int \<times> u64) multiset \<Rightarrow>
    epoll \<times> 'w \<times> (int \<times> u64) multiset \<Rightarrow> bool" for net nv handler where
  others: "other_step net handler s s' \<Longrightarrow> wait_step net nv handler s s'"
| passes: "nv w' = nv w \<Longrightarrow> wait_step net nv handler (e, w, lost) (e, w', lost)"

text \<open>What \<open>epoll_wait\<close> and the clock promise: while the loop waits, only such steps happen; and
  before any given time, only finitely many rounds of waiting and handling end (\<open>ticks\<close> bounds
  how many are left).\<close>

locale waiter_contract = net_contract_accept +
  fixes handler :: "bytes \<Rightarrow> bytes option"
    and wt :: "'a waiter"
    and ticks :: "int \<Rightarrow> 'a \<Rightarrow> nat"
  assumes wait_law: "wt_wait wt e t w = (n, evs, e', w') \<Longrightarrow> \<exists>lost'. (wait_step net nv handler)\<^sup>*\<^sup>* (e, w, lost) (e', w', lost')"
    and now_law: "wt_now wt w = (t, w') \<Longrightarrow> nv w' = nv w \<and> ticks d w' \<le> ticks d w \<and> (ticks d w = 0 \<longrightarrow> d < t)"
    and round_law: "wt_wait wt e t w = (n, evs, e', w1) \<Longrightarrow> handle_events net e' (take (nat n) evs) w1 = Some (e'', w2) \<Longrightarrow>
      ticks d w2 \<le> ticks d w - 1"

text \<open>A clock that advances with every wait, and no events.\<close>

definition mnet_wt :: "mnet waiter" where
  "mnet_wt = \<lparr>wt_wait = (\<lambda>e t w. (0, [], e, w\<lparr>mn_clock := mn_clock w + 1\<rparr>)), wt_now = (\<lambda>w. (mn_clock w, w))\<rparr>"

definition mnet_ticks :: "int \<Rightarrow> mnet \<Rightarrow> nat" where
  "mnet_ticks d w = nat (d + 1 - mn_clock w)"

interpretation mnet: waiter_contract mnet_os mn_view mnet_budget Some mnet_wt mnet_ticks
  by unfold_locales (auto simp: mnet_wt_def mnet_ticks_def intro!: exI r_into_rtranclp wait_step.passes)

lemma mnet_waiter: "waiter_contract mnet_os mn_view mnet_budget Some mnet_wt mnet_ticks"
  by (rule mnet.waiter_contract_axioms)

lemma loop_inv_unlisten:
  assumes "loop_inv {} reg v e lost" "0 \<le> ep_m_listen e" "ep_m_listen e \<notin> {ep_epfd e, dq_fd (ep_done e)}"
    and "nv_open v' = nv_open v - {ep_m_listen e}" "nv_rcvd v' = nv_rcvd v" "\<forall>k. k \<noteq> ep_m_listen e \<longrightarrow> nv_events v' k = nv_events v k"
  shows "loop_inv {} reg v' (e\<lparr>ep_m_listen := -1\<rparr>) lost"
proof -
  have "live reg v' (ep_conn_id e) (outstanding e + lost) k c" if "conn_at e k = Some c" for k c
  proof -
    have "k \<noteq> ep_m_listen e" using loop_inv_keys [OF assms(1) at_key [OF that]] by (auto simp: own_def)
    then show ?thesis using assms(4-6) by (intro live_cong [OF _ _ _ _ _ loop_inv_live [OF assms(1) that]]) simp_all
  qed
  moreover have "x < 0 \<or> x \<in> nv_open v' \<and> x \<notin> keys e" if "x \<in> own (e\<lparr>ep_m_listen := -1\<rparr>)" for x
  proof (cases "x < 0")
    case False
    then have x: "x \<in> {ep_idle_fd e, ep_epfd e, dq_fd (ep_done e)}" using that by (auto simp: own_def)
    then have "x \<in> own e" by (auto simp: own_def)
    moreover have "x \<noteq> ep_m_listen e" using x assms(2,3) loop_inv_idle [OF assms(1)] by auto
    ultimately show ?thesis using loop_inv_own [OF assms(1)] assms(4) by auto
  qed simp
  moreover have "outstanding (e\<lparr>ep_m_listen := -1\<rparr>) = outstanding e" by (simp add: outstanding_def)
  ultimately show ?thesis using assms(1) unfolding loop_inv_def by simp
qed

context net_contract_accept
begin

lemma other_step_quiet:
  assumes "other_step net handler s s'"
  shows "quiet (nv (fst (snd s))) (fst s) (nv (fst (snd s'))) (fst s') \<and> ep_status (fst s') = ep_status (fst s)"
  using assms
proof cases
  case (worker e l p w lost)
  then show ?thesis by (auto intro: quiet_same)
next
  case (respond i e t w q w' lost)
  then obtain resp where "dq_push net (ep_done e) (tk_fd t) (tk_id t) resp w = (q, w')" by (auto simp: run_task_def)
  then have "nv_open (nv w') = nv_open (nv w)" "dq_fd q = dq_fd (ep_done e)"
    using dq_push_view by blast+
  then show ?thesis using respond(1,2) by (auto intro: quiet_same)
next
  case (throw i e t w q w' lost)
  then show ?thesis by (auto simp: run_task_def intro: quiet_same)
next
  case (signal e w e' w' lost)
  obtain n w1 where wr: "net_write net (dq_fd (ep_done e)) 1 w = (n, w1)" by fastforce
  then have "e' = e\<lparr>ep_stopping := True\<rparr>" "w' = w1" using signal(3) by (auto simp: Let_def)
  moreover have "nv_open (nv w1) = nv_open (nv w)" using write_law [OF wr] by (auto simp: write_ok_def)
  ultimately show ?thesis using signal(1,2) by (auto intro: quiet_same)
qed

lemma close_all_result:
  assumes "close_all net e w = (e', w')"
  shows "e' = e\<lparr>ep_status := []\<rparr> \<and> nv_open (nv w') = nv_open (nv w) - keys e \<and> nv_sent (nv w') = nv_sent (nv w)"
  using assms
proof (induction "length (ep_status e)" arbitrary: e w rule: less_induct)
  case less
  show ?case
  proof (cases "ep_status e")
    case Nil
    then show ?thesis using less.prems by (simp add: close_all.simps)
  next
    case (Cons x st)
    obtain fd c where x: "x = (fd, c)" by fastforce
    obtain e1 w1 where c: "onclose net e fd w = (e1, w1)" by fastforce
    note oc = onclose_result [OF c]
    have "close_all net e1 w1 = (e', w')" using less.prems Cons x c by (simp add: close_all.simps [of net e w])
    moreover have e1: "e1 = e\<lparr>ep_status := st_erase fd (ep_status e)\<rparr>" using oc by blast
    moreover have "length (ep_status e1) < length (ep_status e)" unfolding e1 Cons x by (simp add: st_erase_def less_Suc_eq_le)
    ultimately have "e' = e1\<lparr>ep_status := []\<rparr> \<and> nv_open (nv w') = nv_open (nv w1) - keys e1 \<and> nv_sent (nv w') = nv_sent (nv w1)"
      using less.hyps by blast
    moreover have "keys e1 = keys e - {fd}" unfolding e1 by (rule keys_erase_set)
    moreover have "fd \<in> keys e" using Cons x by simp
    ultimately show ?thesis using oc by auto
  qed
qed

lemma start_finish_result:
  assumes "start_finish net e w = (e', w')"
  shows "ep_status e' = [] \<and> ep_m_listen e' = -1 \<and> ep_epfd e' = -1 \<and> nv_sent (nv w') = nv_sent (nv w) \<and>
    nv_open (nv w') = nv_open (nv w) - keys e - {ep_m_listen e, ep_epfd e}"
proof -
  obtain e1 w1 where c: "close_all net e w = (e1, w1)" by fastforce
  obtain n2 w2 n3 w3 where d: "net_close net (ep_m_listen e1) w1 = (n2, w2)" "net_close net (ep_epfd e1) w2 = (n3, w3)" by (metis prod.exhaust)
  have "e' = e1\<lparr>ep_epfd := -1, ep_m_listen := -1\<rparr>" "w' = w3" using assms c d by (simp_all add: start_finish_def Let_def)
  then show ?thesis using close_all_result [OF c] close_law [OF d(1)] close_law [OF d(2)] by (auto simp: close_fd_ok_def)
qed

lemma addevent_unlistened:
  assumes "loop_inv {} (ctl_works net) (nv w) e lost" "ep_m_listen e < 0"
  shows "\<exists>e' w'. addevent net e fd ev w = Some (e', w') \<and> loop_inv {} (ctl_works net) (nv w') e' lost \<and> quiet (nv w) e (nv w') e'"
proof -
  obtain e' w' where a: "addevent net e fd ev w = Some (e', w')"
    "fd \<noteq> ep_m_listen e \<or> unat (ep_conn_id e) + length (ep_status e') < 2 ^ 64 \<longrightarrow> loop_inv {} (ctl_works net) (nv w') e' lost"
    using addevent_inv [OF assms(1)] by blast
  have q: "quiet (nv w) e (nv w') e'" using addevent_effect [OF assms(1) a(1)] assms(2) by simp
  show ?thesis
  proof (cases "fd = ep_m_listen e \<and> fd \<noteq> dq_fd (ep_done e)")
    case True
    then have "addevent net e fd ev w = Some (e, w)" using assms(2) by (simp add: addevent_def onaccept.simps)
    then show ?thesis using assms(1) q a(1) by simp
  next
    case False
    then have "loop_inv {} (ctl_works net) (nv w') e' lost"
      using a ondone_result [OF loop_inv_table [OF assms(1)], of w] loop_inv_done [OF assms(1)] by (cases "fd = ep_m_listen e") (auto simp: addevent_def)
    then show ?thesis using a(1) q by blast
  qed
qed

lemma handle_events_unlistened:
  assumes "loop_inv {} (ctl_works net) (nv w) e lost" "ep_m_listen e < 0"
  shows "\<exists>e' w'. handle_events net e evs w = Some (e', w') \<and> loop_inv {} (ctl_works net) (nv w') e' lost \<and> quiet (nv w) e (nv w') e'"
  using assms
proof (induction evs arbitrary: e w)
  case Nil
  then show ?case by (auto intro: quiet_same)
next
  case (Cons x evs)
  obtain fd ev where x: "x = (fd, ev)" by fastforce
  show ?case
  proof (cases "fd = ep_m_listen e \<or> conn_at e fd \<noteq> None \<or> fd = dq_fd (ep_done e)")
    case False
    then show ?thesis using Cons x by simp
  next
    case True
    obtain e1 w1 where a: "addevent net e fd ev w = Some (e1, w1)" "loop_inv {} (ctl_works net) (nv w1) e1 lost" "quiet (nv w) e (nv w1) e1"
      using addevent_unlistened [OF Cons.prems] by blast
    have "ep_m_listen e1 < 0" using a(3) Cons.prems(2) by (simp add: quiet_def)
    from Cons.IH [OF a(2) this] obtain e' w' where r: "handle_events net e1 evs w1 = Some (e', w')" "loop_inv {} (ctl_works net) (nv w') e' lost"
      "quiet (nv w1) e1 (nv w') e'" by blast
    have "quiet (nv w) e (nv w') e'" using a(3) r(3) by (rule quiet_trans)
    moreover have "handle_events net e (x # evs) w = Some (e', w')" using True x a(1) r(1) by simp
    ultimately show ?thesis using r(2) by blast
  qed
qed

lemma wait_step_ok:
  assumes "wait_step net nv handler s s'" "loop_inv {} (ctl_works net) (nv (fst (snd s))) (fst s) (snd (snd s))"
  shows "loop_inv {} (ctl_works net) (nv (fst (snd s'))) (fst s') (snd (snd s')) \<and>
    quiet (nv (fst (snd s))) (fst s) (nv (fst (snd s'))) (fst s')"
  using assms(1)
proof cases
  case others
  then show ?thesis using other_step_inv other_step_quiet assms(2) by blast
next
  case (passes w' w e lost)
  then show ?thesis using assms(2) by (auto intro: quiet_same)
qed

lemma wait_steps_ok:
  assumes "(wait_step net nv handler)\<^sup>*\<^sup>* s s'" "loop_inv {} (ctl_works net) (nv (fst (snd s))) (fst s) (snd (snd s))"
  shows "loop_inv {} (ctl_works net) (nv (fst (snd s'))) (fst s') (snd (snd s')) \<and>
    quiet (nv (fst (snd s))) (fst s) (nv (fst (snd s'))) (fst s')"
  using assms(1)
proof (induction rule: rtranclp_induct)
  case base
  then show ?case using assms(2) by (auto intro: quiet_same)
next
  case (step s1 s2)
  then show ?case using wait_step_ok [OF step.hyps(2)] quiet_trans by blast
qed

end

text \<open>The loop waits for the workers only, not for the output buffers.\<close>

definition settled :: "epoll \<Rightarrow> bool" where
  "settled e \<longleftrightarrow> list_all (\<lambda>(k, c). \<not> cn_inflight c > 0) (ep_status e)"

context waiter_contract
begin

lemma round_ok:
  assumes "loop_inv {} (ctl_works net) (nv w) e lost" "ep_m_listen e < 0" "wt_wait wt e t w = (n, evs, e1, w1)"
  shows "\<exists>e2 w2 lost2. handle_events net e1 (take (nat n) evs) w1 = Some (e2, w2) \<and> loop_inv {} (ctl_works net) (nv w2) e2 lost2 \<and>
    quiet (nv w) e (nv w2) e2 \<and> ticks d w2 \<le> ticks d w - 1"
proof -
  obtain lost1 where "(wait_step net nv handler)\<^sup>*\<^sup>* (e, w, lost) (e1, w1, lost1)" using wait_law [OF assms(3)] by blast
  from wait_steps_ok [OF this] assms(1) have 1: "loop_inv {} (ctl_works net) (nv w1) e1 lost1" "quiet (nv w) e (nv w1) e1" by simp_all
  then have "ep_m_listen e1 < 0" using assms(2) by (simp add: quiet_def)
  from handle_events_unlistened [OF 1(1) this] obtain e2 w2 where 2: "handle_events net e1 (take (nat n) evs) w1 = Some (e2, w2)"
    "loop_inv {} (ctl_works net) (nv w2) e2 lost1" "quiet (nv w1) e1 (nv w2) e2" by blast
  then show ?thesis using quiet_trans [OF 1(2)] round_law [OF assms(3) 2(1)] by blast
qed

lemma drain_ok:
  assumes "loop_inv {} (ctl_works net) (nv w) e lost" "ep_m_listen e < 0"
  shows "\<exists>e' w' lost'. drain_loop net wt deadline e w = Some (e', w') \<and> loop_inv {} (ctl_works net) (nv w') e' lost' \<and>
    quiet (nv w) e (nv w') e' \<and> (settled e' \<or> (\<exists>t wb. wt_now wt wb = (t, w') \<and> deadline < t))"
  using assms
proof (induction "ticks deadline w" arbitrary: e w lost rule: less_induct)
  case less
  note loop = drain_loop.simps [of net wt deadline e w]
  have same: "quiet (nv w) e (nv w) e" by (rule quiet_same) simp_all
  show ?case
  proof (cases "settled e")
    case True
    then have "drain_loop net wt deadline e w = Some (e, w)" using loop by (simp add: settled_def)
    then show ?thesis using less.prems True same by blast
  next
    case False
    obtain t w1 where now: "wt_now wt w = (t, w1)" by fastforce
    have v1: "nv w1 = nv w" "ticks deadline w1 \<le> ticks deadline w" "ticks deadline w = 0 \<longrightarrow> deadline < t" using now_law [OF now] by blast+
    show ?thesis
    proof (cases "deadline < t")
      case True
      have "drain_loop net wt deadline e w = Some (e, w1)" using loop False True now by (simp add: settled_def)
      moreover have "loop_inv {} (ctl_works net) (nv w1) e lost" "quiet (nv w) e (nv w1) e" using less.prems(1) same v1(1) by simp_all
      ultimately show ?thesis using now True by blast
    next
      case wait: False
      obtain n evs e2 w2 where wt: "wt_wait wt e 100 w1 = (n, evs, e2, w2)" by (metis prod_cases4)
      have "loop_inv {} (ctl_works net) (nv w1) e lost" using less.prems(1) v1(1) by simp
      from round_ok [OF this less.prems(2) wt, of deadline] obtain e3 w3 lost3 where 3: "handle_events net e2 (take (nat n) evs) w2 = Some (e3, w3)"
        "loop_inv {} (ctl_works net) (nv w3) e3 lost3" "quiet (nv w1) e (nv w3) e3" "ticks deadline w3 \<le> ticks deadline w1 - 1" by blast
      have "drain_loop net wt deadline e w = drain_loop net wt deadline e3 w3" using loop False wait now wt 3(1) by (simp add: settled_def)
      moreover have "ticks deadline w3 < ticks deadline w" using v1(2,3) 3(4) wait by linarith
      moreover have "ep_m_listen e3 < 0" using 3(3) less.prems(2) by (simp add: quiet_def)
      ultimately show ?thesis using less.hyps [of w3 e3 lost3] 3(2,3) quiet_trans [of "nv w1" e "nv w3" e3] v1(1) by metis
    qed
  qed
qed

end

section \<open>Reachable states\<close>

text \<open>A started loop has three descriptors of its own, which never change.\<close>

definition own_fixed :: "epoll \<Rightarrow> bool" where
  "own_fixed e \<longleftrightarrow> 0 \<le> ep_m_listen e \<and> 0 \<le> ep_epfd e \<and> 0 \<le> dq_fd (ep_done e) \<and>
     distinct [ep_m_listen e, ep_epfd e, dq_fd (ep_done e)]"

lemma effect_own_fixed: "effect v e v' e' \<Longrightarrow> own_fixed e \<Longrightarrow> own_fixed e'"
  by (simp add: effect_def own_fixed_def)

context net_contract_accept
begin

lemma ep_step_effect:
  assumes "ep_step net handler s s'" "loop_inv {} (ctl_works net) (nv (fst (snd s))) (fst s) (snd (snd s))"
  shows "effect (nv (fst (snd s))) (fst s) (nv (fst (snd s'))) (fst s')"
  using assms(1)
proof cases
  case (event e fd ev w e' w' lost)
  then show ?thesis using addevent_effect [of w e lost fd ev e' w'] assms(2) by simp
next
  case other
  then show ?thesis using other_step_quiet quiet_effect by blast
qed

lemma started_own:
  assumes "epoll_new net w0 = (e0, w1)" "start_setup net e0 port w1 = (True, e, w2)"
  shows "own_fixed e \<and> nv_open (nv w2) \<subseteq> nv_open (nv w0) \<union> own e \<and> ep_status e = []"
proof -
  obtain wake wa idle wb where n: "net_eventfd net w0 = (wake, wa)" "net_devnull net wa = (idle, wb)" by (metis prod.exhaust)
  then have e0: "e0 = \<lparr>ep_done = \<lparr>dq_queue = [], dq_wake_fd = wake\<rparr>, ep_pool = pool_new 4, ep_stopping = False, ep_idle_fd = idle,
     ep_epfd = -1, ep_m_listen = -1, ep_status = [], ep_conn_id = 0\<rparr>" "w1 = wb"
    using assms(1) by (auto simp: epoll_new_def dq_new_def)
  obtain ep wc l wd where c: "net_epoll_create net wb = (ep, wc)" "create_fd net port wc = (l, wd)" by (metis prod.exhaust)
  have e: "e = e0\<lparr>ep_epfd := ep, ep_m_listen := l\<rparr>" "0 \<le> l" "0 \<le> wake" "0 \<le> ep" "nv_open (nv w2) = nv_open (nv wd)"
    using assms(2) c e0 unfolding start_setup_def
    by (auto simp: Let_def dq_fd_def split: prod.splits if_splits dest!: set_nonblocking_view ctl_streams)
  have a: "wake \<in> nv_open (nv wa)" "nv_open (nv wa) = insert wake (nv_open (nv w0))" using eventfd_law [OF n(1)] e(3) by (auto simp: fresh_ok_def)
  have b: "nv_open (nv wa) \<subseteq> nv_open (nv wb)" "nv_open (nv wb) \<subseteq> insert idle (nv_open (nv wa))" using devnull_law [OF n(2)] by (auto simp: fresh_ok_def)
  have d: "ep \<notin> nv_open (nv wb)" "nv_open (nv wc) = insert ep (nv_open (nv wb))" using epoll_create_law [OF c(1)] e(4) by (auto simp: fresh_ok_def)
  have f: "l \<notin> nv_open (nv wc)" "nv_open (nv wd) = insert l (nv_open (nv wc))" using create_fd_view [OF c(2) e(2)] e(2) by (auto simp: fresh_ok_def)
  have "own e = {idle, l, ep, wake}" by (simp add: e(1) e0(1) own_def dq_fd_def)
  moreover have "own_fixed e" using e(2-4) a b d f by (auto simp: own_fixed_def e(1) e0(1) dq_fd_def)
  moreover have "nv_open (nv w2) \<subseteq> nv_open (nv w0) \<union> {idle, l, ep, wake}" unfolding e(5) f(2) d(2) using a b by blast
  ultimately show ?thesis by (simp add: e(1) e0(1))
qed

lemma ep_reach_own: "ep_reach net handler port s \<Longrightarrow> own_fixed (fst s)"
proof (induction rule: ep_reach.induct)
  case (started w0 e0 w1 e w2)
  then show ?case using started_own by simp
next
  case (steps s s')
  then show ?case using ep_step_effect [OF steps.hyps(2) ep_reach_inv [OF steps.hyps(1)]] effect_own_fixed by blast
qed

lemma ep_steps_reach:
  "(ep_step net handler)\<^sup>*\<^sup>* s s' \<Longrightarrow> ep_reach net handler port s \<Longrightarrow>
   ep_reach net handler port s' \<and> effect (nv (fst (snd s))) (fst s) (nv (fst (snd s'))) (fst s')"
proof (induction rule: rtranclp_induct)
  case base
  then show ?case using effect_refl by blast
next
  case (step s1 s2)
  then have "ep_reach net handler port s1" "effect (nv (fst (snd s))) (fst s) (nv (fst (snd s1))) (fst s1)" by blast+
  then show ?case using ep_step_effect [OF step.hyps(2) ep_reach_inv] ep_reach.steps step.hyps(2) effect_trans by blast
qed

end

context waiter_contract
begin

lemma stop_ok:
  assumes "ep_reach net handler port (e, w, lost)" "ep_stopping e"
  shows "\<exists>e1 w1 e2 w2. event_loop net wt e w = Some (e1, w1) \<and> start_finish net e1 w1 = (e2, w2) \<and>
    ep_status e2 = [] \<and> ep_m_listen e2 = -1 \<and> ep_epfd e2 = -1 \<and>
    nv_open (nv w2) = nv_open (nv w) - keys e - {ep_m_listen e, ep_epfd e, -1} \<and>
    ((\<forall>(k, c) \<in> set (ep_status e1). cn_inflight c \<le> 0) \<or>
     (\<exists>t wb. wt_now wt wb = (t, w1) \<and> fst (wt_now wt (snd (net_close net (ep_m_listen e) w))) + 3000 < t))"
proof -
  have inv: "loop_inv {} (ctl_works net) (nv w) e lost" and own: "own_fixed e"
    using ep_reach_inv [OF assms(1)] ep_reach_own [OF assms(1)] by simp_all
  obtain n wa where c: "net_close net (ep_m_listen e) w = (n, wa)" by fastforce
  obtain t0 wb where now: "wt_now wt wa = (t0, wb)" by fastforce
  let ?e = "e\<lparr>ep_m_listen := -1\<rparr>"
  have vb: "nv wb = nv wa" using now_law [OF now] by blast
  have va: "nv_open (nv wa) = nv_open (nv w) - {ep_m_listen e}" using close_law [OF c] by (simp add: close_fd_ok_def)
  have "loop_inv {} (ctl_works net) (nv wb) ?e lost"
    by (rule loop_inv_unlisten [OF inv]) (use own close_law [OF c] in \<open>auto simp: own_fixed_def close_fd_ok_def vb\<close>)
  from drain_ok [OF this, of "t0 + 3000"] obtain e1 w1 where d: "drain_loop net wt (t0 + 3000) ?e wb = Some (e1, w1)"
    "quiet (nv wb) ?e (nv w1) e1" "settled e1 \<or> (\<exists>t wb. wt_now wt wb = (t, w1) \<and> t0 + 3000 < t)" by auto
  obtain e2 w2 where f: "start_finish net e1 w1 = (e2, w2)" by fastforce
  have fin: "ep_status e2 = []" "ep_m_listen e2 = -1" "ep_epfd e2 = -1"
    "nv_open (nv w2) = nv_open (nv w1) - keys e1 - {ep_m_listen e1, ep_epfd e1}" using start_finish_result [OF f] by simp_all
  have "event_loop net wt e w = Some (e1, w1)" using assms(2) c now d(1) by (simp add: event_loop.simps [of net wt e w] Let_def)
  moreover have "nv_open (nv w1) = nv_open (nv w) - {ep_m_listen e} - (keys e - keys e1)" "ep_m_listen e1 = -1" "ep_epfd e1 = ep_epfd e" "keys e1 \<subseteq> keys e"
    using d(2) vb va by (simp_all add: quiet_def)
  then have "nv_open (nv w2) = nv_open (nv w) - keys e - {ep_m_listen e, ep_epfd e, -1}" using fin by auto
  moreover have "(\<forall>(k, c) \<in> set (ep_status e1). cn_inflight c \<le> 0) \<or>
     (\<exists>t wb. wt_now wt wb = (t, w1) \<and> fst (wt_now wt (snd (net_close net (ep_m_listen e) w))) + 3000 < t)"
    using d(3) c now by (auto simp: settled_def list_all_iff)
  ultimately show ?thesis using f fin(1-3)
    by (intro exI [of _ e1] exI [of _ w1] exI [of _ e2] exI [of _ w2] conjI) assumption+
qed

end

section \<open>Properties\<close>

text \<open>Property C29. The server leaks no descriptor: in every state that a started server reaches, with any interleaving
  of events, workers and signals and with every failure of the calls, what is open was open before the
  server was created, is the socket of a connection in the table, or is one of the server's own
  four descriptors.\<close>

theorem no_descriptor_leak:
  assumes "net_contract_accept net nv budget" "epoll_new net w0 = (e0, w1)" "start_setup net e0 port w1 = (True, e1, w2)"
    and "(ep_step net handler)\<^sup>*\<^sup>* (e1, w2, {#}) (e, w, lost)"
  shows "nv_open (nv w) \<subseteq> nv_open (nv w0) \<union> fst ` set (ep_status e) \<union> {ep_idle_fd e, ep_m_listen e, ep_epfd e, dq_fd (ep_done e)}"
proof -
  have "effect (nv w2) e1 (nv w) e"
    using net_contract_accept.ep_steps_reach [OF assms(1,4) ep_reach.started [OF assms(2,3)]] by simp
  then have 1: "nv_open (nv w) \<subseteq> (nv_open (nv w2) - (own e1 \<union> keys e1)) \<union> own e \<union> keys e" by (simp add: effect_def)
  have 2: "nv_open (nv w2) \<subseteq> nv_open (nv w0) \<union> own e1" using net_contract_accept.started_own [OF assms(1-3)] by blast
  show ?thesis using 1 2 unfolding own_def [of e, symmetric] by blast
qed

text \<open>Property C30. The server shuts down: from every reachable state in which a signal was received, the loop
  ends, whatever arrives meanwhile, with no request in work or after three seconds, and \<open>start\<close> then
  closes exactly what it had opened: every connection, the listening socket and the epoll descriptor.\<close>

theorem shutdown_complete:
  assumes "waiter_contract net nv budget handler wt ticks" "ep_reach net handler port (e, w, lost)" "ep_stopping e"
  shows "\<exists>e1 w1 e2 w2. event_loop net wt e w = Some (e1, w1) \<and> start_finish net e1 w1 = (e2, w2) \<and>
    ep_status e2 = [] \<and> ep_m_listen e2 = -1 \<and> ep_epfd e2 = -1 \<and>
    nv_open (nv w2) = nv_open (nv w) - fst ` set (ep_status e) - {ep_m_listen e, ep_epfd e, -1} \<and>
    ((\<forall>(k, c) \<in> set (ep_status e1). cn_inflight c \<le> 0) \<or>
     (\<exists>t wb. wt_now wt wb = (t, w1) \<and> fst (wt_now wt (snd (net_close net (ep_m_listen e) w))) + 3000 < t))"
  using assms by (rule waiter_contract.stop_ok)

text \<open>Property C31. The shutdown truncates responses: when the signal comes and no request is in work, the
  loop ends at once, also when responses wait in output buffers; \<open>start\<close> closes the
  connections, and what was in the buffers is never sent.\<close>

theorem shutdown_drops_output:
  assumes "waiter_contract net nv budget handler wt ticks" "ep_stopping e" "\<forall>(k, c) \<in> set (ep_status e). cn_inflight c \<le> 0"
    and "(fd, c) \<in> set (ep_status e)"
  shows "\<exists>e1 w1 e2 w2. event_loop net wt e w = Some (e1, w1) \<and> start_finish net e1 w1 = (e2, w2) \<and>
    (fd, c) \<in> set (ep_status e1) \<and> fd \<notin> nv_open (nv w2) \<and> nv_sent (nv w2) = nv_sent (nv w)"
proof -
  have nc: "net_contract net nv" and na: "net_contract_accept net nv budget"
    using assms(1) by (simp_all add: waiter_contract_def net_contract_accept_def net_contract_finite_def)
  obtain n wa where c: "net_close net (ep_m_listen e) w = (n, wa)" by fastforce
  obtain t wb where now: "wt_now wt wa = (t, wb)" by fastforce
  let ?e = "e\<lparr>ep_m_listen := -1\<rparr>"
  have "list_all (\<lambda>(k, c). \<not> cn_inflight c > 0) (ep_status ?e)" using assms(3) by (auto simp: list_all_iff)
  then have "drain_loop net wt (t + 3000) ?e wb = Some (?e, wb)" by (simp add: drain_loop.simps [of net wt "t + 3000" ?e wb] Let_def)
  then have l: "event_loop net wt e w = Some (?e, wb)" using assms(2) c now by (simp add: event_loop.simps [of net wt e w] Let_def)
  obtain e2 w2 where f: "start_finish net ?e wb = (e2, w2)" by fastforce
  have "nv_sent (nv wb) = nv_sent (nv w)"
    using waiter_contract.now_law [OF assms(1) now] net_contract.close_law [OF nc c] by (simp add: close_fd_ok_def)
  then have "nv_sent (nv w2) = nv_sent (nv w)" "fd \<notin> nv_open (nv w2)"
    using net_contract_accept.start_finish_result [OF na f] assms(4) by (auto intro: rev_image_eqI)
  then show ?thesis using l f assms(4) by auto
qed

section \<open>Instances\<close>

text \<open>The client of \<open>demo_loop\<close> is accepted and sends its request; then the signal comes.\<close>

lemma no_descriptor_leak_witness:
  "\<exists>(w0 :: mnet) w2 w. ep_reach mnet_os Some 80 (demo_loop [] (pool_new 4) 0, w2, {#}) \<and>
     ep_step mnet_os Some (demo_loop [] (pool_new 4) 0, w2, {#}) (demo_loop [(14, connection_new 12 14 1)] (pool_new 4) 1, w, {#}) \<and>
     nv_open (mn_view w0) = {} \<and> nv_open (mn_view w) \<subseteq> {10, 11, 12, 13, 14}"
proof -
  obtain e0 w1 w2 where s: "epoll_new mnet_os demo_world = (e0, w1)" "start_setup mnet_os e0 80 w1 = (True, demo_loop [] (pool_new 4) 0, w2)"
    "mn_accept w2 = [AConn]" "mn_next w2 = 14" "14 \<notin> nv_open (mn_view w2)"
    using run_started [of "[7]"] unfolding demo_world_def by blast
  obtain w where a: "addevent mnet_os (demo_loop [] (pool_new 4) 0) 13 EPOLLIN w2 = Some (demo_loop [(14, connection_new 12 14 1)] (pool_new 4) 1, w)"
    using run_accept [OF s(3-5), of "pool_new 4"] by blast
  have step: "ep_step mnet_os Some (demo_loop [] (pool_new 4) 0, w2, {#}) (demo_loop [(14, connection_new 12 14 1)] (pool_new 4) 1, w, {#})"
    by (rule ep_step.event [OF a]) (simp add: demo_loop_def)
  have "nv_open (mn_view w) \<subseteq> nv_open (mn_view demo_world) \<union> {14} \<union> {11, 13, 12, 10}"
    using no_descriptor_leak [OF mnet_contract_accept s(1,2) r_into_rtranclp [of "ep_step mnet_os Some", OF step]] by (simp add: demo_loop_def dq_fd_def)
  moreover have "nv_open (mn_view demo_world) = {}" by (simp add: demo_world_def mn_init_def)
  ultimately show ?thesis using step ep_reach.started [OF s(1,2), of Some] by (intro exI [of _ demo_world] exI [of _ w2] exI [of _ w]) auto
qed

lemma shutdown_complete_witness:
  "\<exists>w e1 w1 e2 w2. ep_reach mnet_os Some 80 ((demo_loop [(14, demo_conn)] demo_pool 1)\<lparr>ep_stopping := True\<rparr>, w, {#}) \<and>
     event_loop mnet_os mnet_wt ((demo_loop [(14, demo_conn)] demo_pool 1)\<lparr>ep_stopping := True\<rparr>) w = Some (e1, w1) \<and>
     start_finish mnet_os e1 w1 = (e2, w2) \<and> ep_status e2 = [] \<and> 14 \<notin> nv_open (mn_view w2) \<and> 13 \<notin> nv_open (mn_view w2)"
proof -
  let ?e = "(demo_loop [(14, demo_conn)] demo_pool 1)\<lparr>ep_stopping := True\<rparr>"
  obtain w where r: "ep_reach mnet_os Some 80 (demo_loop [(14, demo_conn)] demo_pool 1, w, {#})" using demo_reach by blast
  obtain w' where "on_signal mnet_os [demo_loop [(14, demo_conn)] demo_pool 1] w = ([?e], w')" by (simp add: Let_def)
  then have "ep_reach mnet_os Some 80 (?e, w', {#})" by (intro ep_reach.steps [OF r] ep_step.other other_step.signal)
  moreover from shutdown_complete [OF mnet_waiter this] obtain e1 w1 e2 w2 where "event_loop mnet_os mnet_wt ?e w' = Some (e1, w1)"
    "start_finish mnet_os e1 w1 = (e2, w2)" "ep_status e2 = []" "nv_open (mn_view w2) = nv_open (mn_view w') - fst ` set (ep_status ?e) - {ep_m_listen ?e, ep_epfd ?e, -1}"
    by auto
  ultimately show ?thesis
    by (intro exI [of _ w'] exI [of _ e1] exI [of _ w1] exI [of _ e2] exI [of _ w2]) (simp add: demo_loop_def)
qed

text \<open>Three bytes of a response are still in the buffer.\<close>

definition full_conn :: connection where
  "full_conn = (connection_new 12 14 1)\<lparr>cn_Outbuffer := [1, 2, 3]\<rparr>"

lemma shutdown_drops_output_witness:
  "\<exists>e1 w1 e2 w2. event_loop mnet_os mnet_wt ((demo_loop [(14, full_conn)] (pool_new 4) 1)\<lparr>ep_stopping := True\<rparr>) demo_world = Some (e1, w1) \<and>
     start_finish mnet_os e1 w1 = (e2, w2) \<and> (14, full_conn) \<in> set (ep_status e1) \<and> cn_Outbuffer full_conn = [1, 2, 3] \<and>
     14 \<notin> nv_open (mn_view w2) \<and> nv_sent (mn_view w2) 14 = []"
proof -
  let ?e = "(demo_loop [(14, full_conn)] (pool_new 4) 1)\<lparr>ep_stopping := True\<rparr>"
  have "ep_stopping ?e" "\<forall>(k, c) \<in> set (ep_status ?e). cn_inflight c \<le> 0" "(14, full_conn) \<in> set (ep_status ?e)"
    by (simp_all add: demo_loop_def full_conn_def connection_new_def)
  from shutdown_drops_output [OF mnet_waiter this, of demo_world] obtain e1 w1 e2 w2 where
    "event_loop mnet_os mnet_wt ?e demo_world = Some (e1, w1)" "start_finish mnet_os e1 w1 = (e2, w2)" "(14, full_conn) \<in> set (ep_status e1)"
    "14 \<notin> nv_open (mn_view w2)" "nv_sent (mn_view w2) = nv_sent (mn_view demo_world)" by blast
  then show ?thesis by (intro exI conjI) (assumption | simp add: full_conn_def demo_world_def mn_init_def)+
qed

end
