(* ===== verification/Epoll_answers.thy ===== *)
theory Epoll_answers
  imports Epoll_safety
begin

text \<open>
  What a client of the server gets (\<open>src/Epoll.cpp\<close>, \<open>src/net/Connection.cpp\<close>, \<open>src/ThreadPool.cpp\<close> and
  \<open>include/net/Donequeue.h\<close> together): every request decoded from the bytes of a connection is, at any time, either in the pool,
  or its answer is in the done queue, or its answer was given to this connection, once. The
  ledger \<open>account\<close> says so for one connection; every step of the loop, the workers and the
  signal handler keeps it.
\<close>

section \<open>The ledger\<close>

text \<open>The answers of the handler to the messages; a message whose handler throws has none.\<close>

definition answers :: "(bytes \<Rightarrow> bytes option) \<Rightarrow> bytes list \<Rightarrow> bytes list" where
  "answers handler ms = List.map_filter handler ms"

text \<open>The answers the tasks with the key \<open>k\<close> will give, and all that is on its way to the
  connection \<open>k\<close>: these and the responses in the done queue.\<close>

definition promised :: "(bytes \<Rightarrow> bytes option) \<Rightarrow> int \<times> u64 \<Rightarrow> task multiset \<Rightarrow> bytes multiset" where
  "promised handler k T = image_mset (\<lambda>t. the (handler (tk_msg t))) {#t \<in># T. tkey t = k \<and> handler (tk_msg t) \<noteq> None#}"

definition owed :: "(bytes \<Rightarrow> bytes option) \<Rightarrow> epoll \<Rightarrow> int \<times> u64 \<Rightarrow> bytes multiset" where
  "owed handler e k = promised handler k (mset (tp_tasks (ep_pool e)) + running (ep_pool e)) +
     mset (routed (dq_queue (ep_done e)) (fst k) (snd k))"

text \<open>The account of the connection \<open>c\<close>: the requests \<open>ms\<close> of its stream, the responses \<open>rs\<close> given to
  it so far and those still owed.\<close>

definition account :: "(bytes \<Rightarrow> bytes option) \<Rightarrow> net_view \<Rightarrow> (int \<times> u64 \<Rightarrow> bytes multiset) \<Rightarrow> int \<Rightarrow> connection \<Rightarrow> bool" where
  "account handler v Q fd c \<longleftrightarrow> (\<exists>ms rs. in_step c (nv_rcvd v fd) ms \<and>
     nv_sent v fd @ unsent c = concat (map encode rs) \<and>
     cn_inflight c = int (length ms) - int (length rs) \<and>
     mset (answers handler ms) = mset rs + Q (fd, cn_id c))"

definition accounts :: "(bytes \<Rightarrow> bytes option) \<Rightarrow> net_view \<Rightarrow> epoll \<Rightarrow> bool" where
  "accounts handler v e \<longleftrightarrow> (\<forall>fd c. conn_at e fd = Some c \<longrightarrow> account handler v (owed handler e) fd c)"

lemma answers_simps [simp]:
  "answers handler [] = []"
  "answers handler (m # ms) = (case handler m of None \<Rightarrow> answers handler ms | Some r \<Rightarrow> r # answers handler ms)"
  "answers handler (ms @ ms') = answers handler ms @ answers handler ms'"
  by (simp_all add: answers_def map_filter_def split: option.splits)

lemma length_answers: "length (answers handler ms) \<le> length ms"
  by (induction ms) (auto split: option.splits)

lemma answers_all:
  "length (answers handler ms) = length ms \<Longrightarrow> image_mset handler (mset ms) = image_mset Some (mset (answers handler ms))"
proof (induction ms)
  case (Cons m ms)
  then show ?case using length_answers [of handler ms] by (cases "handler m") auto
qed simp

lemma promised_simps [simp]:
  "promised handler k {#} = {#}"
  "promised handler k (add_mset t T) = (if tkey t = k \<and> handler (tk_msg t) \<noteq> None
     then add_mset (the (handler (tk_msg t))) (promised handler k T) else promised handler k T)"
  "promised handler k (T + T') = promised handler k T + promised handler k T'"
  by (simp_all add: promised_def)

lemma promised_none: "\<forall>t \<in># T. tkey t \<noteq> k \<Longrightarrow> promised handler k T = {#}"
  by (induction T) auto

lemma promised_tasks_of:
  "promised handler k (mset (tasks_of c ms)) = (if k = (cn_fd c, cn_id c) then mset (answers handler ms) else {#})"
  by (induction ms) (auto simp: tasks_of_def tkey_def split: option.splits)

lemma account_cong:
  assumes "account handler v Q fd c" "nv_rcvd v' fd = nv_rcvd v fd" "nv_sent v' fd = nv_sent v fd"
    and "Q' (fd, cn_id c) = Q (fd, cn_id c)"
  shows "account handler v' Q' fd c"
  using assms by (simp add: account_def)

lemma account_at: "accounts handler v e \<Longrightarrow> conn_at e fd = Some c \<Longrightarrow> account handler v (owed handler e) fd c"
  by (simp add: accounts_def)

lemma owed_status [simp]: "owed handler (e\<lparr>ep_status := st\<rparr>) = owed handler e"
  by (simp add: owed_def fun_eq_iff)

section \<open>The handlers\<close>

lemma account_new:
  assumes "nv_rcvd v fd = []" "nv_sent v fd = []" "Q (fd, cid) = {#}"
  shows "account handler v Q fd (connection_new epfd fd cid)"
proof -
  have "session_inv False v (connection_new epfd fd cid) (pool_new 0) (pool_new 0) [] []"
    using session_start [OF assms(2,1)] .
  then show ?thesis using assms unfolding account_def session_inv_def
    by (intro exI [of _ "[]"]) (simp_all add: connection_new_def)
qed

text \<open>A key without outstanding requests is owed nothing.\<close>

lemma owed_none:
  assumes "k \<notin># outstanding e"
  shows "owed handler e k = {#}"
proof -
  have "tkey t \<noteq> k" if "t \<in># mset (tp_tasks (ep_pool e)) + running (ep_pool e)" for t
    using assms that by (force simp: outstanding_def)
  then have "promised handler k (mset (tp_tasks (ep_pool e)) + running (ep_pool e)) = {#}"
    by (simp add: promised_none)
  moreover have "k \<notin># mset (map dkey (dq_queue (ep_done e)))" using assms by (simp add: outstanding_def)
  then have "routed (dq_queue (ep_done e)) (fst k) (snd k) = []"
    by (cases k) (force simp: routed_def dkey_def filter_empty_conv)
  ultimately show ?thesis by (simp add: owed_def)
qed

text \<open>One connection's turn, which may have submitted its own tasks, and perhaps its end.\<close>

context net_contract
begin

lemma accounts_close_unless:
  assumes "accounts handler (nv w) e" "conn_at e fd = Some c" "ep_status e1 = ep_status e"
    and "\<forall>k. k \<noteq> fd \<longrightarrow> nv_rcvd (nv w1) k = nv_rcvd (nv w) k \<and> nv_sent (nv w1) k = nv_sent (nv w) k"
    and "\<forall>k. fst k \<noteq> fd \<longrightarrow> owed handler e1 k = owed handler e k"
    and "ok \<longrightarrow> account handler (nv w1) (owed handler e1) fd c'"
    and "close_unless net e1 fd ok c' w1 = (e', w')"
  shows "accounts handler (nv w') e'"
proof -
  have e': "ep_status e' = (if ok then st_put fd c' (ep_status e) else st_erase fd (ep_status e))"
    "owed handler e' = owed handler e1" "nv_rcvd (nv w') = nv_rcvd (nv w1)" "nv_sent (nv w') = nv_sent (nv w1)"
  proof -
    obtain e2 w2 where c: "onclose net (e1\<lparr>ep_status := st_put fd c' (ep_status e1)\<rparr>) fd w1 = (e2, w2)" by fastforce
    note oc = onclose_result [OF c]
    show "ep_status e' = (if ok then st_put fd c' (ep_status e) else st_erase fd (ep_status e))"
      "owed handler e' = owed handler e1" "nv_rcvd (nv w') = nv_rcvd (nv w1)" "nv_sent (nv w') = nv_sent (nv w1)"
      using assms(3,7) c oc by (cases ok; auto simp: close_unless_def)+
  qed
  show ?thesis
    unfolding accounts_def
  proof (intro allI impI)
    fix k d
    assume d: "conn_at e' k = Some d"
    show "account handler (nv w') (owed handler e') k d"
    proof (cases "k = fd")
      case True
      then have "ok" "d = c'" using d assms(2) unfolding e'(1) by (auto split: if_splits)
      then show ?thesis using assms(6) True account_cong [of handler "nv w1" "owed handler e1" k d "nv w'"] e' by simp
    next
      case False
      then have "conn_at e k = Some d" using d unfolding e'(1) by (auto split: if_splits)
      from account_at [OF assms(1) this] show ?thesis
        by (rule account_cong) (use False assms(4,5) e' in auto)
    qed
  qed
qed

lemma accounts_onclose:
  assumes "accounts handler (nv w) e" "onclose net e fd w = (e', w')"
  shows "accounts handler (nv w') e'"
  unfolding accounts_def
proof (intro allI impI)
  fix k d
  note oc = onclose_result [OF assms(2)]
  have ow: "owed handler e' = owed handler e" using oc owed_status by metis
  assume "conn_at e' k = Some d"
  then have "conn_at e k = Some d" using oc by (auto split: if_splits)
  from account_at [OF assms(1) this] show "account handler (nv w') (owed handler e') k d"
    by (rule account_cong) (use oc ow in simp_all)
qed

end

text \<open>The requests of a connection that was read are owed to it.\<close>

lemma owed_submit:
  assumes "\<not> tp_stopping (ep_pool e)"
  shows "owed handler (e\<lparr>ep_pool := foldl submit (ep_pool e) (tasks_of c new)\<rparr>) k =
    owed handler e k + (if k = (cn_fd c, cn_id c) then mset (answers handler new) else {#})"
  using foldl_submit [OF assms, of "tasks_of c new"] by (simp add: owed_def promised_tasks_of)

text \<open>The drained responses were owed to the connections they are routed to, and are given to them.\<close>

lemma accounts_done:
  assumes "accounts handler v e"
    and "done_post reg v (e\<lparr>ep_done := (ep_done e)\<lparr>dq_queue := []\<rparr>\<rparr>) (dq_queue (ep_done e)) v' e'"
  shows "accounts handler v' e'"
  unfolding accounts_def
proof (intro allI impI)
  fix k c'
  assume c': "conn_at e' k = Some c'"
  let ?items = "dq_queue (ep_done e)"
  obtain S where e': "e' = e\<lparr>ep_done := (ep_done e)\<lparr>dq_queue := []\<rparr>, ep_status := S\<rparr>"
    using assms(2) unfolding done_post_def by auto
  have r: "nv_rcvd v' = nv_rcvd v" using assms(2) by (simp add: done_post_def)
  obtain c where c: "conn_at e k = Some c" "conn_done reg v k c (routed ?items k (cn_id c)) v' (Some c')"
    using assms(2) c' unfolding done_post_def by (cases "conn_at e k") (auto dest!: spec [of _ k])
  let ?rs = "routed ?items k (cn_id c)"
  have d: "nv_sent v' k @ unsent c' = nv_sent v k @ unsent c @ concat (map encode ?rs)" "cn_id c' = cn_id c"
    "cn_inflight c' = cn_inflight c - int (length ?rs)" "cn_decoder c' = cn_decoder c"
    using c(2) by (simp_all add: conn_done_def)
  have o: "owed handler e (k, cn_id c) = mset ?rs + owed handler e' (k, cn_id c)"
    by (simp add: owed_def e')
  obtain ms rs where a: "in_step c (nv_rcvd v k) ms" "nv_sent v k @ unsent c = concat (map encode rs)"
    "cn_inflight c = int (length ms) - int (length rs)" "mset (answers handler ms) = mset rs + owed handler e (k, cn_id c)"
    using account_at [OF assms(1) c(1)] unfolding account_def by blast
  have "nv_sent v' k @ unsent c' = concat (map encode (rs @ ?rs))"
    using d(1) a(2) by (simp flip: append_assoc)
  moreover have "in_step c' (nv_rcvd v' k) ms" using a(1) d(4) r by (simp add: in_step_def)
  moreover have "cn_inflight c' = int (length ms) - int (length (rs @ ?rs))" using a(3) d(3) by simp
  moreover have "mset (answers handler ms) = mset (rs @ ?rs) + owed handler e' (k, cn_id c')"
    using a(4) o d(2) by simp
  ultimately show "account handler v' (owed handler e') k c'" unfolding account_def by blast
qed

context net_contract_accept
begin

lemma accounts_read:
  assumes "loop_inv {} (ctl_works net) (nv w) e lost" "accounts handler (nv w) e" "conn_at e fd = Some c"
    and "handreadable net c (ep_pool e) w = Some (ok, c', pool, w1)"
    and "close_unless net (e\<lparr>ep_pool := pool\<rparr>) fd ok c' w1 = (e', w')"
  shows "accounts handler (nv w') e'"
proof -
  have fd: "cn_fd c = fd" using loop_inv_live [OF assms(1,3)] by (simp add: live_def)
  obtain ms rs where a: "in_step c (nv_rcvd (nv w) fd) ms" "nv_sent (nv w) fd @ unsent c = concat (map encode rs)"
    "cn_inflight c = int (length ms) - int (length rs)" "mset (answers handler ms) = mset rs + owed handler e (fd, cn_id c)"
    using account_at [OF assms(2,3)] unfolding account_def by blast
  have "read_post (ctl_works net) (nv w) c (ep_pool e) ms ok c' pool (nv w1)"
    using handreadable_result [where c = c and w = w and ms = ms and pool = "ep_pool e"] a(1) fd assms(4) by auto
  then obtain new where n: "pool = foldl submit (ep_pool e) (tasks_of c new)" "cn_inflight c' = cn_inflight c + int (length new)"
      "nv_sent (nv w1) = nv_sent (nv w)" "\<forall>k. k \<noteq> fd \<longrightarrow> nv_rcvd (nv w1) k = nv_rcvd (nv w) k"
      "cn_id c' = cn_id c" "cn_Outbuffer c' = cn_Outbuffer c" "cn_idx c' = cn_idx c"
      "ok \<longrightarrow> in_step c' (nv_rcvd (nv w1) fd) (ms @ new)"
    using fd unfolding read_post_def by metis
  have ns: "\<not> tp_stopping (ep_pool e)" using assms(1) by (simp add: loop_inv_def)
  have o: "owed handler (e\<lparr>ep_pool := pool\<rparr>) k = owed handler e k + (if k = (fd, cn_id c) then mset (answers handler new) else {#})" for k
    using owed_submit [OF ns, of handler c new k] n(1) fd by simp
  have u: "unsent c' = unsent c" using n(6,7) by (simp add: unsent_def)
  have "account handler (nv w1) (owed handler (e\<lparr>ep_pool := pool\<rparr>)) fd c'" if ok
    unfolding account_def
  proof (intro exI conjI)
    show "in_step c' (nv_rcvd (nv w1) fd) (ms @ new)" using n(8) that by blast
    show "nv_sent (nv w1) fd @ unsent c' = concat (map encode rs)" using n(3) u a(2) by simp
    show "cn_inflight c' = int (length (ms @ new)) - int (length rs)" using n(2) a(3) by simp
    show "mset (answers handler (ms @ new)) = mset rs + owed handler (e\<lparr>ep_pool := pool\<rparr>) (fd, cn_id c')"
      using a(4) o n(5) by simp
  qed
  then show ?thesis
    by (intro accounts_close_unless [OF assms(2,3) _ _ _ _ assms(5)]) (use n(3,4) o in auto)
qed

lemma accounts_write:
  assumes "loop_inv {} (ctl_works net) (nv w) e lost" "accounts handler (nv w) e" "conn_at e fd = Some c"
    and "handwrite net c w = Some (Some ok, c', w1)" "close_unless net e fd ok c' w1 = (e', w')"
  shows "accounts handler (nv w') e'"
proof -
  have l: "cn_fd c = fd" "conn_inv c" using loop_inv_live [OF assms(1,3)] by (simp_all add: live_def)
  have "flow (ctl_works net) (nv w) c [] (nv w1) c'" using handwrite_result [where w = w, OF l(2)] assms(4) by auto
  then have f: "nv_sent (nv w1) fd @ unsent c' = nv_sent (nv w) fd @ unsent c" "nv_rcvd (nv w1) = nv_rcvd (nv w)"
    "\<forall>k. k \<noteq> fd \<longrightarrow> nv_sent (nv w1) k = nv_sent (nv w) k" "cn_id c' = cn_id c" "cn_inflight c' = cn_inflight c"
    "cn_decoder c' = cn_decoder c"
    using l(1) by (simp_all add: flow_def)
  have "account handler (nv w1) (owed handler e) fd c'"
    using account_at [OF assms(2,3)] f by (simp add: account_def in_step_def)
  then show ?thesis
    by (intro accounts_close_unless [OF assms(2,3) _ _ _ _ assms(5)]) (use f(2,3) in auto)
qed

end

text \<open>A new connection has a new id, so nothing is owed to it yet.\<close>

context net_contract_accept
begin

lemma accounts_accept_one:
  assumes "accept_one net e w = (again, e', w')" "loop_inv {} (ctl_works net) (nv w) e lost" "accounts handler (nv w) e"
    and "again \<longrightarrow> unat (ep_conn_id e) + 1 < 2 ^ 64"
  shows "accounts handler (nv w') e'"
proof -
  have ks: "k \<in> nv_open (nv w)" "0 \<le> k" "k \<noteq> ep_idle_fd e" if "conn_at e k = Some c" for k c
    using loop_inv_keys [OF assms(2) at_key [OF that]] by (auto simp: own_def)
  have old: "account handler (nv w') (owed handler e') k c"
    if "conn_at e k = Some c" "nv_rcvd (nv w') k = nv_rcvd (nv w) k" "nv_sent (nv w') k = nv_sent (nv w) k" "owed handler e' = owed handler e" for k c
    using account_at [OF assms(3) that(1)] that(2-4) by (auto intro: account_cong)
  show ?thesis
  proof (cases rule: accept_one_cases [OF assms(1), case_names stop spare new])
    case stop
    then show ?thesis using old ks by (auto simp: accounts_def kept_def)
  next
    case (spare i)
    have "owed handler e' = owed handler e" by (simp add: spare(2) owed_def fun_eq_iff)
    then show ?thesis using old ks spare(2,3) by (auto simp: accounts_def kept_def)
  next
    case (new fd)
    let ?id = "ep_conn_id e + 1"
    have free: "conn_at e fd = None" using ks new(4) by (cases "conn_at e fd") auto
    have ow: "owed handler e' = owed handler e" by (simp add: new(9) owed_def fun_eq_iff)
    have "unat ?id = unat (ep_conn_id e) + 1" using assms(4) new(1) by (simp add: unat_word_ariths)
    then have "\<not> ?id \<le> ep_conn_id e" by (simp add: word_le_nat_alt)
    then have "(fd, ?id) \<notin># outstanding e" using loop_inv_ids [OF assms(2), of "(fd, ?id)"] by auto
    then have none: "owed handler e (fd, ?id) = {#}" by (rule owed_none)
    show ?thesis
      unfolding accounts_def
    proof (intro allI impI)
      fix k c
      assume c: "conn_at e' k = Some c"
      show "account handler (nv w') (owed handler e') k c"
      proof (cases "k = fd")
        case True
        then have "c = connection_new (ep_epfd e) fd ?id" using c free by (simp add: new(9) map_of_emplace map_add_def)
        then show ?thesis using account_new [OF new(6,10)] none ow True by simp
      next
        case False
        then have "conn_at e k = Some c" using c free by (auto simp: new(9) map_of_emplace map_add_def split: option.splits)
        then show ?thesis using old False new(8,11) ow by blast
      qed
    qed
  qed
qed

lemma accounts_onaccept:
  assumes "onaccept net e fd w = Some (e', w')" "loop_inv {} (ctl_works net) (nv w) e lost" "accounts handler (nv w) e"
    and "unat (ep_conn_id e) + length (ep_status e') < 2 ^ 64 + length (ep_status e)"
  shows "accounts handler (nv w') e'"
  using assms
proof (induction "budget w" arbitrary: e w rule: less_induct)
  case less
  obtain again e1 w1 where a: "accept_one net e w = (again, e1, w1)" by (metis prod_cases3)
  note one = accept_one_inv [OF a, of lost] and tbl = loop_inv_open [OF less.prems(2)]
  consider (neg) "fd < 0" | (last) "\<not> fd < 0" "\<not> again" | (go) "\<not> fd < 0" "again" by blast
  then show ?case
  proof cases
    case neg
    then have "w' = w" "e' = e" using less.prems(1) by (subst (asm) onaccept.simps, simp)+
    then show ?thesis using less.prems(3) by simp
  next
    case last
    then have "w' = w1" "e' = e1" using less.prems(1) a by (subst (asm) onaccept.simps, simp)+
    then show ?thesis using accounts_accept_one [OF a less.prems(2,3)] last by simp
  next
    case go
    then have r: "onaccept net e1 fd w1 = Some (e', w')" using less.prems(1) a by (subst (asm) onaccept.simps) simp
    have e1: "ep_conn_id e1 = ep_conn_id e + 1" "length (ep_status e1) = Suc (length (ep_status e))" "table_open (nv w1) e1"
      using one tbl go(2) by auto
    then have "length (ep_status e1) \<le> length (ep_status e')"
      using onaccept_inv [of e1 fd w1 lost] r by auto
    then have id: "unat (ep_conn_id e) + 1 < 2 ^ 64" using less.prems(4) e1(2) by linarith
    then have u: "unat (ep_conn_id e1) = Suc (unat (ep_conn_id e))" unfolding e1(1) by (simp add: unat_word_ariths)
    show ?thesis
    proof (rule less.hyps [OF _ r])
      show "budget w1 < budget w" using one go(2) by blast
      show "loop_inv {} (ctl_works net) (nv w1) e1 lost" using one less.prems(2) id by blast
      show "accounts handler (nv w1) e1" using accounts_accept_one [OF a less.prems(2,3)] id by blast
      show "unat (ep_conn_id e1) + length (ep_status e') < 2 ^ 64 + length (ep_status e1)"
        using less.prems(4) u e1(2) by linarith
    qed
  qed
qed

lemma accounts_addevent:
  assumes "loop_inv {} (ctl_works net) (nv w) e lost" "accounts handler (nv w) e" "addevent net e fd ev w = Some (e', w')"
    and "unat (ep_conn_id e) + length (ep_status e') < 2 ^ 64"
  shows "accounts handler (nv w') e'"
  using assms(3)
proof (cases rule: addevent_cases)
  case resp
  then show ?thesis
    using ondone_result [OF loop_inv_table [OF assms(1)], of w] accounts_done [OF assms(2)] by auto
next
  case acc
  then show ?thesis using accounts_onaccept [OF _ assms(1,2)] assms(4) by simp
next
  case same
  then show ?thesis using assms(2) by simp
next
  case (readable c ok c1 pool w1)
  then show ?thesis using accounts_read [OF assms(1,2)] by blast
next
  case (writable c ok c1 w1)
  then show ?thesis using accounts_write [OF assms(1,2)] by blast
next
  case (close c)
  then show ?thesis using accounts_onclose [OF assms(2)] by blast
qed

end

section \<open>All steps\<close>

lemma owed_pool_done:
  "owed handler (e\<lparr>ep_pool := p, ep_done := q\<rparr>) k = promised handler k (mset (tp_tasks p) + running p) + mset (routed (dq_queue q) (fst k) (snd k))"
  "owed handler (e\<lparr>ep_pool := p\<rparr>) k = promised handler k (mset (tp_tasks p) + running p) + mset (routed (dq_queue (ep_done e)) (fst k) (snd k))"
  by (simp_all add: owed_def)

lemma accounts_same:
  assumes "accounts handler v e" "ep_status e' = ep_status e" "nv_rcvd v' = nv_rcvd v" "nv_sent v' = nv_sent v"
    and "owed handler e' = owed handler e"
  shows "accounts handler v' e'"
  using assms by (simp add: accounts_def account_def)

text \<open>When a worker ends a task, its answer moves from the pool to the done queue.\<close>

lemma owed_finish:
  assumes "i < length (tp_workers (ep_pool e))" "tp_workers (ep_pool e) ! i = Running t"
    and "dq_queue q = dq_queue (ep_done e) @ (case handler (tk_msg t) of None \<Rightarrow> [] | Some r \<Rightarrow> [\<lparr>di_fd = tk_fd t, di_id = tk_id t, di_resp = r\<rparr>])"
  shows "owed handler (e\<lparr>ep_pool := worker_done (ep_pool e) i, ep_done := q\<rparr>) = owed handler e"
proof
  fix k
  have "promised handler k (running (ep_pool e)) = promised handler k (running (worker_done (ep_pool e) i)) + promised handler k {#t#}"
    unfolding work_done [OF assms(1,2), symmetric] by (rule promised_simps(3))
  moreover have "tp_tasks (worker_done (ep_pool e) i) = tp_tasks (ep_pool e)" by (simp add: worker_done_def)
  moreover have "mset (routed (dq_queue q) (fst k) (snd k)) = mset (routed (dq_queue (ep_done e)) (fst k) (snd k)) + promised handler k {#t#}"
    unfolding assms(3) by (cases k) (auto simp: routed_def tkey_def split: option.splits)
  ultimately show "owed handler (e\<lparr>ep_pool := worker_done (ep_pool e) i, ep_done := q\<rparr>) k = owed handler e k"
    by (simp add: owed_pool_done) (simp add: owed_def)
qed

context net_contract_accept
begin

lemma accounts_other:
  assumes "other_step net handler s s'" "accounts handler (nv (fst (snd s))) (fst s)"
  shows "accounts handler (nv (fst (snd s'))) (fst s')"
  using assms
proof cases
  case (worker e l p w lost)
  have "owed handler (e\<lparr>ep_pool := p\<rparr>) k = owed handler e k" for k
    unfolding owed_pool_done work_kept [OF worker(3-5)] by (simp add: owed_def)
  then have "owed handler (e\<lparr>ep_pool := p\<rparr>) = owed handler e" by (rule ext)
  then show ?thesis using assms(2) unfolding worker(1,2) fst_conv snd_conv
    by - (rule accounts_same, assumption, simp_all)
next
  case (respond i e t w q w' lost)
  then obtain resp where h: "handler (tk_msg t) = Some resp" by blast
  have p: "dq_push net (ep_done e) (tk_fd t) (tk_id t) resp w = (q, w')" using respond(6) h by (simp add: run_task_def)
  note v = dq_push_view [OF p]
  have "owed handler (e\<lparr>ep_pool := worker_done (ep_pool e) i, ep_done := q\<rparr>) = owed handler e"
    by (rule owed_finish [OF respond(3,4)]) (use v h in simp)
  then show ?thesis using assms(2) v unfolding respond(1,2) fst_conv snd_conv
    by - (rule accounts_same, assumption, simp_all)
next
  case (throw i e t w q w' lost)
  then have q: "q = ep_done e" "w' = w" by (auto simp: run_task_def)
  have "owed handler (e\<lparr>ep_pool := worker_done (ep_pool e) i, ep_done := q\<rparr>) = owed handler e"
    by (rule owed_finish [OF throw(3,4)]) (use q(1) throw(5) in simp)
  then show ?thesis using assms(2) q(2) unfolding throw(1,2) fst_conv snd_conv
    by - (rule accounts_same, assumption, simp_all)
next
  case (signal e w e' w' lost)
  obtain n w1 where wr: "net_write net (dq_fd (ep_done e)) 1 w = (n, w1)" by fastforce
  then have e': "e' = e\<lparr>ep_stopping := True\<rparr>" "w' = w1" using signal(3) by (auto simp: Let_def)
  have v: "nv_rcvd (nv w1) = nv_rcvd (nv w)" "nv_sent (nv w1) = nv_sent (nv w)" using write_law [OF wr] by (auto simp: write_ok_def)
  have "owed handler (e\<lparr>ep_stopping := True\<rparr>) = owed handler e" by (simp add: owed_def fun_eq_iff)
  then show ?thesis using assms(2) v unfolding signal(1,2) fst_conv snd_conv e'
    by - (rule accounts_same, assumption, simp_all)
qed

lemma accounts_reach: "ep_reach net handler port s \<Longrightarrow> accounts handler (nv (fst (snd s))) (fst s)"
proof (induction rule: ep_reach.induct)
  case (started w0 e0 w1 e w2)
  then have "ep_status e = []" by (auto simp: epoll_new_def start_setup_def Let_def split: prod.splits if_splits)
  then show ?case by (simp add: accounts_def)
next
  case (steps s s')
  note inv = ep_reach_inv [OF steps.hyps(1)]
  from steps.hyps(2) show ?case
  proof cases
    case (event e fd ev w e' w' lost)
    then show ?thesis using accounts_addevent [of w e lost handler fd ev e' w'] inv steps.IH by simp
  next
    case other
    then show ?thesis using accounts_other steps.IH by blast
  qed
qed

lemma ledger:
  assumes "ep_reach net handler port (e, w, lost)" "conn_at e fd = Some c"
  shows "\<exists>ms rs. in_step c (nv_rcvd (nv w) fd) ms \<and> nv_sent (nv w) fd @ unsent c = concat (map encode rs) \<and>
    mset (answers handler ms) = mset rs + owed handler e (fd, cn_id c) \<and>
    (cn_inflight c = 0 \<longrightarrow> image_mset handler (mset ms) = image_mset Some (mset rs))"
proof -
  obtain ms rs where a: "in_step c (nv_rcvd (nv w) fd) ms" "nv_sent (nv w) fd @ unsent c = concat (map encode rs)"
    "cn_inflight c = int (length ms) - int (length rs)" "mset (answers handler ms) = mset rs + owed handler e (fd, cn_id c)"
    using account_at [OF accounts_reach [OF assms(1), unfolded fst_conv snd_conv] assms(2)] unfolding account_def by blast
  have "image_mset handler (mset ms) = image_mset Some (mset rs)" if "cn_inflight c = 0"
  proof -
    have "length ms = length rs" using a(3) that by simp
    then have "owed handler e (fd, cn_id c) = {#} \<and> length (answers handler ms) = length ms"
      using arg_cong [OF a(4), of size] length_answers [of handler ms] by simp
    then show ?thesis using a(4) answers_all [of handler ms] by simp
  qed
  then show ?thesis using a by blast
qed

end

section \<open>A run to the end\<close>

text \<open>The client of \<open>Epoll_safety\<close> again: a worker answers its request with an echo, and the
  loop sends the answer.\<close>

definition run_pool :: "bytes \<Rightarrow> task pool" where
  "run_pool m = (pool_new 4)\<lparr>tp_workers := [Running \<lparr>tk_fd = 14, tk_id = 1, tk_msg = m\<rparr>, Check, Check, Check]\<rparr>"

lemma run_queued:
  "submit (pool_new 4) t = (pool_new 4)\<lparr>tp_tasks := [t]\<rparr>"
  by (simp add: submit_def submit_push_def submit_notify_def pool_new_def first_waiting_def)

lemma run_submit:
  "pool_step (submit (pool_new 4) \<lparr>tk_fd = 14, tk_id = 1, tk_msg = m\<rparr>) (Started \<lparr>tk_fd = 14, tk_id = 1, tk_msg = m\<rparr>) (run_pool m)"
proof -
  let ?p = "(pool_new 4)\<lparr>tp_tasks := [\<lparr>tk_fd = 14, tk_id = 1, tk_msg = m\<rparr>]\<rparr>"
  have "pool_step ?p (Started \<lparr>tk_fd = 14, tk_id = 1, tk_msg = m\<rparr>) (worker_check ?p 0)"
    by (rule pool_step.start [where ts = "[]"]) (simp_all add: pool_new_def)
  moreover have "worker_check ?p 0 = run_pool m" by (simp add: worker_check_def run_pool_def pool_new_def eval_nat_numeral)
  ultimately show ?thesis unfolding run_queued by simp
qed

lemma run_respond:
  assumes "mn_send w = []" "nv_rcvd (mn_view w) 14 = encode m"
  shows "\<exists>e w'. other_step mnet_os Some (demo_loop [(14, c)] (run_pool m) 1, w, {#}) (e, w', {#}) \<and>
    e = (demo_loop [(14, c)] (pool_new 4) 1)\<lparr>ep_done := \<lparr>dq_queue = [\<lparr>di_fd = 14, di_id = 1, di_resp = m\<rparr>], dq_wake_fd = 10\<rparr>\<rparr> \<and>
    mn_send w' = [] \<and> nv_rcvd (mn_view w') 14 = encode m"
proof -
  let ?t = "\<lparr>tk_fd = 14, tk_id = 1, tk_msg = m\<rparr>" and ?q = "\<lparr>dq_queue = [\<lparr>di_fd = 14, di_id = 1, di_resp = m\<rparr>], dq_wake_fd = 10\<rparr>"
  let ?w = "snd (mnet_write 10 1 w)"
  have "run_task mnet_os Some (ep_done (demo_loop [(14, c)] (run_pool m) 1)) ?t w = (?q, ?w)"
    by (simp add: run_task_def dq_push_def dq_put_def demo_loop_def)
  then have "other_step mnet_os Some (demo_loop [(14, c)] (run_pool m) 1, w, {#})
      ((demo_loop [(14, c)] (run_pool m) 1)\<lparr>ep_pool := worker_done (ep_pool (demo_loop [(14, c)] (run_pool m) 1)) 0, ep_done := ?q\<rparr>, ?w, {#})"
    by (intro other_step.respond [where t = ?t]) (simp_all add: demo_loop_def run_pool_def)
  moreover have "worker_done (run_pool m) 0 = pool_new 4" by (simp add: run_pool_def worker_done_def pool_new_def eval_nat_numeral)
  ultimately show ?thesis using assms by (auto simp: demo_loop_def mnet_write_def)
qed

lemma run_done:
  assumes "mn_send w = []" "nv_rcvd (mn_view w) 14 = encode m"
  shows "\<exists>w'. addevent mnet_os ((demo_loop [(14, (run_conn m)\<lparr>cn_inflight := 1\<rparr>)] (pool_new 4) 1)\<lparr>ep_done :=
      \<lparr>dq_queue = [\<lparr>di_fd = 14, di_id = 1, di_resp = m\<rparr>], dq_wake_fd = 10\<rparr>\<rparr>) 10 EPOLLIN w =
    Some (demo_loop [(14, run_conn m)] (pool_new 4) 1, w') \<and> nv_rcvd (mn_view w') 14 = encode m"
  using assms encode_not_Nil [of m]
  by (simp add: addevent_def demo_loop_def dq_fd_def ondone_def dq_drain_def mnet_read_def senddata.simps mnet_send_def
      run_conn_def connection_new_def st_put_def Let_def)

lemma run_reach:
  assumes "length m \<le> 65532"
  shows "\<exists>w. ep_reach mnet_os Some 80 (demo_loop [(14, run_conn m)] (pool_new 4) 1, w, {#}) \<and> nv_rcvd (mn_view w) 14 = encode m"
proof -
  let ?c = "(run_conn m)\<lparr>cn_inflight := 1\<rparr>"
  let ?p = "submit (pool_new 4) \<lparr>tk_fd = 14, tk_id = 1, tk_msg = m\<rparr>"
  obtain w4 where 1: "ep_reach mnet_os Some 80 (demo_loop [(14, ?c)] ?p 1, w4, {#})" "mn_send w4 = []" "nv_rcvd (mn_view w4) 14 = encode m"
    using run_request [OF assms] by blast
  have "other_step mnet_os Some (demo_loop [(14, ?c)] ?p 1, w4, {#}) ((demo_loop [(14, ?c)] ?p 1)\<lparr>ep_pool := run_pool m\<rparr>, w4, {#})"
    by (rule other_step.worker [of _ "Started \<lparr>tk_fd = 14, tk_id = 1, tk_msg = m\<rparr>"])
      (use run_submit [of m] in \<open>simp_all add: demo_loop_def run_pool_def\<close>, simp add: run_queued)
  from ep_reach.steps [OF 1(1) ep_step.other [OF this]]
  have 2: "ep_reach mnet_os Some 80 (demo_loop [(14, ?c)] (run_pool m) 1, w4, {#})" by (simp add: demo_loop_def)
  obtain w5 where o: "other_step mnet_os Some (demo_loop [(14, ?c)] (run_pool m) 1, w4, {#})
      ((demo_loop [(14, ?c)] (pool_new 4) 1)\<lparr>ep_done := \<lparr>dq_queue = [\<lparr>di_fd = 14, di_id = 1, di_resp = m\<rparr>], dq_wake_fd = 10\<rparr>\<rparr>, w5, {#})"
    "mn_send w5 = []" "nv_rcvd (mn_view w5) 14 = encode m"
    using run_respond [OF 1(2,3)] by blast
  note 3 = ep_reach.steps [OF 2 ep_step.other [OF o(1)]]
  obtain w6 where d: "addevent mnet_os ((demo_loop [(14, ?c)] (pool_new 4) 1)\<lparr>ep_done :=
      \<lparr>dq_queue = [\<lparr>di_fd = 14, di_id = 1, di_resp = m\<rparr>], dq_wake_fd = 10\<rparr>\<rparr>) 10 EPOLLIN w5 =
      Some (demo_loop [(14, run_conn m)] (pool_new 4) 1, w6)" "nv_rcvd (mn_view w6) 14 = encode m"
    using run_done [OF o(2,3)] by blast
  have "ep_reach mnet_os Some 80 (demo_loop [(14, run_conn m)] (pool_new 4) 1, w6, {#})"
    by (rule ep_reach.steps [OF 3 ep_step.event [OF d(1)]]) (simp add: demo_loop_def)
  with d(2) show ?thesis by blast
qed

section \<open>Properties\<close>

text \<open>Property C2. The server as a whole keeps the promise of its protocol. In every reachable state and for every
  connection: the bytes received are the encodings of some requests and an incomplete rest; the
  bytes sent, with those still in the buffer, are the encodings of some responses; and the
  answers of the handler to these requests are, each as often as it was asked for, the responses given,
  those in the done queue for this connection and those of its tasks in the pool. So no answer is
  lost, none is given twice, none comes from another connection or an earlier one on the same
  descriptor; and when no request is in flight, the responses are the answers to all the
  requests, in some order.
\<close>

theorem server_answers:
  assumes "net_contract_accept net nv budget" "ep_reach net handler port (e, w, lost)"
    and "map_of (ep_status e) fd = Some c"
  shows "\<exists>ms rs. parse (nv_rcvd (nv w) fd) = (ms, pending (cn_decoder c), False) \<and>
    nv_sent (nv w) fd @ drop (cn_idx c) (cn_Outbuffer c) = concat (map encode rs) \<and>
    mset (answers handler ms) = mset rs +
      mset (map di_resp (filter (\<lambda>i. di_fd i = fd \<and> di_id i = cn_id c) (dq_queue (ep_done e)))) +
      promised handler (fd, cn_id c) (mset (tp_tasks (ep_pool e)) + running (ep_pool e)) \<and>
    (cn_inflight c = 0 \<longrightarrow> image_mset handler (mset ms) = image_mset Some (mset rs))"
proof -
  obtain ms rs where a: "in_step c (nv_rcvd (nv w) fd) ms" "nv_sent (nv w) fd @ unsent c = concat (map encode rs)"
    "mset (answers handler ms) = mset rs + owed handler e (fd, cn_id c)"
    "cn_inflight c = 0 \<longrightarrow> image_mset handler (mset ms) = image_mset Some (mset rs)"
    using net_contract_accept.ledger [OF assms] by blast
  then show ?thesis unfolding in_step_def unsent_def owed_def routed_def
    by (intro exI [of _ ms] exI [of _ rs]) (simp add: add_ac)
qed

theorem server_answers_witness:
  "\<exists>w ms rs. ep_reach mnet_os Some 80 (demo_loop [(14, demo_conn)] demo_pool 1, w, {#}) \<and>
    parse (nv_rcvd (mn_view w) 14) = (ms, [], False) \<and> mset (answers Some ms) = mset rs + {#[7]#}"
proof -
  obtain w where r: "ep_reach mnet_os Some 80 (demo_loop [(14, demo_conn)] demo_pool 1, w, {#})" using demo_reach by blast
  have at: "map_of (ep_status (demo_loop [(14, demo_conn)] demo_pool 1)) 14 = Some demo_conn" by (simp add: demo_loop_def)
  have "tp_tasks demo_pool = [\<lparr>tk_fd = 14, tk_id = 1, tk_msg = [7]\<rparr>]" "running demo_pool = {#}"
    using running_new [of 4] foldl_submit [of "pool_new 4" "[\<lparr>tk_fd = 14, tk_id = 1, tk_msg = [7]\<rparr>]"] by (simp_all add: pool_new_def)
  then have "promised Some (14, 1) (mset (tp_tasks demo_pool) + running demo_pool) = {#[7]#}" by (simp add: tkey_def)
  moreover have "pending (cn_decoder demo_conn) = []" "cn_id demo_conn = 1" by (simp_all add: pending_def demo_conn_def connection_new_def)
  ultimately show ?thesis
    using server_answers [OF mnet_contract_accept r at] r by (auto simp: demo_loop_def)
qed

end
