(* ===== verification/Epoll_progress.thy ===== *)
theory Epoll_progress
  imports Epoll_shutdown Epoll_answers
begin

text \<open>
  The server never goes to sleep on a request. The wake-up protocols of \<open>src/ThreadPool.cpp\<close> (a condition
  variable) and \<open>src/Donequeue.cpp\<close> (an eventfd) and the registrations with epoll
  (\<open>src/Epoll.cpp\<close>), composed over all the steps of the loop, the workers and the signal handler:
  while a request waits or is handled, a worker can take a step that brings it forward, and
  while a response waits, \<open>epoll_wait\<close> reports the eventfd. So every reachable state can be
  completed to one where all requests are answered.
\<close>

section \<open>The pool\<close>

text \<open>The pool between two handlers of the loop: no notification is on its way, no worker has left,
  and if one sleeps, then for every task another is about to look at the queue.\<close>

definition pool_ready :: "'a pool \<Rightarrow> bool" where
  "pool_ready p \<longleftrightarrow> awake p \<and> tp_notifying p = 0 \<and> tp_workers p \<noteq> [] \<and> Exited \<notin> set (tp_workers p)"

lemma step_workers:
  assumes "pool_step p l q" "\<not> tp_stopping p" "tp_workers p \<noteq> [] \<and> Exited \<notin> set (tp_workers p)"
  shows "tp_workers q \<noteq> [] \<and> Exited \<notin> set (tp_workers q)"
  using assms
proof cases
  case (sleep i)
  then show ?thesis using assms set_update_subset_insert [of "tp_workers p" i Waiting] by (auto simp: pool_ops)
next
  case (start i t ts)
  then show ?thesis using assms set_update_subset_insert [of "tp_workers p" i "Running t"] by (auto simp: pool_ops)
next
  case (join)
  then show ?thesis using assms(3) by (cases "tp_workers p") auto
qed (use assms set_update_subset_insert [of "tp_workers p" _ Check] in \<open>auto simp: pool_ops\<close>)

lemma pool_ready_step:
  assumes "pool_step p l q" "submitted [l] = []" "\<not> tp_stopping p" "pool_ready p"
  shows "pool_ready q"
proof -
  have "tp_notifying q = 0" using assms by cases (auto simp: pool_ready_def pool_ops)
  then show ?thesis using assms awake_step [OF assms(1)] step_workers [OF assms(1)] by (simp add: pool_ready_def)
qed

lemma first_waiting_sleeps:
  "Waiting \<in> set (tp_workers p) \<Longrightarrow> first_waiting p < length (tp_workers p) \<and> tp_workers p ! first_waiting p = Waiting"
proof -
  assume "Waiting \<in> set (tp_workers p)"
  moreover have "Waiting \<in> set ws \<Longrightarrow> length (takeWhile (\<lambda>x. x \<noteq> Waiting) ws) < length ws" for ws :: "'a worker list"
    by (induction ws) auto
  ultimately have "first_waiting p < length (tp_workers p)" unfolding first_waiting_def by blast
  then show ?thesis using nth_length_takeWhile [of "\<lambda>x. x \<noteq> Waiting" "tp_workers p"] by (simp add: first_waiting_def)
qed

lemma pool_ready_submit:
  assumes "\<not> tp_stopping p" "pool_ready p"
  shows "pool_ready (submit p t)"
proof -
  let ?q = "submit_push p t"
  have q: "pool_step p (Submitted t) ?q" using assms(1) by (rule pool_step.push)
  have s: "submit p t = submit_notify ?q (first_waiting ?q)" using assms(1) by (simp add: submit_def Let_def)
  have ns: "\<not> tp_stopping ?q" "0 < tp_notifying ?q" using assms(1) by (simp_all add: submit_push_def)
  have "pool_step ?q Quiet (submit p t)"
  proof (cases "Waiting \<in> set (tp_workers ?q)")
    case True
    then have "first_waiting ?q < length (tp_workers ?q)" "tp_workers ?q ! first_waiting ?q = Waiting"
      using first_waiting_sleeps by blast+
    then show ?thesis unfolding s using ns(2) by (intro pool_step.notify)
  next
    case False
    then have "submit_notify ?q (first_waiting ?q) = submit_notify ?q 0"
      by (intro pool.equality) (simp_all only: nobody_workers [OF False], simp_all add: submit_notify_def)
    then show ?thesis unfolding s using ns(2) False by (auto intro: pool_step.notify_nobody)
  qed
  note step = this
  have "awake (submit p t)" "tp_workers (submit p t) \<noteq> [] \<and> Exited \<notin> set (tp_workers (submit p t))"
    using awake_step [OF step awake_step [OF q]] step_workers [OF step ns(1) step_workers [OF q assms(1)]] assms(2)
    by (simp_all add: pool_ready_def)
  moreover have "tp_notifying (submit p t) = 0" using assms by (simp add: submit_def submit_push_def submit_notify_def pool_ready_def Let_def)
  ultimately show ?thesis by (simp add: pool_ready_def)
qed

lemma pool_ready_submits: "\<not> tp_stopping p \<Longrightarrow> pool_ready p \<Longrightarrow> pool_ready (foldl submit p ts)"
proof (induction ts arbitrary: p)
  case (Cons t ts)
  have ns: "\<not> tp_stopping (submit p t)" using foldl_submit [OF Cons.prems(1), of "[t]"] by simp
  show ?case using Cons.IH [OF ns pool_ready_submit [OF Cons.prems]] by simp
qed simp

lemma pool_ready_new: "0 < n \<Longrightarrow> pool_ready (pool_new n)"
  using awake_new by (simp add: pool_ready_def) (simp add: pool_new_def)

text \<open>The work in the pool, and a step that lessens it.\<close>

definition backlog :: "'a pool \<Rightarrow> nat" where
  "backlog p = 2 * length (tp_tasks p) + size (running p)"

lemma pool_ready_progress:
  assumes "pool_ready p" "\<not> tp_stopping p" "backlog p \<noteq> 0"
  shows "\<exists>i t. i < length (tp_workers p) \<and>
    (tp_workers p ! i = Running t \<or> tp_workers p ! i = Check \<and> (\<exists>ts. tp_tasks p = t # ts))"
proof (cases "running p = {#}")
  case False
  then obtain w where "w \<in> set (tp_workers p)" "task_of w \<noteq> []" by (auto simp: running_def)
  then show ?thesis by (auto simp: in_set_conv_nth split: worker.splits)
next
  case True
  then obtain t ts where t: "tp_tasks p = t # ts" using assms(3) by (cases "tp_tasks p") (auto simp: backlog_def)
  have nr: "w \<noteq> Running u" if "w \<in> set (tp_workers p)" for w u using True that by (auto simp: running_def)
  have "Check \<in> set (tp_workers p)"
  proof (cases "Waiting \<in> set (tp_workers p)")
    case True
    then have "0 < n_checking p" using assms(1,2) t by (simp add: pool_ready_def awake_def)
    then show ?thesis by (auto simp: n_checking_def filter_empty_conv)
  next
    case False
    then show ?thesis using assms(1) nr by (cases "tp_workers p") (auto simp: pool_ready_def, metis worker.exhaust)
  qed
  then show ?thesis using t by (auto simp: in_set_conv_nth)
qed

section \<open>The eventfd and the registrations\<close>

context net_contract
begin

lemma set_event_count [simp]: "nv_count (nv (set_event net c e w)) = nv_count (nv w)"
  using ctl_streams [of "cn_epfd c" CTL_MOD "cn_fd c" e w] by (cases "net_ctl net (cn_epfd c) CTL_MOD (cn_fd c) e w") (simp add: set_event_def)

lemma handwrite_loop_count:
  "handwrite_loop net c w = Some (r, c', w') \<Longrightarrow> nv_count (nv w') = nv_count (nv w)"
proof (induction "length (cn_Outbuffer c) - cn_idx c" arbitrary: c w rule: less_induct)
  case less
  show ?case
  proof (cases "cn_idx c < length (cn_Outbuffer c)")
    case False
    then show ?thesis using less.prems by (subst (asm) handwrite_loop.simps) simp
  next
    case True
    let ?rest = "drop (cn_idx c) (cn_Outbuffer c)"
    obtain n w1 where sd: "net_send net (cn_fd c) ?rest w = (n, w1)" by fastforce
    have ok: "send_ok (nv w) (cn_fd c) ?rest n (nv w1)" by (rule send_law [OF _ sd]) (use True in simp)
    then have c1: "nv_count (nv w1) = nv_count (nv w)" and n: "n = -1 \<or> 0 < n \<and> n \<le> int (length (cn_Outbuffer c)) - int (cn_idx c)"
      using True by (auto simp: send_ok_def)
    consider (last) "n = int (length (cn_Outbuffer c)) - int (cn_idx c) \<or> n = -1"
      | (part) "0 < n" "n < int (length (cn_Outbuffer c)) - int (cn_idx c)" using n by linarith
    then show ?thesis
    proof cases
      case last
      then show ?thesis using less.prems sd c1 True
        by (subst (asm) handwrite_loop.simps) (auto simp: Let_def split: if_splits)
    next
      case part
      let ?c = "c\<lparr>cn_idx := nat (int (cn_idx c) + n)\<rparr>"
      have "handwrite_loop net ?c w1 = Some (r, c', w')"
        using less.prems sd part True by (subst (asm) handwrite_loop.simps) (simp add: Let_def)
      moreover have "length (cn_Outbuffer ?c) - cn_idx ?c < length (cn_Outbuffer c) - cn_idx c" using part True by simp
      ultimately show ?thesis using less.hyps c1 by metis
    qed
  qed
qed

lemma handwrite_count:
  "handwrite net c w = Some (r, c', w') \<Longrightarrow> nv_count (nv w') = nv_count (nv w)"
  using handwrite_loop_count by (auto simp: handwrite_def split: if_splits)

lemma onclose_count:
  assumes "onclose net e fd w = (e', w')"
  shows "nv_count (nv w') = nv_count (nv w)"
proof -
  obtain n1 w1 where c: "net_ctl net (ep_epfd e) CTL_DEL fd 0 w = (n1, w1)" by fastforce
  obtain n2 w2 where d: "net_close net fd w1 = (n2, w2)" by fastforce
  show ?thesis using assms ctl_streams [OF c] close_law [OF d] c d by (auto simp: onclose_def Let_def close_fd_ok_def)
qed

end

context net_contract_finite
begin

lemma handreadable_count:
  "handreadable net c pool w = Some (ok, c', pool', w') \<Longrightarrow> nv_count (nv w') = nv_count (nv w)"
proof (induction "budget w" arbitrary: c pool w rule: less_induct)
  case less
  obtain n data w1 where rd: "net_recv net (cn_fd c) (1024 * 64) w = (n, data, w1)" by (metis prod_cases3)
  have c1: "nv_count (nv w1) = nv_count (nv w)" using recv_law [OF rd] by (auto simp: recv_ok_def)
  let ?c = "c\<lparr>cn_decoder := feed (cn_decoder c) data\<rparr>"
  obtain c2 pool2 where td: "take_dispatch ?c pool = (c2, pool2)" by fastforce
  show ?case
  proof (cases "0 < n \<and> \<not> brokenmessage (cn_decoder ?c)")
    case True
    then have "handreadable net c2 pool2 w1 = Some (ok, c', pool', w')"
      using less.prems rd td by (subst (asm) handreadable.simps) (simp add: Let_def)
    moreover have "budget w1 < budget w" using recv_budget [OF rd] True by blast
    ultimately show ?thesis using less.hyps c1 by metis
  next
    case False
    then show ?thesis using less.prems rd c1
      by (subst (asm) handreadable.simps) (auto simp: Let_def split: if_splits prod.splits)
  qed
qed

end

text \<open>The loop is awake: its pool is, the eventfd is readable while responses wait, and the
  eventfd and the listening socket are registered for input.\<close>

definition wired :: "net_view \<Rightarrow> epoll \<Rightarrow> bool" where
  "wired v e \<longleftrightarrow> pool_ready (ep_pool e) \<and> 0 \<le> dq_fd (ep_done e) \<and> 0 \<le> ep_m_listen e \<and>
     (dq_queue (ep_done e) \<noteq> [] \<longrightarrow> 0 < nv_count v (dq_fd (ep_done e))) \<and>
     nv_events v (dq_fd (ep_done e)) = Some EPOLLIN \<and> nv_events v (ep_m_listen e) = Some EPOLLIN"

text \<open>Nothing happened to the two descriptors of the loop.\<close>

definition undisturbed :: "net_view \<Rightarrow> epoll \<Rightarrow> net_view \<Rightarrow> epoll \<Rightarrow> bool" where
  "undisturbed v e v' e' \<longleftrightarrow> dq_fd (ep_done e') = dq_fd (ep_done e) \<and> ep_m_listen e' = ep_m_listen e \<and>
     (\<forall>k \<in> {dq_fd (ep_done e), ep_m_listen e}. nv_events v' k = nv_events v k) \<and>
     (dq_queue (ep_done e') = [] \<or> dq_queue (ep_done e') = dq_queue (ep_done e) \<and>
        nv_count v' (dq_fd (ep_done e)) = nv_count v (dq_fd (ep_done e)))"

lemma wired_frame:
  assumes "wired v e" "undisturbed v e v' e'" "pool_ready (ep_pool e')"
  shows "wired v' e'"
proof -
  have u: "dq_fd (ep_done e') = dq_fd (ep_done e)" "ep_m_listen e' = ep_m_listen e"
    "nv_events v' (dq_fd (ep_done e)) = nv_events v (dq_fd (ep_done e))" "nv_events v' (ep_m_listen e) = nv_events v (ep_m_listen e)"
    "dq_queue (ep_done e') = [] \<or> dq_queue (ep_done e') = dq_queue (ep_done e) \<and>
        nv_count v' (dq_fd (ep_done e)) = nv_count v (dq_fd (ep_done e))"
    using assms(2) by (simp_all add: undisturbed_def)
  show ?thesis using assms(1,3) u(5) unfolding wired_def u(1-4) by auto
qed

lemma undisturbed_key:
  assumes "loop_inv {} reg v e lost" "fd \<in> keys e" "0 \<le> dq_fd (ep_done e)" "0 \<le> ep_m_listen e"
  shows "dq_fd (ep_done e) \<noteq> fd" "ep_m_listen e \<noteq> fd"
  using loop_inv_keys [OF assms(1,2)] by (auto simp: own_def)

context net_contract
begin

lemma close_undisturbed:
  assumes "onclose net e fd w = (e', w')" "dq_fd (ep_done e) \<noteq> fd" "ep_m_listen e \<noteq> fd"
  shows "undisturbed (nv w) e (nv w') e' \<and> ep_pool e' = ep_pool e"
proof -
  have e': "e' = e\<lparr>ep_status := st_erase fd (ep_status e)\<rparr>" "\<forall>k. k \<noteq> fd \<longrightarrow> nv_events (nv w') k = nv_events (nv w) k"
    using onclose_result [OF assms(1)] by blast+
  then show ?thesis using assms(2,3) onclose_count [OF assms(1)] by (simp add: undisturbed_def)
qed

lemma close_unless_undisturbed:
  assumes "close_unless net e1 fd ok c w1 = (e', w')" "dq_fd (ep_done e) \<noteq> fd" "ep_m_listen e \<noteq> fd"
    and "ep_done e1 = ep_done e" "ep_m_listen e1 = ep_m_listen e"
    and "\<forall>k. k \<noteq> fd \<longrightarrow> nv_events (nv w1) k = nv_events (nv w) k" "nv_count (nv w1) = nv_count (nv w)"
  shows "undisturbed (nv w) e (nv w') e' \<and> ep_pool e' = ep_pool e1"
proof -
  let ?e = "e1\<lparr>ep_status := st_put fd c (ep_status e1)\<rparr>"
  have 1: "undisturbed (nv w) e (nv w1) ?e" using assms(2-7) by (simp add: undisturbed_def)
  show ?thesis
  proof (cases ok)
    case True
    then have e': "e' = ?e" "w' = w1" using assms(1) by (simp_all add: close_unless_def)
    show ?thesis using 1 unfolding e' by simp
  next
    case False
    then have cl: "onclose net ?e fd w1 = (e', w')" using assms(1) by (simp add: close_unless_def)
    have 2: "undisturbed (nv w1) ?e (nv w') e' \<and> ep_pool e' = ep_pool ?e" by (rule close_undisturbed [OF cl]) (use assms(2-5) in simp_all)
    then show ?thesis using 1 assms(4,5) unfolding undisturbed_def by auto
  qed
qed

end

text \<open>Accepting leaves them open, registered and unread.\<close>

definition own_kept :: "net_view \<Rightarrow> epoll \<Rightarrow> net_view \<Rightarrow> epoll \<Rightarrow> bool" where
  "own_kept v e v' e' \<longleftrightarrow> ep_pool e' = ep_pool e \<and> ep_done e' = ep_done e \<and> ep_m_listen e' = ep_m_listen e \<and>
     (\<forall>k \<in> {dq_fd (ep_done e), ep_m_listen e}. nv_events v' k = nv_events v k \<and> nv_count v' k = nv_count v k \<and>
       0 \<le> k \<and> k \<in> nv_open v' \<and> k \<noteq> ep_idle_fd e')"

context net_contract_accept
begin

lemma accept_one_own:
  assumes "accept_one net e w = (again, e', w')" "own_kept v0 e0 (nv w) e"
  shows "own_kept v0 e0 (nv w') e'"
proof -
  have k: "k \<in> nv_open (nv w)" "0 \<le> k" "k \<noteq> ep_idle_fd e" if "k \<in> {dq_fd (ep_done e0), ep_m_listen e0}" for k
    using assms(2) that by (auto simp: own_kept_def)
  show ?thesis
  proof (cases rule: accept_one_cases [OF assms(1), case_names stop spare new])
    case stop
    have "k \<in> nv_open (nv w') \<and> nv_events (nv w') k = nv_events (nv w) k \<and> nv_count (nv w') k = nv_count (nv w) k"
      if "k \<in> {dq_fd (ep_done e0), ep_m_listen e0}" for k
      using stop(3) k [OF that] by (simp add: kept_def)
    then show ?thesis using assms(2) unfolding stop(2) own_kept_def by simp
  next
    case (spare i)
    have "k \<in> nv_open (nv w') \<and> nv_events (nv w') k = nv_events (nv w) k \<and> nv_count (nv w') k = nv_count (nv w) k \<and> k \<noteq> i"
      if "k \<in> {dq_fd (ep_done e0), ep_m_listen e0}" for k
      using spare(3,4) k [OF that] by (auto simp: kept_def)
    then show ?thesis using assms(2) unfolding spare(2) own_kept_def by simp
  next
    case (new fd)
    have "k \<noteq> fd" if "k \<in> {dq_fd (ep_done e0), ep_m_listen e0}" for k using k(1) [OF that] new(4) by blast
    then show ?thesis using assms(2) new(5,8,9,11) by (simp add: own_kept_def)
  qed
qed

lemma onaccept_undisturbed:
  assumes "onaccept net e fd w = Some (e', w')" "\<forall>k \<in> {dq_fd (ep_done e), ep_m_listen e}. 0 \<le> k \<and> k \<in> nv_open (nv w) \<and> k \<noteq> ep_idle_fd e"
  shows "undisturbed (nv w) e (nv w') e' \<and> ep_pool e' = ep_pool e"
proof -
  have "own_kept (nv w) e (nv w') e'"
    using assms(1)
  proof (induction rule: onaccept_induct)
    case start
    then show ?case using assms(2) by (simp add: own_kept_def)
  next
    case (turn e1 w1 again e2 w2)
    then show ?case by (rule accept_one_own)
  qed
  then show ?thesis by (simp add: own_kept_def undisturbed_def)
qed

end

text \<open>A write to an eventfd is only refused when its counter is full.\<close>

definition eventfd_works :: "'w net_os \<Rightarrow> bool" where
  "eventfd_works net \<longleftrightarrow> (\<forall>fd k w. fst (net_write net fd k w) = -1 \<longrightarrow> net_errno net (snd (net_write net fd k w)) = EAGAIN)"

context net_contract_accept
begin

lemma wake_writes:
  assumes "eventfd_works net" "net_write net fd 1 w = (n, w')"
  shows "0 < nv_count (nv w') fd" "nv_events (nv w') = nv_events (nv w)"
proof -
  have "net_errno net w' = EAGAIN" if "n = -1" using assms that unfolding eventfd_works_def by (metis fst_conv snd_conv)
  then show "0 < nv_count (nv w') fd" "nv_events (nv w') = nv_events (nv w)"
    using write_law [OF assms(2)] by (auto simp: write_ok_def)
qed

lemma wired_start:
  assumes "epoll_new net w0 = (e0, w1)" "start_setup net e0 port w1 = (True, e, w2)"
  shows "wired (nv w2) e"
proof -
  obtain wake wa idle wb where n: "net_eventfd net w0 = (wake, wa)" "net_devnull net wa = (idle, wb)" by (metis prod.exhaust)
  then have e0: "e0 = \<lparr>ep_done = \<lparr>dq_queue = [], dq_wake_fd = wake\<rparr>, ep_pool = pool_new 4, ep_stopping = False, ep_idle_fd = idle,
     ep_epfd = -1, ep_m_listen = -1, ep_status = [], ep_conn_id = 0\<rparr>" "w1 = wb"
    using assms(1) by (auto simp: epoll_new_def dq_new_def)
  obtain ep wc l wd where c: "net_epoll_create net wb = (ep, wc)" "create_fd net port wc = (l, wd)" by (metis prod.exhaust)
  obtain r1 we r2 wf where s: "set_nonblocking net l wd = (r1, we)" "set_nonblocking net wake we = (r2, wf)" by (metis prod.exhaust)
  obtain r3 wg r4 wh where a: "net_ctl net ep CTL_ADD l EPOLLIN wf = (r3, wg)" "net_ctl net ep CTL_ADD wake EPOLLIN wg = (r4, wh)" by (metis prod.exhaust)
  have e: "e = e0\<lparr>ep_epfd := ep, ep_m_listen := l\<rparr>" "0 \<le> l" "0 \<le> wake" "0 \<le> r3" "0 \<le> r4" "w2 = wh"
    using assms(2) c s a e0 unfolding start_setup_def by (auto simp: Let_def dq_fd_def split: if_splits)
  have "wake \<in> nv_open (nv wa)" "nv_open (nv wa) \<subseteq> nv_open (nv wb)" "nv_open (nv wb) \<subseteq> nv_open (nv wc)" "l \<notin> nv_open (nv wc)"
    using eventfd_law [OF n(1)] devnull_law [OF n(2)] epoll_create_law [OF c(1)] create_fd_view [OF c(2) e(2)] e(2,3)
    by (auto simp: fresh_ok_def)
  then have "l \<noteq> wake" by blast
  then have "nv_events (nv wh) l = Some EPOLLIN" "nv_events (nv wh) wake = Some EPOLLIN"
    using ctl_law [OF a(1)] ctl_law [OF a(2)] e(4,5) by (auto simp: ctl_ok_def)
  then show ?thesis using e(1-3,6) pool_ready_new [of 4] by (simp add: wired_def e0 dq_fd_def)
qed

lemma wired_addevent:
  assumes "loop_inv {} (ctl_works net) (nv w) e lost" "wired (nv w) e" "addevent net e fd ev w = Some (e', w')"
  shows "wired (nv w') e'"
proof -
  have own: "0 \<le> dq_fd (ep_done e)" "0 \<le> ep_m_listen e" and pool: "pool_ready (ep_pool e)" using assms(2) by (simp_all add: wired_def)
  have ns: "\<not> tp_stopping (ep_pool e)" using assms(1) by (simp add: loop_inv_def)
  have ours: "0 \<le> k" "k \<in> nv_open (nv w)" "k \<notin> keys e" if "k \<in> {dq_fd (ep_done e), ep_m_listen e}" for k
  proof -
    have "k \<in> own e" "0 \<le> k" using that own by (auto simp: own_def)
    then show "0 \<le> k" "k \<in> nv_open (nv w)" "k \<notin> keys e" using loop_inv_own [OF assms(1), of k] by simp_all
  qed
  have "undisturbed (nv w) e (nv w') e' \<and> pool_ready (ep_pool e')"
    using assms(3)
  proof (cases rule: addevent_cases)
    case resp
    let ?e = "e\<lparr>ep_done := (ep_done e)\<lparr>dq_queue := []\<rparr>\<rparr>"
    have d: "done_post (ctl_works net) (nv w) ?e (dq_queue (ep_done e)) (nv w') e'"
      using ondone_result [OF loop_inv_table [OF assms(1)], of w] resp by auto
    then obtain S where e': "e' = ?e\<lparr>ep_status := S\<rparr>" unfolding done_post_def by blast
    have "\<forall>k \<in> {dq_fd (ep_done e), ep_m_listen e}. nv_events (nv w') k = nv_events (nv w) k"
      using d ours(3) by (simp add: done_post_def)
    then show ?thesis using pool by (simp add: undisturbed_def e' dq_fd_def)
  next
    case acc
    have "0 \<le> k \<and> k \<in> nv_open (nv w) \<and> k \<noteq> ep_idle_fd e" if "k \<in> {dq_fd (ep_done e), ep_m_listen e}" for k
      using ours [OF that] loop_inv_idle [OF assms(1)] that by auto
    then show ?thesis using onaccept_undisturbed [OF acc(2)] pool by simp
  next
    case same
    then show ?thesis using pool by (simp add: undisturbed_def)
  next
    case (readable c ok c' pool1 w1)
    note ne = undisturbed_key [OF assms(1) at_key [OF readable(1)] own]
    obtain ms where ms: "in_step c (nv_rcvd (nv w) (cn_fd c)) ms" "cn_fd c = fd"
      using loop_inv_live [OF assms(1) readable(1)] by (auto simp: live_def)
    then have "read_post (ctl_works net) (nv w) c (ep_pool e) ms ok c' pool1 (nv w1)"
      using handreadable_result [OF ms(1), of "ep_pool e"] readable(2) by simp
    then obtain new where new: "pool1 = foldl submit (ep_pool e) (tasks_of c new)" "\<forall>k. k \<noteq> fd \<longrightarrow> nv_events (nv w1) k = nv_events (nv w) k"
      using ms(2) unfolding read_post_def by blast
    have "undisturbed (nv w) e (nv w') e' \<and> ep_pool e' = ep_pool (e\<lparr>ep_pool := pool1\<rparr>)"
      by (rule close_unless_undisturbed [OF readable(3) ne]) (use new(2) handreadable_count [OF readable(2)] in simp_all)
    then show ?thesis using pool_ready_submits [OF ns pool] new(1) by simp
  next
    case (writable c ok c' w1)
    note ne = undisturbed_key [OF assms(1) at_key [OF writable(1)] own]
    have "conn_inv c" "cn_fd c = fd" using loop_inv_live [OF assms(1) writable(1)] by (simp_all add: live_def)
    then have ev: "\<forall>k. k \<noteq> fd \<longrightarrow> nv_events (nv w1) k = nv_events (nv w) k"
      using handwrite_result [where w = w and c = c] writable(2) by (auto simp: flow_def)
    have "undisturbed (nv w) e (nv w') e' \<and> ep_pool e' = ep_pool e"
      by (rule close_unless_undisturbed [OF writable(3) ne]) (use ev handwrite_count [OF writable(2)] in simp_all)
    then show ?thesis using pool by simp
  next
    case (close c)
    then show ?thesis using close_undisturbed [OF close(2) undisturbed_key [OF assms(1) at_key [OF close(1)] own]] pool by simp
  qed
  then show ?thesis using wired_frame [OF assms(2)] by blast
qed

lemma wired_other:
  assumes "other_step net handler s s'" "wired (nv (fst (snd s))) (fst s)" "\<not> tp_stopping (ep_pool (fst s))" "eventfd_works net"
  shows "wired (nv (fst (snd s'))) (fst s')"
  using assms(1)
proof cases
  case (worker e l p w lost)
  then show ?thesis using assms(2,3) pool_ready_step [OF worker(3,4)] by (simp add: wired_def)
next
  case (respond i e t w q w' lost)
  then obtain resp where h: "handler (tk_msg t) = Some resp" by blast
  have p: "dq_push net (ep_done e) (tk_fd t) (tk_id t) resp w = (q, w')" using respond(6) h by (simp add: run_task_def)
  then obtain n where wr: "net_write net (dq_fd (ep_done e)) 1 w = (n, w')"
    by (cases "net_write net (dq_fd (ep_done e)) 1 w") (auto simp: dq_push_def dq_put_def dq_fd_def)
  have "pool_ready (worker_done (ep_pool e) i)"
    using pool_ready_step [OF pool_step.finish [OF respond(3,4)]] assms(2,3) respond(1) by (simp add: wired_def)
  then show ?thesis using wake_writes [OF assms(4) wr] dq_push_view [OF p] assms(2) respond(1,2) by (simp add: wired_def)
next
  case (throw i e t w q w' lost)
  have "pool_ready (worker_done (ep_pool e) i)"
    using pool_ready_step [OF pool_step.finish [OF throw(3,4)]] assms(2,3) throw(1) by (simp add: wired_def)
  then show ?thesis using assms(2) throw by (simp add: wired_def run_task_def)
next
  case (signal e w e' w' lost)
  obtain n w1 where wr: "net_write net (dq_fd (ep_done e)) 1 w = (n, w1)" by fastforce
  then have "e' = e\<lparr>ep_stopping := True\<rparr>" "w' = w1" using signal(3) by (auto simp: Let_def)
  then show ?thesis using wake_writes [OF assms(4) wr] assms(2) signal(1,2) by (simp add: wired_def)
qed

lemma wired_reach:
  assumes "eventfd_works net"
  shows "ep_reach net handler port s \<Longrightarrow> wired (nv (fst (snd s))) (fst s)"
proof (induction rule: ep_reach.induct)
  case (started w0 e0 w1 e w2)
  then show ?case using wired_start by simp
next
  case (steps s s')
  note inv = ep_reach_inv [OF steps.hyps(1)]
  from steps.hyps(2) show ?case
  proof cases
    case (event e fd ev w e' w' lost)
    then show ?thesis using wired_addevent [of w e lost fd ev e' w'] inv steps.IH by simp
  next
    case other
    then show ?thesis using wired_other [OF other steps.IH _ assms] inv by (simp add: loop_inv_def)
  qed
qed

end

section \<open>Progress\<close>

lemma backlog_zero: "backlog p = 0 \<longleftrightarrow> tp_tasks p = [] \<and> running p = {#}"
  by (auto simp: backlog_def)

lemma backlog_done:
  assumes "i < length (tp_workers p)" "tp_workers p ! i = Running t"
  shows "backlog (worker_done p i) < backlog p"
proof -
  have "size (running p) = Suc (size (running (worker_done p i)))" using arg_cong [OF work_done [OF assms], of size] by simp
  moreover have "tp_tasks (worker_done p i) = tp_tasks p" by (simp add: worker_done_def)
  ultimately show ?thesis by (simp add: backlog_def)
qed

lemma backlog_started:
  assumes "pool_step p (Started t) q"
  shows "backlog q < backlog p"
proof -
  have "tp_tasks p = t # tp_tasks q" using step_queue [OF assms] by simp
  moreover have "running q = running p + {#t#}" using step_running [OF assms] by simp
  ultimately show ?thesis by (simp add: backlog_def)
qed

text \<open>While there is work, a worker can take a step that lessens it.\<close>

lemma other_progress:
  assumes "pool_ready (ep_pool e)" "\<not> tp_stopping (ep_pool e)" "backlog (ep_pool e) \<noteq> 0"
  shows "\<exists>e' w' lost'. other_step net handler (e, w, lost) (e', w', lost') \<and> backlog (ep_pool e') < backlog (ep_pool e) \<and>
    ep_status e' = ep_status e \<and> ep_conn_id e' = ep_conn_id e"
proof -
  let ?p = "ep_pool e"
  obtain i t where i: "i < length (tp_workers ?p)"
    "tp_workers ?p ! i = Running t \<or> tp_workers ?p ! i = Check \<and> (\<exists>ts. tp_tasks ?p = t # ts)"
    using pool_ready_progress [OF assms] by blast
  from i(2) show ?thesis
  proof
    assume r: "tp_workers ?p ! i = Running t"
    obtain q w' where t: "run_task net handler (ep_done e) t w = (q, w')" by fastforce
    let ?e = "e\<lparr>ep_pool := worker_done ?p i, ep_done := q\<rparr>"
    obtain lost' where "other_step net handler (e, w, lost) (?e, w', lost')"
      using other_step.respond [OF i(1) r _ t] other_step.throw [OF i(1) r _ t] by blast
    then show ?thesis using backlog_done [OF i(1) r] by (intro exI [of _ ?e] exI [of _ w'] exI [of _ lost']) simp
  next
    assume "tp_workers ?p ! i = Check \<and> (\<exists>ts. tp_tasks ?p = t # ts)"
    then have s: "pool_step ?p (Started t) (worker_check ?p i)" using i(1) assms(2) by (blast intro: pool_step.start)
    have "tp_stopping (worker_check ?p i) = tp_stopping ?p" by (simp add: worker_check_def)
    then have "other_step net handler (e, w, lost) (e\<lparr>ep_pool := worker_check ?p i\<rparr>, w, lost)"
      by (intro other_step.worker [OF s]) simp_all
    then show ?thesis using backlog_started [OF s]
      by (intro exI [of _ "e\<lparr>ep_pool := worker_check ?p i\<rparr>"] exI [of _ w] exI [of _ lost]) simp
  qed
qed

context net_contract_accept
begin

text \<open>So the workers can finish what they have.\<close>

lemma reach_drain:
  assumes "eventfd_works net" "ep_reach net handler port (e, w, lost)"
  shows "\<exists>e' w' lost'. (ep_step net handler)\<^sup>*\<^sup>* (e, w, lost) (e', w', lost') \<and> ep_reach net handler port (e', w', lost') \<and>
    backlog (ep_pool e') = 0 \<and> ep_status e' = ep_status e \<and> ep_conn_id e' = ep_conn_id e"
  using assms(2)
proof (induction "backlog (ep_pool e)" arbitrary: e w lost rule: less_induct)
  case less
  show ?case
  proof (cases "backlog (ep_pool e) = 0")
    case True
    then show ?thesis using less.prems by blast
  next
    case False
    have "pool_ready (ep_pool e)" "\<not> tp_stopping (ep_pool e)"
      using wired_reach [OF assms(1) less.prems] ep_reach_inv [OF less.prems] by (simp_all add: wired_def loop_inv_def)
    then obtain e1 w1 lost1 where s: "other_step net handler (e, w, lost) (e1, w1, lost1)" "backlog (ep_pool e1) < backlog (ep_pool e)"
      "ep_status e1 = ep_status e" "ep_conn_id e1 = ep_conn_id e"
      using other_progress [OF _ _ False] by metis
    have st: "ep_step net handler (e, w, lost) (e1, w1, lost1)" using s(1) by (rule ep_step.other)
    from less.hyps [OF s(2) ep_reach.steps [OF less.prems st]] obtain e' w' lost' where
      r: "(ep_step net handler)\<^sup>*\<^sup>* (e1, w1, lost1) (e', w', lost')" "ep_reach net handler port (e', w', lost')"
      "backlog (ep_pool e') = 0" "ep_status e' = ep_status e1" "ep_conn_id e' = ep_conn_id e1" by blast
    have "(ep_step net handler)\<^sup>*\<^sup>* (e, w, lost) (e', w', lost')" using st r(1) by (rule converse_rtranclp_into_rtranclp)
    then show ?thesis using r(2,3) unfolding s(3,4) [symmetric] r(4,5) [symmetric] by blast
  qed
qed

end

section \<open>Properties\<close>

text \<open>Property C4. The server never sleeps on a request. In every reachable state: while a task is queued or
  running, some worker can begin or end one, and this brings the pool closer to having none; while a response waits in the
  done queue, the eventfd is readable and registered with epoll, so that \<open>epoll_wait\<close> reports it; and
  the listening socket stays registered.
\<close>

theorem server_never_stuck:
  assumes "net_contract_accept net nv budget" "eventfd_works net" "ep_reach net handler port (e, w, lost)"
  shows "(tp_tasks (ep_pool e) \<noteq> [] \<or> running (ep_pool e) \<noteq> {#} \<longrightarrow>
      (\<exists>e' w' lost'. other_step net handler (e, w, lost) (e', w', lost') \<and> backlog (ep_pool e') < backlog (ep_pool e))) \<and>
    (dq_queue (ep_done e) \<noteq> [] \<longrightarrow> 0 < nv_count (nv w) (dq_fd (ep_done e))) \<and>
    nv_events (nv w) (dq_fd (ep_done e)) = Some EPOLLIN \<and> nv_events (nv w) (ep_m_listen e) = Some EPOLLIN"
proof -
  have "wired (nv w) e" using net_contract_accept.wired_reach [OF assms] by simp
  moreover have "\<not> tp_stopping (ep_pool e)" using net_contract_accept.ep_reach_inv [OF assms(1,3)] by (simp add: loop_inv_def)
  ultimately show ?thesis using other_progress [of e net handler w lost] backlog_zero [of "ep_pool e"]
    unfolding wired_def by blast
qed

theorem server_never_stuck_witness:
  "\<exists>w e' w' lost'. ep_reach mnet_os Some 80 (demo_loop [(14, demo_conn)] demo_pool 1, w, {#}) \<and>
    other_step mnet_os Some (demo_loop [(14, demo_conn)] demo_pool 1, w, {#}) (e', w', lost') \<and> nv_events (mn_view w) 10 = Some EPOLLIN"
proof -
  obtain w where r: "ep_reach mnet_os Some 80 (demo_loop [(14, demo_conn)] demo_pool 1, w, {#})" using demo_reach by blast
  have ok: "eventfd_works mnet_os" by (simp add: eventfd_works_def mnet_write_def)
  have "tp_tasks demo_pool \<noteq> []" by (simp add: run_queued)
  then show ?thesis
    using server_never_stuck [OF mnet_contract_accept ok r] r by (simp add: demo_loop_def dq_fd_def) blast
qed

text \<open>Property C3. No reachable state is a trap: by steps of the workers and one event on the eventfd, the
  server comes to a state without work, in which every connection that is still open has
  been given the answers to all its requests; what its \<open>inflight\<close> still counts are the requests whose handler threw.
\<close>

theorem server_completes:
  assumes "net_contract_accept net nv budget" "eventfd_works net" "ep_reach net handler port (e, w, lost)"
    and "unat (ep_conn_id e) + length (ep_status e) < 2 ^ 64"
  shows "\<exists>e' w' lost'. (ep_step net handler)\<^sup>*\<^sup>* (e, w, lost) (e', w', lost') \<and>
    tp_tasks (ep_pool e') = [] \<and> running (ep_pool e') = {#} \<and> dq_queue (ep_done e') = [] \<and>
    (\<forall>fd c. map_of (ep_status e') fd = Some c \<longrightarrow> cn_inflight c = int (count lost' (fd, cn_id c)) \<and>
      (\<exists>ms rs. parse (nv_rcvd (nv w') fd) = (ms, pending (cn_decoder c), False) \<and>
        nv_sent (nv w') fd @ drop (cn_idx c) (cn_Outbuffer c) = concat (map encode rs) \<and> mset (answers handler ms) = mset rs))"
proof -
  obtain e1 w1 lost' where d: "(ep_step net handler)\<^sup>*\<^sup>* (e, w, lost) (e1, w1, lost')" "ep_reach net handler port (e1, w1, lost')"
    "backlog (ep_pool e1) = 0" "ep_status e1 = ep_status e" "ep_conn_id e1 = ep_conn_id e"
    using net_contract_accept.reach_drain [OF assms(1-3)] by blast
  have inv: "loop_inv {} (ctl_works net) (nv w1) e1 lost'" using net_contract_accept.ep_reach_inv [OF assms(1) d(2)] by simp
  have fin: "net_contract_finite net nv budget" using assms(1) by (rule net_contract_accept.axioms)
  obtain e2 w2 where o: "ondone net e1 w1 = Some (e2, w2)"
    "done_post (ctl_works net) (nv w1) (e1\<lparr>ep_done := (ep_done e1)\<lparr>dq_queue := []\<rparr>\<rparr>) (dq_queue (ep_done e1)) (nv w2) e2"
    using net_contract_finite.ondone_result [OF fin loop_inv_table [OF inv], of w1] by blast
  obtain S where e2: "e2 = e1\<lparr>ep_done := (ep_done e1)\<lparr>dq_queue := []\<rparr>, ep_status := S\<rparr>" using o(2) unfolding done_post_def by auto
  have "length (map fst (ep_status e2)) \<le> length (map fst (ep_status e1))"
    using o(2) unfolding done_post_def by (metis (no_types, lifting) epoll.select_convs(7) epoll.surjective epoll.update_convs(1) length_filter_le)
  then have step: "ep_step net handler (e1, w1, lost') (e2, w2, lost')"
    using assms(4) d(4,5) o(1) by (intro ep_step.event [where fd = "dq_fd (ep_done e1)" and ev = EPOLLIN]) (simp_all add: addevent_def)
  note r2 = ep_reach.steps [OF d(2) step]
  have idle: "tp_tasks (ep_pool e2) = []" "running (ep_pool e2) = {#}" "dq_queue (ep_done e2) = []"
    using d(3) by (simp_all add: e2 backlog_zero)
  have "cn_inflight c = int (count lost' (fd, cn_id c)) \<and>
      (\<exists>ms rs. parse (nv_rcvd (nv w2) fd) = (ms, pending (cn_decoder c), False) \<and>
        nv_sent (nv w2) fd @ drop (cn_idx c) (cn_Outbuffer c) = concat (map encode rs) \<and> mset (answers handler ms) = mset rs)"
    if c: "map_of (ep_status e2) fd = Some c" for fd c
  proof -
    have "loop_inv {} (ctl_works net) (nv w2) e2 lost'" using net_contract_accept.ep_reach_inv [OF assms(1) r2] by simp
    from loop_inv_live [OF this c] have "cn_inflight c = int (count lost' (fd, cn_id c))"
      using idle by (simp add: live_def outstanding_def)
    moreover have "owed handler e2 (fd, cn_id c) = {#}" using idle by (simp add: owed_def)
    ultimately show ?thesis using net_contract_accept.ledger [OF assms(1) r2 c]
      unfolding in_step_def unsent_def by fastforce
  qed
  then show ?thesis using d(1) step idle by (meson rtranclp.rtrancl_into_rtrancl)
qed

theorem server_completes_witness:
  "\<exists>w e' w' lost'. (ep_step mnet_os Some)\<^sup>*\<^sup>* (demo_loop [(14, demo_conn)] demo_pool 1, w, {#}) (e', w', lost') \<and>
    tp_tasks (ep_pool e') = [] \<and> running (ep_pool e') = {#} \<and> dq_queue (ep_done e') = []"
proof -
  obtain w where r: "ep_reach mnet_os Some 80 (demo_loop [(14, demo_conn)] demo_pool 1, w, {#})" using demo_reach by blast
  have ok: "eventfd_works mnet_os" by (simp add: eventfd_works_def mnet_write_def)
  have "unat (ep_conn_id (demo_loop [(14, demo_conn)] demo_pool 1)) + length (ep_status (demo_loop [(14, demo_conn)] demo_pool 1)) < 2 ^ 64"
    by (simp add: demo_loop_def)
  from server_completes [OF mnet_contract_accept ok r this] show ?thesis by blast
qed

end
