(* ===== verification/Epoll_instances.thy ===== *)
theory Epoll_instances
  imports Epoll_progress
begin

text \<open>
  The servers of a program: the list of the instances of \<open>src/Epoll.cpp\<close>, which the constructor and
  the destructor keep and the signal handler walks, and the request handler, a member of each.
  A handler that was never set is an empty \<open>std::function\<close>; calling it throws. The vector holds
  pointers: an instance is the object with its address. The handler is copied into a connection
  when it is accepted; it is taken to be set before \<open>start\<close>.
\<close>

section \<open>Instances\<close>

record server =
  sv_epoll :: epoll
  sv_handler :: "bytes \<Rightarrow> bytes option"

type_synonym instances = "(nat \<times> server) list"

definition no_handler :: "bytes \<Rightarrow> bytes option" where
  "no_handler msg = None"

definition construct :: "'w net_os \<Rightarrow> nat \<Rightarrow> instances \<Rightarrow> 'w \<Rightarrow> instances \<times> 'w" where
  "construct net a gs w = (case epoll_new net w of (e, w) \<Rightarrow> (gs @ [(a, \<lparr>sv_epoll = e, sv_handler = no_handler\<rparr>)], w))"

definition set_handler :: "(bytes \<Rightarrow> bytes option) \<Rightarrow> server \<Rightarrow> server" where
  "set_handler h s = s\<lparr>sv_handler := h\<rparr>"

text \<open>\<open>std::find\<close> and \<open>erase\<close>: the first one with the address is taken out.\<close>

fun unregister :: "nat \<Rightarrow> instances \<Rightarrow> instances" where
  "unregister a [] = []"
| "unregister a (g # gs) = (if fst g = a then gs else g # unregister a gs)"

definition destroy :: "'w net_os \<Rightarrow> nat \<times> server \<Rightarrow> instances \<Rightarrow> 'w \<Rightarrow> instances \<times> 'w" where
  "destroy net g gs w = (unregister (fst g) gs, snd (epoll_destroy net (sv_epoll (snd g)) w))"

definition raise_signal :: "'w net_os \<Rightarrow> instances \<Rightarrow> 'w \<Rightarrow> instances \<times> 'w" where
  "raise_signal net gs w = (case on_signal net (map (sv_epoll \<circ> snd) gs) w of (es, w) \<Rightarrow>
     (map2 (\<lambda>g e. (fst g, (snd g)\<lparr>sv_epoll := e\<rparr>)) gs es, w))"

text \<open>What a program does with its servers: the list, the world, and the addresses of the living objects in
  the order of their construction. Two living objects have different addresses.\<close>

inductive servers :: "'w net_os \<Rightarrow> instances \<times> 'w \<Rightarrow> nat list \<Rightarrow> bool" for net where
  none: "servers net ([], w) []"
| construct: "servers net (gs, w) as \<Longrightarrow> a \<notin> set as \<Longrightarrow> construct net a gs w = (gs', w') \<Longrightarrow> servers net (gs', w') (as @ [a])"
| handler: "servers net (gs, w) as \<Longrightarrow> gs = us @ (a, s) # vs \<Longrightarrow> servers net (us @ (a, set_handler h s) # vs, w) as"
| run: "servers net (gs, w) as \<Longrightarrow> gs = us @ (a, s) # vs \<Longrightarrow>
    ep_step net (sv_handler s) (sv_epoll s, w, lost) (e, w', lost') \<Longrightarrow> servers net (us @ (a, s\<lparr>sv_epoll := e\<rparr>) # vs, w') as"
| signal: "servers net (gs, w) as \<Longrightarrow> raise_signal net gs w = (gs', w') \<Longrightarrow> servers net (gs', w') as"
| destroy: "servers net (gs, w) as \<Longrightarrow> g \<in> set gs \<Longrightarrow> destroy net g gs w = (gs', w') \<Longrightarrow> servers net (gs', w') (remove1 (fst g) as)"

lemma unregister_addresses: "map fst (unregister a gs) = remove1 a (map fst gs)"
  by (induction gs) auto

lemma on_signal_each:
  "on_signal net es w = (es', w') \<Longrightarrow> es' = map (\<lambda>e. e\<lparr>ep_stopping := True\<rparr>) es"
  by (induction es arbitrary: w es' w') (auto simp: Let_def split: prod.splits)

lemma raise_signal_each:
  assumes "raise_signal net gs w = (gs', w')"
  shows "gs' = map (\<lambda>(a, s). (a, s\<lparr>sv_epoll := (sv_epoll s)\<lparr>ep_stopping := True\<rparr>\<rparr>)) gs"
proof -
  obtain es v where o: "on_signal net (map (sv_epoll \<circ> snd) gs) w = (es, v)" by fastforce
  have "gs' = map2 (\<lambda>g e. (fst g, (snd g)\<lparr>sv_epoll := e\<rparr>)) gs es" using assms o by (simp add: raise_signal_def)
  also have "\<dots> = map (\<lambda>(a, s). (a, s\<lparr>sv_epoll := (sv_epoll s)\<lparr>ep_stopping := True\<rparr>\<rparr>)) gs"
    unfolding on_signal_each [OF o] by (induction gs) auto
  finally show ?thesis .
qed

lemma servers_addresses:
  "servers net s as \<Longrightarrow> map fst (fst s) = as \<and> distinct as"
proof (induction rule: servers.induct)
  case (construct gs w as a gs' w')
  then show ?case by (auto simp: construct_def split: prod.splits)
next
  case (signal gs w as gs' w')
  then show ?case using raise_signal_each [OF signal(2)] by (simp add: comp_def case_prod_unfold)
next
  case (destroy gs w as g gs' w')
  then show ?case by (auto simp: destroy_def unregister_addresses)
qed auto

context net_contract_accept
begin

text \<open>The counter of an eventfd never falls in the handler.\<close>

lemma on_signal_up:
  "on_signal net es w = (es', w') \<Longrightarrow> nv_count (nv w) fd \<le> nv_count (nv w') fd"
proof (induction es arbitrary: w es')
  case (Cons e es)
  obtain n w1 where wr: "net_write net (dq_fd (ep_done e)) 1 w = (n, w1)" by fastforce
  obtain es2 w2 where r: "on_signal net es w1 = (es2, w2)" by fastforce
  have "w' = w2" using Cons.prems wr r by (simp add: Let_def)
  moreover have "nv_count (nv w) fd \<le> nv_count (nv w1) fd" using write_law [OF wr] by (auto simp: write_ok_def)
  ultimately show ?case using Cons.IH [of w1 es2] r by simp
qed simp

lemma on_signal_wakes:
  assumes "eventfd_works net" "on_signal net es w = (es', w')"
  shows "\<forall>e \<in> set es. 0 < nv_count (nv w') (dq_fd (ep_done e))"
  using assms(2)
proof (induction es arbitrary: w es')
  case (Cons e es)
  obtain n w1 where wr: "net_write net (dq_fd (ep_done e)) 1 w = (n, w1)" by fastforce
  obtain es2 w2 where r: "on_signal net es w1 = (es2, w2)" by fastforce
  have w': "w' = w2" using Cons.prems wr r by (simp add: Let_def)
  have "0 < nv_count (nv w2) (dq_fd (ep_done e))"
    using wake_writes(1) [OF assms(1) wr] on_signal_up [OF r, of "dq_fd (ep_done e)"] by linarith
  then show ?case using Cons.IH [of w1 es2] r unfolding w' by simp
qed simp

end

section \<open>Properties\<close>

text \<open>A signal reaches every server that lives and no other: after any sequence of constructions, destructions, runs and
  signals, the list holds the living objects, each once, in the order of their construction; the handler sets the stop flag
  of each and changes nothing else in it, and makes its eventfd readable, so that a loop that waits is woken.
\<close>

theorem signal_reaches_all:
  assumes "net_contract_accept net nv budget" "eventfd_works net" "servers net (gs, w) as" "raise_signal net gs w = (gs', w')"
  shows "map fst gs' = as \<and> distinct as \<and>
    gs' = map (\<lambda>(a, s). (a, s\<lparr>sv_epoll := (sv_epoll s)\<lparr>ep_stopping := True\<rparr>\<rparr>)) gs \<and>
    (\<forall>(a, s) \<in> set gs'. ep_stopping (sv_epoll s) \<and> 0 < nv_count (nv w') (dq_fd (ep_done (sv_epoll s))))"
proof -
  note each = raise_signal_each [OF assms(4)] and adr = servers_addresses [OF assms(3)]
  obtain es where o: "on_signal net (map (sv_epoll \<circ> snd) gs) w = (es, w')"
    using assms(4) by (auto simp: raise_signal_def split: prod.splits)
  have "0 < nv_count (nv w') (dq_fd (ep_done (sv_epoll s)))" if "(a, s) \<in> set gs" for a s
    using net_contract_accept.on_signal_wakes [OF assms(1,2) o] that by force
  then show ?thesis using adr unfolding each by (auto simp: comp_def case_prod_unfold)
qed

theorem signal_reaches_all_witness:
  "\<exists>gs w gs' w'. servers mnet_os (gs, w) [7, 8] \<and> raise_signal mnet_os gs w = (gs', w') \<and> map fst gs' = [7, 8] \<and>
    (\<forall>(a, s) \<in> set gs'. ep_stopping (sv_epoll s))"
proof -
  obtain gs1 w1 where c1: "construct mnet_os 7 [] (mn_init [] [] []) = (gs1, w1)" by fastforce
  obtain gs2 w2 where c2: "construct mnet_os 8 gs1 w1 = (gs2, w2)" by fastforce
  have "servers mnet_os (gs1, w1) ([] @ [7])" by (rule servers.construct [OF servers.none _ c1]) simp
  then have s: "servers mnet_os (gs2, w2) (([] @ [7]) @ [8])" by (rule servers.construct [OF _ _ c2]) simp
  obtain gs' w' where r: "raise_signal mnet_os gs2 w2 = (gs', w')" by fastforce
  have ok: "eventfd_works mnet_os" by (simp add: eventfd_works_def mnet_write_def)
  from signal_reaches_all [OF mnet_contract_accept ok s r] s r show ?thesis
    by (intro exI [of _ gs2] exI [of _ w2] exI [of _ gs'] exI [of _ w']) auto
qed

text \<open>A server whose handler was never set answers nobody: whatever it receives, no connection is ever sent a
  byte.\<close>

theorem no_handler_no_answer:
  assumes "net_contract_accept net nv budget" "ep_reach net no_handler port (e, w, lost)" "map_of (ep_status e) fd = Some c"
  shows "nv_sent (nv w) fd = [] \<and> drop (cn_idx c) (cn_Outbuffer c) = []"
proof -
  obtain ms rs where a: "nv_sent (nv w) fd @ unsent c = concat (map encode rs)"
    "mset (answers no_handler ms) = mset rs + owed no_handler e (fd, cn_id c)"
    using net_contract_accept.ledger [OF assms] by blast
  have "answers no_handler ms = []" by (induction ms) (simp_all add: no_handler_def)
  then have "rs = []" using a(2) by simp
  then show ?thesis using a(1) by (simp add: unsent_def)
qed

theorem no_handler_no_answer_witness:
  "\<exists>w. ep_reach mnet_os no_handler 80 (demo_loop [(14, demo_conn)] demo_pool 1, w, {#}) \<and> nv_sent (mn_view w) 14 = []"
proof -
  have "(run_conn [7])\<lparr>cn_inflight := 1\<rparr> = demo_conn" by (simp add: run_conn_def demo_conn_def demo_feed)
  then obtain w where r: "ep_reach mnet_os no_handler 80 (demo_loop [(14, demo_conn)] demo_pool 1, w, {#})"
    using run_request [of "[7]" no_handler] by auto
  from no_handler_no_answer [OF mnet_contract_accept r, of 14 demo_conn] r show ?thesis by (auto simp: demo_loop_def)
qed

end
