(* ===== verification/ConnectionPool.thy ===== *)
theory ConnectionPool
  imports Prelude
begin

text \<open>
  The pool of database connections, \<open>src/ConnectionPool.cpp\<close> and \<open>include/ConnectionPool.h\<close>.
  Each definition is one critical section of a method, or the work between two of them; the
  relation \<open>cp_step\<close> of \<open>ConnectionPool_safety\<close> interleaves them.

  A \<open>Connection*\<close> is its address; creating, testing and deleting the object is the interface
  \<open>factory\<close>, which \<open>DbConnection\<close> provides. The clock is an argument where the code reads it, in
  nanoseconds, the unit of \<open>steady_clock\<close>.
  \<open>unordered_map\<close> is iterated in an order that is an argument. An exception of \<open>new\<close> is not
  modelled, so the \<open>catch\<close> of the constructor is not reached.
\<close>

section \<open>Creating connections\<close>

type_synonym addr = nat
type_synonym time = int

definition seconds :: "int \<Rightarrow> time" where
  "seconds k = k * 10 ^ 9"

record 'w factory =
  fa_new :: "string \<Rightarrow> 'w \<Rightarrow> addr \<times> 'w"
  fa_isValid :: "addr \<Rightarrow> 'w \<Rightarrow> bool"
  fa_ping :: "addr \<Rightarrow> 'w \<Rightarrow> bool \<times> 'w"
  fa_delete :: "addr \<Rightarrow> 'w \<Rightarrow> 'w"

text \<open>A new object has an address that no live object has; deleting it ends its life.\<close>

locale factory_contract =
  fixes fa :: "'w factory"
    and alive :: "'w \<Rightarrow> addr set"
  assumes new_law: "fa_new fa filename w = (conn, w') \<Longrightarrow> conn \<notin> alive w \<and> alive w' = insert conn (alive w)"
    and ping_law: "conn \<in> alive w \<Longrightarrow> fa_ping fa conn w = (ok, w') \<Longrightarrow> alive w' = alive w"
    and delete_law: "conn \<in> alive w \<Longrightarrow> alive (fa_delete fa conn w) = alive w - {conn}"

section \<open>State\<close>

record cpool =
  cp_filename :: string
  cp_stopping :: bool
  cp_min_conn :: u64
  cp_max_conn :: u64
  cp_idle :: "addr list"
  cp_in_use :: "addr list"
  cp_borrow_time :: "addr \<rightharpoonup> time"
  cp_return_time :: "addr \<rightharpoonup> time"
  cp_warn :: "addr \<rightharpoonup> u64"
  cp_total_conn :: u64

text \<open>The constructor: \<open>min_conn\<close> connections are created one after the other, valid or not.\<close>

fun create_idle :: "'w factory \<Rightarrow> string \<Rightarrow> nat \<Rightarrow> addr list \<Rightarrow> 'w \<Rightarrow> addr list \<times> 'w" where
  "create_idle fa filename 0 idle w = (idle, w)"
| "create_idle fa filename (Suc n) idle w = (case fa_new fa filename w of (conn, w1) \<Rightarrow>
     create_idle fa filename n (idle @ [conn]) w1)"

definition cpool_new :: "'w factory \<Rightarrow> string \<Rightarrow> u64 \<Rightarrow> u64 \<Rightarrow> 'w \<Rightarrow> cpool \<times> 'w" where
  "cpool_new fa filename min_conn max_conn w = (case create_idle fa filename (unat min_conn) [] w of (idle, w1) \<Rightarrow>
     (\<lparr>cp_filename = filename, cp_stopping = False, cp_min_conn = min_conn, cp_max_conn = max_conn, cp_idle = idle,
       cp_in_use = [], cp_borrow_time = Map.empty, cp_return_time = Map.empty, cp_warn = Map.empty,
       cp_total_conn = min_conn\<rparr>, w1))"

section \<open>release\<close>

text \<open>\<open>emplace\<close> does not replace a value. The result is the pool, whether \<open>notify_one\<close> is reached,
  and the world.\<close>

definition emplace :: "('a \<rightharpoonup> 'b) \<Rightarrow> 'a \<Rightarrow> 'b \<Rightarrow> ('a \<rightharpoonup> 'b)" where
  "emplace f k v = (case f k of None \<Rightarrow> f(k \<mapsto> v) | Some _ \<Rightarrow> f)"

definition release :: "'w factory \<Rightarrow> cpool \<Rightarrow> addr \<Rightarrow> time \<Rightarrow> 'w \<Rightarrow> cpool \<times> bool \<times> 'w" where
  "release fa p conn now w =
     (if cp_borrow_time p conn \<noteq> None
      then let p = p\<lparr>cp_in_use := removeAll conn (cp_in_use p), cp_borrow_time := (cp_borrow_time p)(conn := None)\<rparr>
        in if cp_stopping p then (p, False, fa_delete fa conn w)
           else (p\<lparr>cp_idle := cp_idle p @ [conn], cp_return_time := emplace (cp_return_time p) conn now\<rparr>, True, w)
      else (p, False, w))"

section \<open>expand\<close>

text \<open>The difference \<open>max_conn_ - total_conn_\<close> is taken in \<open>size_t\<close>.\<close>

definition expand_reserve :: "cpool \<Rightarrow> u64 \<times> cpool" where
  "expand_reserve p =
     (let need = min 2 (cp_max_conn p - cp_total_conn p)
      in if need = 0 then (0, p) else (need, p\<lparr>cp_total_conn := cp_total_conn p + need\<rparr>))"

lemma retries_next:
  fixes r :: u64
  assumes "\<not> 5 < unat (r + 1)"
  shows "unat (r + 1) = 0 \<or> unat (r + 1) = unat r + 1 \<and> unat r \<le> 4"
proof (cases "unat r + 1 < 2 ^ 64")
  case True
  then show ?thesis using unat_add_of_nat [of r 1] assms by simp
next
  case False
  then have "unat r + 1 = 18446744073709551616" using unat_u64 [of r] by simp
  then show ?thesis by (simp add: unat_word_ariths)
qed

text \<open>The loop \<open>for(size_t i=0;i<retries;++i)\<close> with the \<open>break\<close>: the valid connections made;
  an invalid one is deleted and adds a turn, unless there were too many.\<close>

function expand_loop :: "'w factory \<Rightarrow> string \<Rightarrow> u64 \<Rightarrow> u64 \<Rightarrow> addr list \<Rightarrow> 'w \<Rightarrow> addr list \<times> 'w" where
  "expand_loop fa filename i retries tem w =
     (if i < retries
      then case fa_new fa filename w of (conn, w1) \<Rightarrow>
        if fa_isValid fa conn w1 then expand_loop fa filename (i + 1) retries (tem @ [conn]) w1
        else let w2 = fa_delete fa conn w1; retries = retries + 1
          in if retries > 5 then (tem, w2) else expand_loop fa filename (i + 1) retries tem w2
      else (tem, w))"
  by pat_completeness auto
termination
  by (relation "measure (\<lambda>(fa, filename, i, retries, tem, w). if i < retries then 1 + (6 - unat retries) + (unat retries - unat i) else 0)")
    (auto simp: word_less_nat_alt unat_next dest: retries_next)

declare expand_loop.simps [simp del]

definition expand_commit :: "cpool \<Rightarrow> u64 \<Rightarrow> addr list \<Rightarrow> cpool" where
  "expand_commit p need tem = p\<lparr>cp_total_conn := cp_total_conn p - need + of_nat (length tem), cp_idle := cp_idle p @ tem\<rparr>"

text \<open>The method as a whole, when no other thread comes between its critical sections.\<close>

definition expand :: "'w factory \<Rightarrow> cpool \<Rightarrow> 'w \<Rightarrow> bool \<times> cpool \<times> 'w" where
  "expand fa p w = (case expand_reserve p of (need, p1) \<Rightarrow>
     if need = 0 then (False, p1, w)
     else case expand_loop fa (cp_filename p1) 0 need [] w of (tem, w1) \<Rightarrow> (True, expand_commit p1 need tem, w1))"

section \<open>acquire\<close>

text \<open>The task: refuse when stopping; decide whether to expand; take the last idle connection;
  drop it when its \<open>ping\<close> fails. The task forgets a bad connection under the lock and deletes the object
  after it has released the lock, so \<open>ping_failed\<close> does not delete.\<close>

definition wants_expand :: "cpool \<Rightarrow> bool" where
  "wants_expand p \<longleftrightarrow> cp_idle p = [] \<and> cp_total_conn p < cp_max_conn p"

definition can_take :: "cpool \<Rightarrow> bool" where
  "can_take p \<longleftrightarrow> cp_idle p \<noteq> [] \<or> cp_stopping p"

definition acquire_take :: "cpool \<Rightarrow> time \<Rightarrow> addr option \<times> cpool" where
  "acquire_take p now =
     (if cp_stopping p then (None, p)
      else let conn = last (cp_idle p) in
        (Some conn, p\<lparr>cp_return_time := (cp_return_time p)(conn := None), cp_idle := butlast (cp_idle p),
           cp_in_use := cp_in_use p @ [conn], cp_borrow_time := emplace (cp_borrow_time p) conn now,
           cp_warn := (cp_warn p)(conn := None)\<rparr>))"

definition ping_failed :: "cpool \<Rightarrow> addr \<Rightarrow> cpool" where
  "ping_failed p conn = p\<lparr>cp_total_conn := cp_total_conn p - 1, cp_in_use := removeAll conn (cp_in_use p),
     cp_warn := (cp_warn p)(conn := None), cp_borrow_time := (cp_borrow_time p)(conn := None)\<rparr>"

section \<open>scanLoop\<close>

text \<open>One pass under the lock. The maps are iterated in the orders \<open>bs\<close> and \<open>rs\<close>; \<open>clock\<close> is the
  reading at each element. The first loop warns once per connection; the second collects the
  connections idle for more than 30 seconds, the third deletes them down to the minimum.\<close>

fun scan_warn :: "(addr \<Rightarrow> time) \<Rightarrow> cpool \<Rightarrow> addr list \<Rightarrow> addr list \<times> cpool" where
  "scan_warn clock p [] = ([], p)"
| "scan_warn clock p (conn # bs) =
     (case cp_borrow_time p conn of None \<Rightarrow> scan_warn clock p bs
      | Some t \<Rightarrow>
        if clock conn - t > seconds 5
        then let warned = (case cp_warn p conn of None \<Rightarrow> 0 | Some k \<Rightarrow> k)
          in if warned \<le> 0
             then case scan_warn clock (p\<lparr>cp_warn := (cp_warn p)(conn \<mapsto> warned + 1)\<rparr>) bs of (ws, p) \<Rightarrow> (conn # ws, p)
             else scan_warn clock (p\<lparr>cp_warn := (cp_warn p)(conn \<mapsto> warned)\<rparr>) bs
        else scan_warn clock p bs)"

definition scan_collect :: "(addr \<Rightarrow> time) \<Rightarrow> cpool \<Rightarrow> addr list \<Rightarrow> addr list" where
  "scan_collect clock p rs = filter (\<lambda>conn. case cp_return_time p conn of None \<Rightarrow> False | Some t \<Rightarrow> clock conn - t > seconds 30) rs"

fun scan_delete :: "'w factory \<Rightarrow> cpool \<Rightarrow> addr list \<Rightarrow> 'w \<Rightarrow> cpool \<times> 'w" where
  "scan_delete fa p [] w = (p, w)"
| "scan_delete fa p (conn # cs) w =
     (if cp_total_conn p \<le> cp_min_conn p then (p, w)
      else scan_delete fa (p\<lparr>cp_idle := removeAll conn (cp_idle p), cp_return_time := (cp_return_time p)(conn := None),
             cp_warn := (cp_warn p)(conn := None), cp_total_conn := cp_total_conn p - 1\<rparr>) cs (fa_delete fa conn w))"

text \<open>The result: the connections warned about, the pool and the world.\<close>

definition scan_pass :: "'w factory \<Rightarrow> (addr \<Rightarrow> time) \<Rightarrow> addr list \<Rightarrow> addr list \<Rightarrow> cpool \<Rightarrow> 'w \<Rightarrow> addr list \<times> cpool \<times> 'w" where
  "scan_pass fa clock bs rs p w = (case scan_warn clock p bs of (ws, p) \<Rightarrow>
     if cp_total_conn p > cp_min_conn p then (ws, scan_delete fa p (scan_collect clock p rs) w)
     else (ws, p, w))"

section \<open>Destructor\<close>

definition cpool_stop :: "cpool \<Rightarrow> cpool" where
  "cpool_stop p = p\<lparr>cp_stopping := True\<rparr>"

text \<open>The last section: every idle connection is deleted; those in use are left to their
  guards.\<close>

function cpool_drain :: "'w factory \<Rightarrow> cpool \<Rightarrow> 'w \<Rightarrow> cpool \<times> 'w" where
  "cpool_drain fa p w = (case cp_idle p of [] \<Rightarrow> (p, w)
     | conn # rest \<Rightarrow> cpool_drain fa (p\<lparr>cp_idle := rest\<rparr>) (fa_delete fa conn w))"
  by pat_completeness auto
termination
  by (relation "measure (\<lambda>(fa, p, w). length (cp_idle p))") auto

declare cpool_drain.simps [simp del]

end
