(* ===== verification/ConnectionGuard.thy ===== *)
theory ConnectionGuard
  imports Prelude "HOL-Library.Multiset"
begin

text \<open>
  The guard that returns a connection, \<open>src/ConnectionGuard.cpp\<close> and \<open>include/ConnectionGuard.h\<close>.
  A guard has the pointer and the callback; \<open>nullptr\<close> and an empty \<open>std::function\<close> are \<open>None\<close>.
  What a callback does is its caller's: the methods give the calls they make. A program
  holds guards in places, each of which is the element of a list, \<open>None\<close> once destroyed.
\<close>

section \<open>Methods\<close>

record ('c, 'k) guard =
  cg_conn :: "'c option"
  cg_return_callback :: "'k option"

definition guard_new :: "'c option \<Rightarrow> 'k option \<Rightarrow> ('c, 'k) guard" where
  "guard_new conn cb = \<lparr>cg_conn = conn, cg_return_callback = cb\<rparr>"

definition guard_delete :: "('c, 'k) guard \<Rightarrow> ('k \<times> 'c) list" where
  "guard_delete g = (case (cg_conn g, cg_return_callback g) of (Some conn, Some cb) \<Rightarrow> [(cb, conn)] | _ \<Rightarrow> [])"

definition guard_cleared :: "('c, 'k) guard \<Rightarrow> ('c, 'k) guard" where
  "guard_cleared g = g\<lparr>cg_conn := None, cg_return_callback := None\<rparr>"

text \<open>Move construction gives the new guard and the one moved from.\<close>

definition guard_move :: "('c, 'k) guard \<Rightarrow> ('c, 'k) guard \<times> ('c, 'k) guard" where
  "guard_move other = (\<lparr>cg_conn = cg_conn other, cg_return_callback = cg_return_callback other\<rparr>, guard_cleared other)"

text \<open>Move assignment: \<open>same\<close> is \<open>this == &other\<close>.\<close>

definition guard_assign :: "bool \<Rightarrow> ('c, 'k) guard \<Rightarrow> ('c, 'k) guard \<Rightarrow> ('k \<times> 'c) list \<times> ('c, 'k) guard \<times> ('c, 'k) guard" where
  "guard_assign same this other =
     (if \<not> same
      then (guard_delete this, this\<lparr>cg_conn := cg_conn other, cg_return_callback := cg_return_callback other\<rparr>, guard_cleared other)
      else ([], this, other))"

definition guard_arrow :: "('c, 'k) guard \<Rightarrow> 'c option" where
  "guard_arrow g = cg_conn g"

definition guard_empty :: "('c, 'k) guard \<Rightarrow> bool" where
  "guard_empty g \<longleftrightarrow> cg_conn g = None"

section \<open>Programs with guards\<close>

datatype ('c, 'k) guard_op = Make 'c 'k | Make_empty | Move nat | Assign nat nat | Destroy nat

record ('c, 'k) guards =
  gs_places :: "('c, 'k) guard option list"
  gs_calls :: "('k \<times> 'c) list"

definition guard_live :: "('c, 'k) guards \<Rightarrow> nat \<Rightarrow> bool" where
  "guard_live s i \<longleftrightarrow> i < length (gs_places s) \<and> gs_places s ! i \<noteq> None"

text \<open>A use of a place that holds no guard is not a program: such an operation is skipped.\<close>

fun guard_run1 :: "('c, 'k) guard_op \<Rightarrow> ('c, 'k) guards \<Rightarrow> ('c, 'k) guards" where
  "guard_run1 (Make conn cb) s = s\<lparr>gs_places := gs_places s @ [Some (guard_new (Some conn) (Some cb))]\<rparr>"
| "guard_run1 Make_empty s = s\<lparr>gs_places := gs_places s @ [Some (guard_new None None)]\<rparr>"
| "guard_run1 (Move j) s = (if guard_live s j
     then case guard_move (the (gs_places s ! j)) of (g, other) \<Rightarrow>
       s\<lparr>gs_places := (gs_places s)[j := Some other] @ [Some g]\<rparr>
     else s)"
| "guard_run1 (Assign i j) s = (if guard_live s i \<and> guard_live s j
     then case guard_assign (i = j) (the (gs_places s ! i)) (the (gs_places s ! j)) of (calls, this, other) \<Rightarrow>
       s\<lparr>gs_places := (gs_places s)[j := Some other, i := Some this], gs_calls := gs_calls s @ calls\<rparr>
     else s)"
| "guard_run1 (Destroy i) s = (if guard_live s i
     then s\<lparr>gs_places := (gs_places s)[i := None], gs_calls := gs_calls s @ guard_delete (the (gs_places s ! i))\<rparr>
     else s)"

definition guard_run :: "('c, 'k) guard_op list \<Rightarrow> ('c, 'k) guards" where
  "guard_run ops = fold guard_run1 ops \<lparr>gs_places = [], gs_calls = []\<rparr>"

text \<open>What was handed to guards, and what the guards still hold.\<close>

fun handed :: "('c, 'k) guard_op \<Rightarrow> ('k \<times> 'c) multiset" where
  "handed (Make conn cb) = {#(cb, conn)#}" | "handed _ = {#}"

definition duty :: "('c, 'k) guard option \<Rightarrow> ('k \<times> 'c) multiset" where
  "duty g = (case g of None \<Rightarrow> {#} | Some g \<Rightarrow> mset (guard_delete g))"

definition duties :: "('c, 'k) guards \<Rightarrow> ('k \<times> 'c) multiset" where
  "duties s = sum_list (map duty (gs_places s))"

lemma sum_list_update_eq:
  "i < length xs \<Longrightarrow> sum_list (map f (xs[i := y])) + f (xs ! i) = sum_list (map f xs) + (f y :: 'b::comm_monoid_add)"
  by (induction xs arbitrary: i) (auto simp: add_ac split: nat.splits)

lemma duty_simps [simp]:
  "duty None = {#}" "duty (Some (guard_cleared g)) = {#}" "duty (Some (guard_new None None)) = {#}"
  "duty (Some (guard_new (Some conn) (Some cb))) = {#(cb, conn)#}"
  "duty (Some \<lparr>cg_conn = cg_conn g, cg_return_callback = cg_return_callback g\<rparr>) = duty (Some g)"
  "duty (Some (g'\<lparr>cg_conn := cg_conn g, cg_return_callback := cg_return_callback g\<rparr>)) = duty (Some g)"
  by (simp_all add: duty_def guard_delete_def guard_cleared_def guard_new_def)

lemma duty_place: "guard_live s i \<Longrightarrow> duty (gs_places s ! i) = mset (guard_delete (the (gs_places s ! i)))"
  by (auto simp: guard_live_def duty_def)

text \<open>Every operation keeps the balance of what was handed out, called and is still held.\<close>

lemma guard_run1_balance:
  "duties (guard_run1 op s) + mset (gs_calls (guard_run1 op s)) = duties s + mset (gs_calls s) + handed op"
proof (cases op)
  case (Move j)
  show ?thesis
  proof (cases "guard_live s j")
    case True
    then have j: "j < length (gs_places s)" "gs_places s ! j = Some (the (gs_places s ! j))" by (auto simp: guard_live_def)
    show ?thesis
      using sum_list_update_eq [OF j(1), of duty "Some (guard_cleared (the (gs_places s ! j)))"] True Move j(2)
      by (simp add: duties_def guard_move_def)
  qed (simp add: Move)
next
  case (Destroy i)
  show ?thesis
  proof (cases "guard_live s i")
    case True
    then have "i < length (gs_places s)" by (simp add: guard_live_def)
    from sum_list_update_eq [OF this, of duty None] show ?thesis
      using True Destroy duty_place [OF True] by (simp add: duties_def ac_simps)
  qed (simp add: Destroy)
next
  case (Assign i j)
  show ?thesis
  proof (cases "guard_live s i \<and> guard_live s j")
    case True
    let ?a = "the (gs_places s ! i)" and ?b = "the (gs_places s ! j)"
    have l: "i < length (gs_places s)" "gs_places s ! i = Some ?a" "j < length (gs_places s)" "gs_places s ! j = Some ?b"
      using True by (auto simp: guard_live_def)
    show ?thesis
    proof (cases "i = j")
      case True
      have "(gs_places s)[j := Some ?b, j := Some ?b] = gs_places s"
        using list_update_id [of "gs_places s" j] l(4) by simp
      then show ?thesis using Assign True l by (simp add: guard_assign_def duties_def guard_live_def)
    next
      case False
      let ?p = "(gs_places s)[j := Some (guard_cleared ?b)]"
        and ?g = "?a\<lparr>cg_conn := cg_conn ?b, cg_return_callback := cg_return_callback ?b\<rparr>"
      have 1: "sum_list (map duty ?p) + duty (Some ?b) = sum_list (map duty (gs_places s))"
        using sum_list_update_eq [OF l(3), of duty "Some (guard_cleared ?b)"] l(4) by simp
      have 2: "sum_list (map duty (?p[i := Some ?g])) + duty (Some ?a) = sum_list (map duty ?p) + duty (Some ?b)"
        using sum_list_update_eq [of i ?p duty "Some ?g"] l(1,2) False by simp
      have "duty (Some ?a) = mset (guard_delete ?a)" by (simp add: duty_def)
      then show ?thesis using Assign True False 1 2 by (simp add: guard_assign_def duties_def ac_simps)
    qed
  qed (auto simp: Assign)
qed (simp_all add: duties_def)

lemma no_duties:
  assumes "\<forall>i. \<not> guard_live s i"
  shows "duties s = {#}"
proof -
  have none: "\<forall>g \<in> set gs. g = None \<Longrightarrow> sum_list (map duty gs) = {#}" for gs :: "('a, 'b) guard option list"
    by (induction gs) auto
  have "\<forall>g \<in> set (gs_places s). g = None" using assms by (auto simp: guard_live_def in_set_conv_nth)
  from none [OF this] show ?thesis by (simp add: duties_def)
qed

text \<open>Property C35. A connection given to a guard is returned exactly once: whatever a program does
  with its guards (making, move construction, move assignment, also to itself, and destruction, in
  any order), what was handed to guards is, as a multiset, what was given back through
  the callbacks and what the guards still hold; when all are destroyed, all was given back.\<close>

theorem guard_returns_once:
  "mset (gs_calls (guard_run ops)) + duties (guard_run ops) = sum_list (map handed ops) \<and>
   ((\<forall>i. \<not> guard_live (guard_run ops) i) \<longrightarrow> mset (gs_calls (guard_run ops)) = sum_list (map handed ops))"
proof -
  have "duties (fold guard_run1 ops s) + mset (gs_calls (fold guard_run1 ops s)) =
      duties s + mset (gs_calls s) + sum_list (map handed ops)" for s
  proof (induction ops arbitrary: s)
    case (Cons op ops)
    show ?case using Cons.IH [of "guard_run1 op s"] guard_run1_balance [of op s] by (simp add: ac_simps)
  qed simp
  then have b: "mset (gs_calls (guard_run ops)) + duties (guard_run ops) = sum_list (map handed ops)"
    by (simp add: guard_run_def duties_def ac_simps)
  moreover have "duties (guard_run ops) = {#}" if "\<forall>i. \<not> guard_live (guard_run ops) i"
    by (rule no_duties [OF that])
  ultimately show ?thesis by auto
qed

lemma guard_returns_once_witness:
  "mset (gs_calls (guard_run [Make (7::nat) ''pool'', Move 0, Make 8 ''pool'', Assign 1 2, Assign 1 1, Destroy 0, Destroy 2, Destroy 1])) =
   {#(''pool'', 7), (''pool'', 8)#}"
proof -
  let ?ops = "[Make (7::nat) ''pool'', Move 0, Make 8 ''pool'', Assign 1 2, Assign 1 1, Destroy 0, Destroy 2, Destroy 1]"
  have "gs_places (guard_run ?ops) = [None, None, None]" by (simp add: guard_run_def guard_live_def guard_move_def guard_assign_def Let_def)
  then have "\<forall>i. \<not> guard_live (guard_run ?ops) i" by (simp add: guard_live_def nth_Cons split: nat.splits)
  then show ?thesis using guard_returns_once [of ?ops] by simp
qed

end
