(* ===== verification/DbConnection.thy ===== *)
theory DbConnection
  imports ConnectionPool "HOL-Library.AList"
begin

text \<open>
  Database connections and their cursors, \<open>src/Connection.cpp\<close> and \<open>src/Cursor.cpp\<close> (the classes of
  \<open>include/Connection.h\<close> and \<open>include/Cursor.h\<close>). SQLite is a library the sources only call: its
  functions are the fields of \<open>sqlite\<close>, a parameter, over a state \<open>'s\<close> of its own. The other
  half of the world is the heap of \<open>Connection\<close> and \<open>Cursor\<close> objects, and the lines on \<open>std::cerr\<close>.
\<close>

section \<open>SQLite\<close>

type_synonym handle = nat
type_synonym stmt = nat

record 's sqlite =
  sq_open :: "string \<Rightarrow> 's \<Rightarrow> int \<times> handle option \<times> 's"
  sq_close :: "handle \<Rightarrow> 's \<Rightarrow> int \<times> 's"
  sq_busy_timeout :: "handle \<Rightarrow> int \<Rightarrow> 's \<Rightarrow> 's"
  sq_exec :: "handle \<Rightarrow> string \<Rightarrow> 's \<Rightarrow> int \<times> string option \<times> 's"
  sq_prepare_v2 :: "handle \<Rightarrow> string \<Rightarrow> 's \<Rightarrow> int \<times> stmt option \<times> 's"
  sq_finalize :: "stmt option \<Rightarrow> 's \<Rightarrow> 's"
  sq_step :: "stmt option \<Rightarrow> 's \<Rightarrow> int \<times> 's"
  sq_column_int :: "stmt option \<Rightarrow> int \<Rightarrow> 's \<Rightarrow> int"
  sq_column_text :: "stmt option \<Rightarrow> int \<Rightarrow> 's \<Rightarrow> string option"
  sq_column_count :: "stmt option \<Rightarrow> 's \<Rightarrow> int"
  sq_errstr :: "int \<Rightarrow> string"
  sq_errmsg :: "handle \<Rightarrow> 's \<Rightarrow> string"

abbreviation SQLITE_OK :: int where "SQLITE_OK \<equiv> 0"
abbreviation SQLITE_BUSY :: int where "SQLITE_BUSY \<equiv> 5"
abbreviation SQLITE_ROW :: int where "SQLITE_ROW \<equiv> 100"
abbreviation SQLITE_DONE :: int where "SQLITE_DONE \<equiv> 101"

section \<open>The heap\<close>

datatype obj = Connection_obj "handle option" | Cursor_obj "stmt option"

datatype complaint = Open_error string | Query_error string | Execute_error string | Step_error int

record 's db_world =
  dw_heap :: "(addr \<times> obj) list"
  dw_cerr :: "complaint list"
  dw_sql :: 's

text \<open>\<open>new\<close> takes an address no object has, and not \<open>nullptr\<close>.\<close>

definition fresh :: "(addr \<times> 'o) list \<Rightarrow> addr" where
  "fresh h = Suc (fold max (map fst h) 0)"

definition new_obj :: "obj \<Rightarrow> 's db_world \<Rightarrow> addr \<times> 's db_world" where
  "new_obj ob w = (let a = fresh (dw_heap w) in (a, w\<lparr>dw_heap := (a, ob) # dw_heap w\<rparr>))"

definition free_obj :: "addr \<Rightarrow> 's db_world \<Rightarrow> 's db_world" where
  "free_obj a w = w\<lparr>dw_heap := AList.delete a (dw_heap w)\<rparr>"

definition complain :: "complaint \<Rightarrow> 's db_world \<Rightarrow> 's db_world" where
  "complain c w = w\<lparr>dw_cerr := dw_cerr w @ [c]\<rparr>"

definition conn_db :: "'s db_world \<Rightarrow> addr \<Rightarrow> handle option" where
  "conn_db w a = (case map_of (dw_heap w) a of Some (Connection_obj db) \<Rightarrow> db | _ \<Rightarrow> None)"

definition cursor_stmt :: "'s db_world \<Rightarrow> addr \<Rightarrow> stmt option" where
  "cursor_stmt w a = (case map_of (dw_heap w) a of Some (Cursor_obj stmt) \<Rightarrow> stmt | _ \<Rightarrow> None)"

section \<open>Connection\<close>

text \<open>The constructor: a handle that \<open>sqlite3_open\<close> gave with an error is closed at once.\<close>

definition sql_connection_init :: "'s sqlite \<Rightarrow> string \<Rightarrow> 's db_world \<Rightarrow> handle option \<times> 's db_world" where
  "sql_connection_init sq filename w = (case sq_open sq filename (dw_sql w) of (r, db, s) \<Rightarrow>
     if r \<noteq> 0
     then let w = complain (Open_error (sq_errstr sq r)) (w\<lparr>dw_sql := s\<rparr>)
       in (case db of None \<Rightarrow> (db, w) | Some h \<Rightarrow> (None, w\<lparr>dw_sql := snd (sq_close sq h s)\<rparr>))
     else (case db of None \<Rightarrow> (db, w\<lparr>dw_sql := s\<rparr>)
       | Some h \<Rightarrow> let s = sq_busy_timeout sq h 3000 s;
             s = snd (snd (sq_exec sq h ''PRAGMA journal_mode=WAL;'' s))
           in (db, w\<lparr>dw_sql := s\<rparr>)))"

definition sql_connection_new :: "'s sqlite \<Rightarrow> string \<Rightarrow> 's db_world \<Rightarrow> addr \<times> 's db_world" where
  "sql_connection_new sq filename w = (case sql_connection_init sq filename w of (db, w) \<Rightarrow> new_obj (Connection_obj db) w)"

text \<open>The destructor does not look at the result of \<open>sqlite3_close\<close>.\<close>

definition sql_connection_delete :: "'s sqlite \<Rightarrow> addr \<Rightarrow> 's db_world \<Rightarrow> 's db_world" where
  "sql_connection_delete sq a w = (case conn_db w a of None \<Rightarrow> free_obj a w
     | Some h \<Rightarrow> free_obj a (w\<lparr>dw_sql := snd (sq_close sq h (dw_sql w))\<rparr>))"

definition query :: "'s sqlite \<Rightarrow> addr \<Rightarrow> string \<Rightarrow> 's db_world \<Rightarrow> addr option \<times> 's db_world" where
  "query sq a sql w = (case conn_db w a of None \<Rightarrow> (None, w)
     | Some h \<Rightarrow> case sq_prepare_v2 sq h sql (dw_sql w) of (rc, stmt, s) \<Rightarrow>
         let w = w\<lparr>dw_sql := s\<rparr>
         in if rc = SQLITE_OK then (case new_obj (Cursor_obj stmt) w of (c, w) \<Rightarrow> (Some c, w))
            else (None, complain (Query_error (sq_errmsg sq h s)) w))"

text \<open>Success is the absence of an error message; the result code is not read.\<close>

definition execute :: "'s sqlite \<Rightarrow> addr \<Rightarrow> string \<Rightarrow> 's db_world \<Rightarrow> bool \<times> 's db_world" where
  "execute sq a sql w = (case conn_db w a of None \<Rightarrow> (False, w)
     | Some h \<Rightarrow> case sq_exec sq h sql (dw_sql w) of (rc, errmsg, s) \<Rightarrow>
         case errmsg of Some e \<Rightarrow> (False, complain (Execute_error e) (w\<lparr>dw_sql := s\<rparr>))
         | None \<Rightarrow> (True, w\<lparr>dw_sql := s\<rparr>))"

definition ping :: "'s sqlite \<Rightarrow> addr \<Rightarrow> 's db_world \<Rightarrow> bool \<times> 's db_world" where
  "ping sq a w = (if conn_db w a = None then (False, w) else execute sq a ''SELECT 1;'' w)"

definition isValid :: "addr \<Rightarrow> 's db_world \<Rightarrow> bool" where
  "isValid a w \<longleftrightarrow> conn_db w a \<noteq> None"

section \<open>Cursor\<close>

definition cursor_delete :: "'s sqlite \<Rightarrow> addr \<Rightarrow> 's db_world \<Rightarrow> 's db_world" where
  "cursor_delete sq c w = (if cursor_stmt w c \<noteq> None
     then free_obj c (w\<lparr>dw_sql := sq_finalize sq (cursor_stmt w c) (dw_sql w)\<rparr>) else free_obj c w)"

definition set_stmt :: "addr \<Rightarrow> stmt option \<Rightarrow> 's db_world \<Rightarrow> 's db_world" where
  "set_stmt c stmt w = w\<lparr>dw_heap := AList.update c (Cursor_obj stmt) (dw_heap w)\<rparr>"

text \<open>Move construction of a new cursor from \<open>other\<close>.\<close>

definition cursor_move :: "addr \<Rightarrow> 's db_world \<Rightarrow> addr \<times> 's db_world" where
  "cursor_move other w = (case new_obj (Cursor_obj (cursor_stmt w other)) w of (c, w) \<Rightarrow> (c, set_stmt other None w))"

definition cursor_assign :: "'s sqlite \<Rightarrow> addr \<Rightarrow> addr \<Rightarrow> 's db_world \<Rightarrow> 's db_world" where
  "cursor_assign sq c other w =
     (if c \<noteq> other
      then let w = w\<lparr>dw_sql := sq_finalize sq (cursor_stmt w c) (dw_sql w)\<rparr>;
             w = set_stmt c (cursor_stmt w other) w
        in set_stmt other None w
      else w)"

definition cursor_next :: "'s sqlite \<Rightarrow> addr \<Rightarrow> 's db_world \<Rightarrow> bool \<times> 's db_world" where
  "cursor_next sq c w = (case sq_step sq (cursor_stmt w c) (dw_sql w) of (rc, s) \<Rightarrow>
     let w = w\<lparr>dw_sql := s\<rparr>
     in if rc = SQLITE_ROW then (True, w)
        else if rc = SQLITE_DONE then (False, w)
        else (False, complain (Step_error rc) w))"

definition getInt :: "'s sqlite \<Rightarrow> addr \<Rightarrow> int \<Rightarrow> 's db_world \<Rightarrow> int" where
  "getInt sq c col w = sq_column_int sq (cursor_stmt w c) col (dw_sql w)"

text \<open>The text is taken up to its first NUL.\<close>

definition getString :: "'s sqlite \<Rightarrow> addr \<Rightarrow> int \<Rightarrow> 's db_world \<Rightarrow> string" where
  "getString sq c col w = (case sq_column_text sq (cursor_stmt w c) col (dw_sql w) of
     None \<Rightarrow> '''' | Some text \<Rightarrow> takeWhile (\<lambda>b. b \<noteq> CHR 0x00) text)"

definition columnCount :: "'s sqlite \<Rightarrow> addr \<Rightarrow> 's db_world \<Rightarrow> int" where
  "columnCount sq c w = sq_column_count sq (cursor_stmt w c) (dw_sql w)"

section \<open>The heap as a map\<close>

lemma fold_max_ge: "x \<in> set xs \<or> x \<le> m \<Longrightarrow> x \<le> fold max xs m" for m :: nat
proof (induction xs arbitrary: m)
  case (Cons y ys)
  have "x \<in> set ys \<or> x \<le> max y m" using Cons.prems by auto
  from Cons.IH [OF this] show ?case by simp
qed simp

lemma fresh_none [simp]: "map_of h (fresh h) = None"
  using fold_max_ge [of "fresh h" "map fst h" 0] by (auto simp: map_of_eq_None_iff fresh_def)

lemma heap_simps [simp]:
  "dw_heap (complain k w) = dw_heap w" "dw_sql (complain k w) = dw_sql w" "dw_sql (free_obj a w) = dw_sql w"
  "dw_sql (set_stmt c st w) = dw_sql w" "dw_cerr (free_obj a w) = dw_cerr w"
  "map_of (dw_heap (free_obj a w)) = (map_of (dw_heap w))(a := None)"
  "map_of (dw_heap (set_stmt c st w)) = (map_of (dw_heap w))(c \<mapsto> Cursor_obj st)"
  by (simp_all add: complain_def free_obj_def set_stmt_def delete_conv' update_conv')

lemma new_objD:
  "new_obj ob w = (a, w') \<Longrightarrow> a = fresh (dw_heap w) \<and> map_of (dw_heap w') = (map_of (dw_heap w))(a \<mapsto> ob) \<and>
     map_of (dw_heap w) a = None \<and> dw_sql w' = dw_sql w"
  by (auto simp: new_obj_def Let_def)

lemma sql_connection_init_heap:
  assumes "sql_connection_init sq filename w = (db, w')"
  shows "dw_heap w' = dw_heap w"
proof -
  obtain r d s where "sq_open sq filename (dw_sql w) = (r, d, s)" by (metis prod_cases3)
  then show ?thesis using assms by (cases d; cases "r = 0") (auto simp: sql_connection_init_def Let_def)
qed

lemma execute_heap: "execute sq a sql w = (ok, w') \<Longrightarrow> dw_heap w' = dw_heap w"
  by (auto simp: execute_def split: prod.splits option.splits)

lemma ping_heap: "ping sq a w = (ok, w') \<Longrightarrow> dw_heap w' = dw_heap w"
  by (auto simp: ping_def dest: execute_heap split: if_splits)

lemma delete_heap: "map_of (dw_heap (sql_connection_delete sq a w)) = (map_of (dw_heap w))(a := None)"
  by (auto simp: sql_connection_delete_def split: option.splits)

section \<open>Connections for the pool\<close>

definition db_factory :: "'s sqlite \<Rightarrow> 's db_world factory" where
  "db_factory sq = \<lparr>fa_new = sql_connection_new sq, fa_isValid = isValid, fa_ping = ping sq, fa_delete = sql_connection_delete sq\<rparr>"

definition connections :: "'s db_world \<Rightarrow> addr set" where
  "connections w = {a. \<exists>db. map_of (dw_heap w) a = Some (Connection_obj db)}"

interpretation db: factory_contract "db_factory sq" connections for sq
proof
  fix filename conn and w w' :: "'a db_world"
  assume "fa_new (db_factory sq) filename w = (conn, w')"
  then obtain d w1 where "sql_connection_init sq filename w = (d, w1)" "new_obj (Connection_obj d) w1 = (conn, w')"
    by (auto simp: db_factory_def sql_connection_new_def split: prod.splits)
  then show "conn \<notin> connections w \<and> connections w' = insert conn (connections w)"
    using sql_connection_init_heap [of sq filename w d w1] new_objD [of "Connection_obj d" w1 conn w'] by (auto simp: connections_def)
next
  fix conn ok and w w' :: "'a db_world"
  assume "fa_ping (db_factory sq) conn w = (ok, w')"
  then show "connections w' = connections w" using ping_heap by (fastforce simp: db_factory_def connections_def)
next
  fix conn and w :: "'a db_world"
  show "connections (fa_delete (db_factory sq) conn w) = connections w - {conn}"
    by (auto simp: db_factory_def connections_def delete_heap)
qed

end
