(* ===== verification/DbConnection_safety.thy ===== *)
theory DbConnection_safety
  imports DbConnection
begin

text \<open>
  What a program does with connections and cursors, step by step, and the resources of SQLite it
  holds. \<open>opens\<close> and \<open>stmts\<close> read the open handles and the prepared statements, with their handles,
  off SQLite's state; \<open>sqlite_contract\<close> is the documented behaviour of its functions.
\<close>

section \<open>SQLite's documented behaviour\<close>

definition keeps :: "('s \<Rightarrow> handle set) \<Rightarrow> ('s \<Rightarrow> stmt \<rightharpoonup> handle) \<Rightarrow> 's \<Rightarrow> 's \<Rightarrow> bool" where
  "keeps opens stmts s s' \<longleftrightarrow> opens s' = opens s \<and> stmts s' = stmts s"

text \<open>\<open>sqlite3_open\<close> gives a handle also with most errors.\<close>

definition open_law :: "'s sqlite \<Rightarrow> ('s \<Rightarrow> handle set) \<Rightarrow> ('s \<Rightarrow> stmt \<rightharpoonup> handle) \<Rightarrow> bool" where
  "open_law sq opens stmts \<longleftrightarrow> (\<forall>fn s r db s'. sq_open sq fn s = (r, db, s') \<longrightarrow> stmts s' = stmts s \<and>
     (case db of None \<Rightarrow> r \<noteq> SQLITE_OK \<and> opens s' = opens s | Some h \<Rightarrow> h \<notin> opens s \<and> opens s' = insert h (opens s)))"

text \<open>\<open>sqlite3_close\<close> leaves a handle open while statements of it are not finalized.\<close>

definition close_law :: "'s sqlite \<Rightarrow> ('s \<Rightarrow> handle set) \<Rightarrow> ('s \<Rightarrow> stmt \<rightharpoonup> handle) \<Rightarrow> bool" where
  "close_law sq opens stmts \<longleftrightarrow> (\<forall>h s. h \<in> opens s \<longrightarrow> stmts (snd (sq_close sq h s)) = stmts s \<and>
     opens (snd (sq_close sq h s)) = (if h \<in> ran (stmts s) then opens s else opens s - {h}))"

definition run_law :: "'s sqlite \<Rightarrow> ('s \<Rightarrow> handle set) \<Rightarrow> ('s \<Rightarrow> stmt \<rightharpoonup> handle) \<Rightarrow> bool" where
  "run_law sq opens stmts \<longleftrightarrow> (\<forall>h t sql st s. keeps opens stmts s (sq_busy_timeout sq h t s) \<and>
     keeps opens stmts s (snd (snd (sq_exec sq h sql s))) \<and> keeps opens stmts s (snd (sq_step sq st s)))"

text \<open>\<open>sqlite3_prepare_v2\<close> gives no statement with an error, and none for an empty text.\<close>

definition prepare_law :: "'s sqlite \<Rightarrow> ('s \<Rightarrow> handle set) \<Rightarrow> ('s \<Rightarrow> stmt \<rightharpoonup> handle) \<Rightarrow> bool" where
  "prepare_law sq opens stmts \<longleftrightarrow> (\<forall>h sql s rc st s'. h \<in> opens s \<longrightarrow> sq_prepare_v2 sq h sql s = (rc, st, s') \<longrightarrow>
     opens s' = opens s \<and>
     (case st of None \<Rightarrow> stmts s' = stmts s | Some t \<Rightarrow> rc = SQLITE_OK \<and> stmts s t = None \<and> stmts s' = (stmts s)(t \<mapsto> h)))"

text \<open>\<open>sqlite3_finalize\<close> of \<open>NULL\<close> does nothing.\<close>

definition finalize_law :: "'s sqlite \<Rightarrow> ('s \<Rightarrow> handle set) \<Rightarrow> ('s \<Rightarrow> stmt \<rightharpoonup> handle) \<Rightarrow> bool" where
  "finalize_law sq opens stmts \<longleftrightarrow> (\<forall>s. sq_finalize sq None s = s) \<and> (\<forall>t s. stmts s t \<noteq> None \<longrightarrow>
     opens (sq_finalize sq (Some t) s) = opens s \<and> stmts (sq_finalize sq (Some t) s) = (stmts s)(t := None))"

definition sqlite_contract :: "'s sqlite \<Rightarrow> ('s \<Rightarrow> handle set) \<Rightarrow> ('s \<Rightarrow> stmt \<rightharpoonup> handle) \<Rightarrow> bool" where
  "sqlite_contract sq opens stmts \<longleftrightarrow> open_law sq opens stmts \<and> close_law sq opens stmts \<and> run_law sq opens stmts \<and>
     prepare_law sq opens stmts \<and> finalize_law sq opens stmts"

lemma sqlite_contractD:
  assumes "sqlite_contract sq opens stmts"
  shows "open_law sq opens stmts" "close_law sq opens stmts" "run_law sq opens stmts" "prepare_law sq opens stmts"
    "finalize_law sq opens stmts"
  using assms by (simp_all add: sqlite_contract_def)

lemma run_lawD:
  assumes "run_law sq opens stmts"
  shows "keeps opens stmts s (sq_busy_timeout sq h t s)" "keeps opens stmts s (snd (snd (sq_exec sq h sql s)))"
    "keeps opens stmts s (snd (sq_step sq st s))"
  using assms by (simp_all add: run_law_def)

lemma keeps_trans: "keeps opens stmts s s' \<Longrightarrow> keeps opens stmts s' s'' \<Longrightarrow> keeps opens stmts s s''"
  by (simp add: keeps_def)

section \<open>Programs with connections\<close>

definition cursors :: "'s db_world \<Rightarrow> addr set" where
  "cursors w = {c. \<exists>st. map_of (dw_heap w) c = Some (Cursor_obj st)}"

text \<open>\<open>ok\<close> is what the program makes sure of before it deletes a connection.\<close>

inductive db_step :: "'s sqlite \<Rightarrow> ('s db_world \<Rightarrow> addr \<Rightarrow> bool) \<Rightarrow> 's db_world \<Rightarrow> 's db_world \<Rightarrow> bool" for sq ok where
  opens: "sql_connection_new sq filename w = (a, w') \<Longrightarrow> db_step sq ok w w'"
| closes: "a \<in> connections w \<Longrightarrow> ok w a \<Longrightarrow> db_step sq ok w (sql_connection_delete sq a w)"
| queries: "a \<in> connections w \<Longrightarrow> query sq a sql w = (r, w') \<Longrightarrow> db_step sq ok w w'"
| executes: "a \<in> connections w \<Longrightarrow> execute sq a sql w = (r, w') \<Longrightarrow> db_step sq ok w w'"
| pings: "a \<in> connections w \<Longrightarrow> ping sq a w = (r, w') \<Longrightarrow> db_step sq ok w w'"
| nexts: "c \<in> cursors w \<Longrightarrow> cursor_next sq c w = (r, w') \<Longrightarrow> db_step sq ok w w'"
| moves: "c \<in> cursors w \<Longrightarrow> cursor_move c w = (r, w') \<Longrightarrow> db_step sq ok w w'"
| assigns: "c \<in> cursors w \<Longrightarrow> other \<in> cursors w \<Longrightarrow> db_step sq ok w (cursor_assign sq c other w)"
| drops: "c \<in> cursors w \<Longrightarrow> db_step sq ok w (cursor_delete sq c w)"

inductive db_reach :: "'s sqlite \<Rightarrow> ('s db_world \<Rightarrow> addr \<Rightarrow> bool) \<Rightarrow> 's db_world \<Rightarrow> 's db_world \<Rightarrow> bool" for sq ok w where
  here: "db_reach sq ok w w"
| further: "db_reach sq ok w w' \<Longrightarrow> db_step sq ok w' w'' \<Longrightarrow> db_reach sq ok w w''"

definition no_cursor :: "('s \<Rightarrow> stmt \<rightharpoonup> handle) \<Rightarrow> 's db_world \<Rightarrow> addr \<Rightarrow> bool" where
  "no_cursor stmts w a \<longleftrightarrow> (\<forall>c st. cursor_stmt w c = Some st \<longrightarrow> stmts (dw_sql w) st \<noteq> conn_db w a)"

text \<open>What a program does with a connection it got from the pool, which it does not delete itself.\<close>

inductive db_use :: "'s sqlite \<Rightarrow> addr \<Rightarrow> 's db_world \<Rightarrow> 's db_world \<Rightarrow> bool" for sq a where
  "query sq a sql w = (r, w') \<Longrightarrow> db_use sq a w w'"
| "execute sq a sql w = (r, w') \<Longrightarrow> db_use sq a w w'"
| "c \<in> cursors w \<Longrightarrow> cursor_next sq c w = (r, w') \<Longrightarrow> db_use sq a w w'"
| "c \<in> cursors w \<Longrightarrow> db_use sq a w (cursor_delete sq c w)"

lemma db_use_connections: "db_use sq a w w' \<Longrightarrow> connections w' = connections w"
proof (induction rule: db_use.induct)
  case (1 sql w r w')
  show ?case
  proof (cases "conn_db w a")
    case None
    then show ?thesis using 1 by (simp add: query_def)
  next
    case (Some h)
    obtain rc st s where p: "sq_prepare_v2 sq h sql (dw_sql w) = (rc, st, s)" by (metis prod_cases3)
    let ?w = "w\<lparr>dw_sql := s\<rparr>"
    have "dw_heap w' = dw_heap w \<or> (\<exists>c. new_obj (Cursor_obj st) ?w = (c, w'))"
      using 1 Some p by (auto simp: query_def Let_def split: if_splits prod.splits)
    then show ?thesis
    proof
      assume "dw_heap w' = dw_heap w"
      then show ?thesis by (simp add: connections_def)
    next
      assume "\<exists>c. new_obj (Cursor_obj st) ?w = (c, w')"
      then obtain c where "new_obj (Cursor_obj st) ?w = (c, w')" by blast
      from new_objD [OF this] show ?thesis by (auto simp: connections_def)
    qed
  qed
next
  case (2 sql w r w')
  then show ?case by (simp add: connections_def execute_heap)
next
  case (3 c w r w')
  then have "dw_heap w' = dw_heap w" by (auto simp: cursor_next_def Let_def split: prod.splits if_splits)
  then show ?case by (simp add: connections_def)
next
  case (4 c w)
  then show ?case by (auto simp: connections_def cursors_def cursor_delete_def)
qed

section \<open>Resources\<close>

definition once :: "('a \<rightharpoonup> 'b) \<Rightarrow> bool" where
  "once m \<longleftrightarrow> (\<forall>a b k. m a = Some k \<longrightarrow> m b = Some k \<longrightarrow> a = b)"

lemma onceD: "once m \<Longrightarrow> m a = Some k \<Longrightarrow> m b = Some k \<Longrightarrow> b = a"
  unfolding once_def by blast

lemma once_new: "once m \<Longrightarrow> k \<notin> ran m \<Longrightarrow> once (m(a \<mapsto> k))"
  unfolding once_def by (auto simp: ranI)

lemma once_del: "once m \<Longrightarrow> once (m(a := None))"
  unfolding once_def by auto

lemma ran_del:
  assumes "once m" "m a = Some k"
  shows "ran (m(a := None)) = ran m - {k}"
proof (rule set_eqI)
  fix j
  have "m b = Some j \<Longrightarrow> b \<noteq> a \<longleftrightarrow> j \<noteq> k" for b using onceD [OF assms, of b] assms(2) by auto
  then show "j \<in> ran (m(a := None)) \<longleftrightarrow> j \<in> ran m - {k}" unfolding ran_def by auto
qed

text \<open>A value that moves from one key to another, free one.\<close>

lemma moved:
  assumes "once m" "m c = None" "c \<noteq> x" "m' = m(c := m x, x := None)"
  shows "ran m' = ran m" "once m'"
proof -
  have in_m: "m' a = Some k \<Longrightarrow> a \<noteq> x \<and> m (if a = c then x else a) = Some k" for a k
    using assms(4) by (auto split: if_splits)
  have in_m': "m a = Some k \<Longrightarrow> m' (if a = x then c else a) = Some k" for a k
    using assms(2-4) by auto
  show "ran m' = ran m"
  proof (rule set_eqI)
    fix k show "k \<in> ran m' \<longleftrightarrow> k \<in> ran m"
      unfolding ran_def using in_m [of _ k] in_m' [of _ k] by blast
  qed
  show "once m'" unfolding once_def
  proof (intro allI impI)
    fix a b k assume "m' a = Some k" "m' b = Some k"
    then have "(if b = c then x else b) = (if a = c then x else a)" "a \<noteq> x" "b \<noteq> x"
      using in_m onceD [OF assms(1)] by blast+
    then show "a = b" by (simp split: if_splits)
  qed
qed

text \<open>Every statement has one cursor, every handle one connection or is lost.\<close>

definition cursors_exact :: "('s \<Rightarrow> stmt \<rightharpoonup> handle) \<Rightarrow> 's db_world \<Rightarrow> bool" where
  "cursors_exact stmts w \<longleftrightarrow> dom (stmts (dw_sql w)) = ran (cursor_stmt w) \<and> once (cursor_stmt w)"

definition db_inv :: "('s \<Rightarrow> handle set) \<Rightarrow> ('s \<Rightarrow> stmt \<rightharpoonup> handle) \<Rightarrow> handle set \<Rightarrow> 's db_world \<Rightarrow> bool" where
  "db_inv opens stmts lost w \<longleftrightarrow> cursors_exact stmts w \<and> once (conn_db w) \<and> ran (stmts (dw_sql w)) \<subseteq> opens (dw_sql w) \<and>
     opens (dw_sql w) = ran (conn_db w) \<union> lost \<and> ran (conn_db w) \<inter> lost = {}"

lemma db_invD:
  assumes "db_inv opens stmts lost w"
  shows "cursors_exact stmts w" "once (conn_db w)" "ran (stmts (dw_sql w)) \<subseteq> opens (dw_sql w)"
    "opens (dw_sql w) = ran (conn_db w) \<union> lost" "ran (conn_db w) \<inter> lost = {}"
  using assms unfolding db_inv_def by blast+

lemma db_inv_conn:
  assumes "db_inv opens stmts lost w" "conn_db w a = Some h"
  shows "h \<in> opens (dw_sql w)" "h \<notin> lost"
  using db_invD(4,5) [OF assms(1)] ranI [of "conn_db w" a h] assms(2) by auto

text \<open>Changes of the world, as the maps see them.\<close>

lemma conn_db_new:
  assumes "new_obj ob w = (a, w')"
  shows "conn_db w' = (conn_db w)(a := (case ob of Connection_obj db \<Rightarrow> db | _ \<Rightarrow> None))"
    "cursor_stmt w' = (cursor_stmt w)(a := (case ob of Cursor_obj st \<Rightarrow> st | _ \<Rightarrow> None))"
    "conn_db w a = None" "cursor_stmt w a = None" "dw_sql w' = dw_sql w"
  using new_objD [OF assms] by (auto simp: conn_db_def cursor_stmt_def fun_eq_iff split: obj.splits)

lemma owner_free [simp]:
  "conn_db (free_obj a w) = (conn_db w)(a := None)" "cursor_stmt (free_obj a w) = (cursor_stmt w)(a := None)"
  by (auto simp: conn_db_def cursor_stmt_def fun_eq_iff)

lemma owner_sql [simp]:
  "conn_db (w\<lparr>dw_sql := s\<rparr>) = conn_db w" "cursor_stmt (w\<lparr>dw_sql := s\<rparr>) = cursor_stmt w"
  "conn_db (complain k w) = conn_db w" "cursor_stmt (complain k w) = cursor_stmt w"
  by (auto simp: conn_db_def cursor_stmt_def fun_eq_iff)

lemma owner_set_stmt:
  "c \<in> cursors w \<Longrightarrow> conn_db (set_stmt c st w) = conn_db w"
  "cursor_stmt (set_stmt c st w) = (cursor_stmt w)(c := st)"
  by (auto simp: conn_db_def cursor_stmt_def cursors_def fun_eq_iff)

lemma cursors_set_stmt [simp]: "cursors (set_stmt c st w) = insert c (cursors w)" "cursors (w\<lparr>dw_sql := s\<rparr>) = cursors w"
  by (auto simp: cursors_def)

lemma kind:
  "a \<in> connections w \<Longrightarrow> cursor_stmt w a = None" "c \<in> cursors w \<Longrightarrow> conn_db w c = None"
  by (auto simp: connections_def cursors_def conn_db_def cursor_stmt_def)

text \<open>A world with the same resources and owners.\<close>

lemma inv_same:
  assumes "db_inv opens stmts lost w" "conn_db w' = conn_db w" "cursor_stmt w' = cursor_stmt w" "keeps opens stmts (dw_sql w) (dw_sql w')"
  shows "db_inv opens stmts lost w'"
proof -
  have same: "opens (dw_sql w') = opens (dw_sql w)" "stmts (dw_sql w') = stmts (dw_sql w)" using assms(4) by (simp_all add: keeps_def)
  show ?thesis using assms(1) unfolding db_inv_def cursors_exact_def assms(2,3) same .
qed

text \<open>Opening: no handle is left open without its object.\<close>

lemma connection_init_result:
  assumes "sqlite_contract sq opens stmts" "ran (stmts (dw_sql w)) \<subseteq> opens (dw_sql w)" "sql_connection_init sq filename w = (db, w')"
  shows "conn_db w' = conn_db w \<and> cursor_stmt w' = cursor_stmt w \<and> stmts (dw_sql w') = stmts (dw_sql w) \<and>
    (case db of None \<Rightarrow> opens (dw_sql w') = opens (dw_sql w)
     | Some h \<Rightarrow> h \<notin> opens (dw_sql w) \<and> opens (dw_sql w') = insert h (opens (dw_sql w)))"
proof -
  note laws = sqlite_contractD [OF assms(1)]
  obtain r d s where o: "sq_open sq filename (dw_sql w) = (r, d, s)" by (metis prod_cases3)
  then have law: "stmts s = stmts (dw_sql w) \<and> (case d of None \<Rightarrow> r \<noteq> SQLITE_OK \<and> opens s = opens (dw_sql w)
      | Some h \<Rightarrow> h \<notin> opens (dw_sql w) \<and> opens s = insert h (opens (dw_sql w)))"
    by (rule laws(1) [unfolded open_law_def, rule_format])
  show ?thesis
  proof (cases d)
    case None
    then have r: "r \<noteq> SQLITE_OK" "opens s = opens (dw_sql w)" "stmts s = stmts (dw_sql w)" using law by simp_all
    have "db = None" "w' = complain (Open_error (sq_errstr sq r)) (w\<lparr>dw_sql := s\<rparr>)"
      using assms(3) o None r(1) by (simp_all add: sql_connection_init_def Let_def)
    then show ?thesis using r(2,3) by simp
  next
    case (Some h)
    then have h: "stmts s = stmts (dw_sql w)" "h \<notin> opens (dw_sql w)" "opens s = insert h (opens (dw_sql w))" using law by simp_all
    show ?thesis
    proof (cases "r = SQLITE_OK")
      case True
      let ?s = "snd (snd (sq_exec sq h ''PRAGMA journal_mode=WAL;'' (sq_busy_timeout sq h 3000 s)))"
      have "keeps opens stmts s ?s" by (rule keeps_trans [OF run_lawD(1,2) [OF laws(3)]])
      then have "opens ?s = opens s" "stmts ?s = stmts s" by (simp_all add: keeps_def)
      moreover have "db = Some h" "w' = w\<lparr>dw_sql := ?s\<rparr>" using assms(3) o True Some by (simp_all add: sql_connection_init_def Let_def)
      ultimately show ?thesis using h by simp
    next
      case False
      have "h \<notin> ran (stmts s)" using h assms(2) by auto
      then have "opens (snd (sq_close sq h s)) = opens (dw_sql w)" "stmts (snd (sq_close sq h s)) = stmts (dw_sql w)"
        using laws(2) h unfolding close_law_def by auto
      moreover have "db = None" "conn_db w' = conn_db w" "cursor_stmt w' = cursor_stmt w" "dw_sql w' = snd (sq_close sq h s)"
        using assms(3) o False Some by (auto simp: sql_connection_init_def Let_def)
      ultimately show ?thesis by simp
    qed
  qed
qed

lemma inv_open:
  assumes "sqlite_contract sq opens stmts" "db_inv opens stmts lost w" "sql_connection_new sq filename w = (a, w')"
  shows "db_inv opens stmts lost w'"
proof -
  obtain db w1 where i: "sql_connection_init sq filename w = (db, w1)" "new_obj (Connection_obj db) w1 = (a, w')"
    using assms(3) by (auto simp: sql_connection_new_def split: prod.splits)
  note inv = db_invD(3) [OF assms(2)]
  note r = connection_init_result [OF assms(1) inv i(1)] and n = conn_db_new [OF i(2)]
  show ?thesis
  proof (cases db)
    case None
    then have "conn_db w' = conn_db w" "cursor_stmt w' = cursor_stmt w" using r n by (auto simp: fun_eq_iff)
    then show ?thesis using inv_same [OF assms(2)] r n(5) None by (simp add: keeps_def)
  next
    case (Some h)
    have c: "conn_db w' = (conn_db w)(a \<mapsto> h)" "cursor_stmt w' = cursor_stmt w" "conn_db w a = None"
      "stmts (dw_sql w') = stmts (dw_sql w)" "h \<notin> opens (dw_sql w)" "opens (dw_sql w') = insert h (opens (dw_sql w))"
      using r n Some by (auto simp: fun_eq_iff)
    have h: "h \<notin> ran (conn_db w)" "h \<notin> lost" using c(5) db_invD(4) [OF assms(2)] by auto
    have "ran (conn_db w') = insert h (ran (conn_db w))" using c(1,3) by simp
    moreover have "once (conn_db w')" unfolding c(1) by (rule once_new [OF db_invD(2) [OF assms(2)] h(1)])
    ultimately show ?thesis using db_invD [OF assms(2)] h unfolding db_inv_def cursors_exact_def c(2,4,6) by auto
  qed
qed

text \<open>Deleting a connection: its handle is closed, or lost when a statement of it lives.\<close>

lemma inv_close:
  assumes "sqlite_contract sq opens stmts" "db_inv opens stmts lost w" "a \<in> connections w"
  shows "db_inv opens stmts (case conn_db w a of None \<Rightarrow> lost | Some h \<Rightarrow> if h \<in> ran (stmts (dw_sql w)) then insert h lost else lost)
    (sql_connection_delete sq a w)"
proof (cases "conn_db w a")
  case None
  have "conn_db (sql_connection_delete sq a w) = conn_db w" "cursor_stmt (sql_connection_delete sq a w) = cursor_stmt w"
    using None kind(1) [OF assms(3)] by (auto simp: sql_connection_delete_def fun_eq_iff)
  then show ?thesis using inv_same [OF assms(2)] None by (simp add: sql_connection_delete_def keeps_def)
next
  case (Some h)
  let ?w = "sql_connection_delete sq a w"
  have h: "h \<in> opens (dw_sql w)" by (rule db_inv_conn(1) [OF assms(2) Some])
  have c: "conn_db ?w = (conn_db w)(a := None)" "cursor_stmt ?w = cursor_stmt w" "dw_sql ?w = snd (sq_close sq h (dw_sql w))"
    using Some kind(1) [OF assms(3)] by (auto simp: sql_connection_delete_def fun_eq_iff)
  have s: "stmts (dw_sql ?w) = stmts (dw_sql w)"
    "opens (dw_sql ?w) = (if h \<in> ran (stmts (dw_sql w)) then opens (dw_sql w) else opens (dw_sql w) - {h})"
    using sqlite_contractD(2) [OF assms(1)] h c(3) unfolding close_law_def by auto
  have r: "ran (conn_db ?w) = ran (conn_db w) - {h}" "h \<in> ran (conn_db w)"
    unfolding c(1) by (rule ran_del [OF db_invD(2) [OF assms(2)] Some]) (rule ranI [of "conn_db w", OF Some])
  have "once (conn_db ?w)" unfolding c(1) by (rule once_del [OF db_invD(2) [OF assms(2)]])
  moreover have "cursors_exact stmts ?w" using db_invD(1) [OF assms(2)] unfolding cursors_exact_def c(2) s(1) .
  ultimately show ?thesis using db_invD(3-5) [OF assms(2)] r db_inv_conn(2) [OF assms(2) Some] Some
    unfolding db_inv_def s by auto
qed

text \<open>Statements: a step that moves them between cursors, makes one or finalizes one.\<close>

lemma inv_stmts:
  assumes "db_inv opens stmts lost w" "conn_db w' = conn_db w" "opens (dw_sql w') = opens (dw_sql w)"
    and "cursors_exact stmts w'" "ran (stmts (dw_sql w')) \<subseteq> ran (stmts (dw_sql w)) \<union> opens (dw_sql w)"
  shows "db_inv opens stmts lost w'"
  using assms(1,4,5) unfolding db_inv_def assms(2,3) by blast

lemma cursors_exactD:
  assumes "cursors_exact stmts w" "cursor_stmt w c = Some st"
  shows "stmts (dw_sql w) st \<noteq> None"
proof -
  have "st \<in> ran (cursor_stmt w)" using assms(2) by (rule ranI)
  then have "st \<in> dom (stmts (dw_sql w))" using assms(1) unfolding cursors_exact_def by simp
  then show ?thesis by auto
qed

lemma inv_query:
  assumes "sqlite_contract sq opens stmts" "db_inv opens stmts lost w" "query sq a sql w = (r, w')"
  shows "db_inv opens stmts lost w'"
proof (cases "conn_db w a")
  case None
  then show ?thesis using assms(2,3) by (simp add: query_def)
next
  case (Some h)
  obtain rc st s where p: "sq_prepare_v2 sq h sql (dw_sql w) = (rc, st, s)" by (metis prod_cases3)
  have "h \<in> opens (dw_sql w)" by (rule db_inv_conn(1) [OF assms(2) Some])
  from sqlite_contractD(4) [OF assms(1), unfolded prepare_law_def, rule_format, OF this p]
  have law: "opens s = opens (dw_sql w)" "case st of None \<Rightarrow> stmts s = stmts (dw_sql w)
    | Some t \<Rightarrow> rc = SQLITE_OK \<and> stmts (dw_sql w) t = None \<and> stmts s = (stmts (dw_sql w))(t \<mapsto> h)" by simp_all
  let ?w = "w\<lparr>dw_sql := s\<rparr>"
  show ?thesis
  proof (cases "rc = SQLITE_OK")
    case False
    then have "st = None" using law(2) by (simp split: option.splits)
    moreover have "w' = complain (Query_error (sq_errmsg sq h s)) ?w" using assms(3) Some p False by (simp add: query_def Let_def)
    ultimately show ?thesis using law by (intro inv_same [OF assms(2)]) (simp_all add: keeps_def)
  next
    case True
    then obtain c where n: "new_obj (Cursor_obj st) ?w = (c, w')"
      using assms(3) Some p by (auto simp: query_def Let_def split: prod.splits)
    note n = conn_db_new [OF n, simplified]
    have e: "cursors_exact stmts w" by (rule db_invD [OF assms(2)])
    have "conn_db w' = conn_db w" using n(1,3) by auto
    moreover have "opens (dw_sql w') = opens (dw_sql w)" using law(1) n(5) by simp
    moreover have "cursors_exact stmts w' \<and> ran (stmts (dw_sql w')) \<subseteq> ran (stmts (dw_sql w)) \<union> opens (dw_sql w)"
    proof (cases st)
      case None
      then have same: "cursor_stmt w' = cursor_stmt w" "stmts (dw_sql w') = stmts (dw_sql w)" using n(2,4,5) law(2) by auto
      have "cursors_exact stmts w'" using e unfolding cursors_exact_def same .
      then show ?thesis using same by simp
    next
      case (Some t)
      then have new: "cursor_stmt w' = (cursor_stmt w)(c \<mapsto> t)" "stmts (dw_sql w') = (stmts (dw_sql w))(t \<mapsto> h)"
        "stmts (dw_sql w) t = None" using n(2,5) law(2) by auto
      have t: "t \<notin> ran (cursor_stmt w)" using e new(3) unfolding cursors_exact_def by auto
      have "once (cursor_stmt w')" unfolding new(1) by (rule once_new [OF _ t]) (use e in \<open>simp add: cursors_exact_def\<close>)
      moreover have "ran (cursor_stmt w') = insert t (ran (cursor_stmt w))" using n(4) new(1) by simp
      ultimately have "cursors_exact stmts w'" using e unfolding cursors_exact_def new(2) by simp
      moreover have "ran (stmts (dw_sql w')) \<subseteq> ran (stmts (dw_sql w)) \<union> opens (dw_sql w)"
        using new(2) \<open>h \<in> opens (dw_sql w)\<close> by (auto simp: ran_def)
      ultimately show ?thesis by blast
    qed
    ultimately show ?thesis using inv_stmts [OF assms(2)] by blast
  qed
qed

lemma exact_drop:
  assumes "finalize_law sq opens stmts" "cursors_exact stmts w"
    and "cursor_stmt w' = (cursor_stmt w)(c := None)" "dw_sql w' = sq_finalize sq (cursor_stmt w c) (dw_sql w)"
  shows "cursors_exact stmts w'" "opens (dw_sql w') = opens (dw_sql w)" "ran (stmts (dw_sql w')) \<subseteq> ran (stmts (dw_sql w))"
proof -
  have *: "cursors_exact stmts w' \<and> opens (dw_sql w') = opens (dw_sql w) \<and> ran (stmts (dw_sql w')) \<subseteq> ran (stmts (dw_sql w))"
  proof (cases "cursor_stmt w c")
    case None
    then have same: "dw_sql w' = dw_sql w" "cursor_stmt w' = cursor_stmt w" using assms(1,3,4) by (auto simp: finalize_law_def)
    show ?thesis using assms(2) unfolding cursors_exact_def same by simp
  next
    case (Some t)
    have law: "opens (dw_sql w') = opens (dw_sql w)" "stmts (dw_sql w') = (stmts (dw_sql w))(t := None)"
      using assms(1,4) Some cursors_exactD [OF assms(2) Some] unfolding finalize_law_def by simp_all
    have o: "once (cursor_stmt w)" using assms(2) unfolding cursors_exact_def by simp
    have "ran (cursor_stmt w') = ran (cursor_stmt w) - {t}" unfolding assms(3) by (rule ran_del [OF o Some])
    moreover have "once (cursor_stmt w')" unfolding assms(3) by (rule once_del [OF o])
    ultimately have "cursors_exact stmts w'" using assms(2) unfolding cursors_exact_def law(2) by auto
    then show ?thesis using law by (auto simp: ran_def)
  qed
  then show "cursors_exact stmts w'" "opens (dw_sql w') = opens (dw_sql w)" "ran (stmts (dw_sql w')) \<subseteq> ran (stmts (dw_sql w))" by blast+
qed

lemma inv_drop:
  assumes "sqlite_contract sq opens stmts" "db_inv opens stmts lost w" "c \<in> cursors w"
  shows "db_inv opens stmts lost (cursor_delete sq c w)"
proof -
  let ?w = "cursor_delete sq c w"
  have f: "finalize_law sq opens stmts" by (rule sqlite_contractD [OF assms(1)])
  have "sq_finalize sq None s = s" for s using f by (simp add: finalize_law_def)
  then have s: "dw_sql ?w = sq_finalize sq (cursor_stmt w c) (dw_sql w)" by (simp add: cursor_delete_def)
  have m: "cursor_stmt ?w = (cursor_stmt w)(c := None)" "conn_db ?w = conn_db w"
    using kind(2) [OF assms(3)] by (auto simp: cursor_delete_def fun_eq_iff)
  have "cursors_exact stmts w" by (rule db_invD [OF assms(2)])
  note d = exact_drop [OF f this m(1) s]
  show ?thesis by (rule inv_stmts [OF assms(2) m(2) d(2,1)]) (use d(3) in blast)
qed

lemma exact_swap:
  assumes "cursors_exact stmts w" "stmts (dw_sql w') = stmts (dw_sql w)"
    and "cursor_stmt w' = (cursor_stmt w)(c := cursor_stmt w other, other := None)" "cursor_stmt w c = None" "c \<noteq> other"
  shows "cursors_exact stmts w'"
  using assms(1) moved [OF _ assms(4,5,3)] unfolding cursors_exact_def assms(2) by simp

lemma inv_moved:
  assumes "db_inv opens stmts lost w" "cursor_move other w = (c, w')" "other \<in> cursors w"
  shows "db_inv opens stmts lost w'"
proof -
  obtain w1 where n: "new_obj (Cursor_obj (cursor_stmt w other)) w = (c, w1)" "w' = set_stmt other None w1"
    using assms(2) by (auto simp: cursor_move_def split: prod.splits)
  note m = conn_db_new [OF n(1), simplified]
  have o: "other \<in> cursors w1" "c \<noteq> other" using new_objD [OF n(1)] assms(3) by (auto simp: cursors_def)
  have s: "conn_db w' = conn_db w" "dw_sql w' = dw_sql w" "cursor_stmt w' = (cursor_stmt w)(c := cursor_stmt w other, other := None)"
    using m n(2) by (auto simp: owner_set_stmt(1) [OF o(1)] owner_set_stmt(2))
  have "cursors_exact stmts w'" by (rule exact_swap [OF _ _ s(3) m(4) o(2)]) (use assms(1) s(2) in \<open>simp_all add: db_inv_def\<close>)
  then show ?thesis using s by (intro inv_stmts [OF assms(1)]) auto
qed

lemma inv_assign:
  assumes "sqlite_contract sq opens stmts" "db_inv opens stmts lost w" "c \<in> cursors w" "other \<in> cursors w"
  shows "db_inv opens stmts lost (cursor_assign sq c other w)"
proof (cases "c = other")
  case True
  then show ?thesis using assms(2) by (simp add: cursor_assign_def)
next
  case False
  let ?s = "sq_finalize sq (cursor_stmt w c) (dw_sql w)" and ?w = "cursor_assign sq c other w"
  let ?w1 = "set_stmt c None (w\<lparr>dw_sql := ?s\<rparr>)"
  have f: "finalize_law sq opens stmts" by (rule sqlite_contractD [OF assms(1)])
  have e: "cursors_exact stmts w" by (rule db_invD [OF assms(2)])
  have m1: "cursor_stmt ?w1 = (cursor_stmt w)(c := None)" "dw_sql ?w1 = ?s" by (simp_all add: owner_set_stmt)
  note d = exact_drop [OF f e m1]
  have m: "dw_sql ?w = dw_sql ?w1" "cursor_stmt ?w = (cursor_stmt ?w1)(c := cursor_stmt ?w1 other, other := None)" "cursor_stmt ?w1 c = None"
    using False by (auto simp: cursor_assign_def Let_def owner_set_stmt fun_eq_iff)
  have c: "conn_db ?w = conn_db w" using False assms(3,4) by (simp add: cursor_assign_def Let_def owner_set_stmt)
  have "stmts (dw_sql ?w) = stmts (dw_sql ?w1)" by (simp only: m(1))
  from exact_swap [OF d(1) this m(2,3) False] have x: "cursors_exact stmts ?w" .
  show ?thesis by (rule inv_stmts [OF assms(2) c _ x]) (use d(2,3) m(1) in auto)
qed

section \<open>Reachable worlds\<close>

lemma execute_result: "execute sq a sql w = (r, w') \<Longrightarrow> conn_db w' = conn_db w \<and> cursor_stmt w' = cursor_stmt w \<and>
   (dw_sql w' = dw_sql w \<or> (\<exists>h. dw_sql w' = snd (snd (sq_exec sq h sql (dw_sql w)))))"
  by (auto simp: execute_def split: option.splits prod.splits) (metis snd_conv)+

lemma inv_execute:
  assumes "sqlite_contract sq opens stmts" "db_inv opens stmts lost w" "execute sq a sql w = (r, w')"
  shows "db_inv opens stmts lost w'"
proof -
  note e = execute_result [OF assms(3)]
  have "keeps opens stmts (dw_sql w) (dw_sql w')"
    using e run_lawD(2) [OF sqlite_contractD(3) [OF assms(1)]] by (auto simp: keeps_def)
  then show ?thesis using inv_same [OF assms(2)] e by blast
qed

lemma inv_next:
  assumes "sqlite_contract sq opens stmts" "db_inv opens stmts lost w" "cursor_next sq c w = (r, w')"
  shows "db_inv opens stmts lost w'"
proof -
  have "dw_sql w' = snd (sq_step sq (cursor_stmt w c) (dw_sql w))" "conn_db w' = conn_db w" "cursor_stmt w' = cursor_stmt w"
    using assms(3) by (auto simp: cursor_next_def Let_def split: prod.splits if_splits)
  then show ?thesis using inv_same [OF assms(2)] run_lawD(3) [OF sqlite_contractD(3) [OF assms(1)]] by metis
qed

lemma no_cursor_closes:
  assumes "db_inv opens stmts lost w" "no_cursor stmts w a" "conn_db w a = Some h"
  shows "h \<notin> ran (stmts (dw_sql w))"
proof
  assume "h \<in> ran (stmts (dw_sql w))"
  then obtain st where st: "stmts (dw_sql w) st = Some h" by (auto simp: ran_def)
  then have "st \<in> dom (stmts (dw_sql w))" by blast
  then have "st \<in> ran (cursor_stmt w)" using db_invD(1) [OF assms(1)] unfolding cursors_exact_def by simp
  then obtain c where "cursor_stmt w c = Some st" by (auto simp: ran_def)
  then show False using assms(2,3) st by (simp add: no_cursor_def)
qed

lemma db_inv_step:
  assumes "sqlite_contract sq opens stmts" "db_step sq ok w w'" "db_inv opens stmts lost w"
  shows "\<exists>lost'. lost \<subseteq> lost' \<and> db_inv opens stmts lost' w' \<and> ((\<forall>w a. ok w a \<longrightarrow> no_cursor stmts w a) \<longrightarrow> lost' = lost)"
  using assms(2)
proof cases
  case (closes a)
  note c = inv_close [OF assms(1,3) closes(2)]
  show ?thesis
  proof (cases "conn_db w a")
    case None
    then show ?thesis using c closes(1) by (intro exI [of _ lost]) simp
  next
    case (Some h)
    have "h \<notin> ran (stmts (dw_sql w))" if "\<forall>w a. ok w a \<longrightarrow> no_cursor stmts w a"
      using no_cursor_closes [OF assms(3) _ Some] closes(3) that by blast
    then show ?thesis using c Some closes(1)
      by (intro exI [of _ "if h \<in> ran (stmts (dw_sql w)) then insert h lost else lost"]) auto
  qed
next
  case (opens filename a)
  have "db_inv opens stmts lost w'" by (rule inv_open [OF assms(1,3) opens])
  then show ?thesis by blast
next
  case (queries a sql r)
  have "db_inv opens stmts lost w'" by (rule inv_query [OF assms(1,3) queries(2)])
  then show ?thesis by blast
next
  case (executes a sql r)
  have "db_inv opens stmts lost w'" by (rule inv_execute [OF assms(1,3) executes(2)])
  then show ?thesis by blast
next
  case (pings a r)
  have "db_inv opens stmts lost w'"
    using inv_execute [OF assms(1,3), of a _ r w'] pings(2) assms(3) by (auto simp: ping_def split: if_splits)
  then show ?thesis by blast
next
  case (nexts c r)
  have "db_inv opens stmts lost w'" by (rule inv_next [OF assms(1,3) nexts(2)])
  then show ?thesis by blast
next
  case (moves c r)
  have "db_inv opens stmts lost w'" by (rule inv_moved [OF assms(3) moves(2,1)])
  then show ?thesis by blast
next
  case (assigns c other)
  have "db_inv opens stmts lost w'" unfolding assigns(1) by (rule inv_assign [OF assms(1,3) assigns(2,3)])
  then show ?thesis by blast
next
  case (drops c)
  have "db_inv opens stmts lost w'" unfolding drops(1) by (rule inv_drop [OF assms(1,3) drops(2)])
  then show ?thesis by blast
qed

lemma inv_reach:
  assumes "db_reach sq ok w w'" "sqlite_contract sq opens stmts" "db_inv opens stmts lost w"
  shows "\<exists>lost'. lost \<subseteq> lost' \<and> db_inv opens stmts lost' w' \<and> ((\<forall>w a. ok w a \<longrightarrow> no_cursor stmts w a) \<longrightarrow> lost' = lost)"
  using assms(1)
proof induction
  case here
  then show ?case using assms(3) by blast
next
  case (further w' w'')
  then obtain l where l: "lost \<subseteq> l" "db_inv opens stmts l w'" "(\<forall>w a. ok w a \<longrightarrow> no_cursor stmts w a) \<longrightarrow> l = lost" by blast
  from db_inv_step [OF assms(2) further.hyps(2) l(2)] show ?case using l by (metis order.trans)
qed

definition empty_world :: "'s \<Rightarrow> 's db_world" where
  "empty_world s = \<lparr>dw_heap = [], dw_cerr = [], dw_sql = s\<rparr>"

lemma inv_empty: "opens s = {} \<Longrightarrow> stmts s = Map.empty \<Longrightarrow> db_inv opens stmts {} (empty_world s)"
proof -
  assume s: "opens s = {}" "stmts s = Map.empty"
  have "conn_db (empty_world s) = Map.empty" "cursor_stmt (empty_world s) = Map.empty" "dw_sql (empty_world s) = s"
    by (auto simp: conn_db_def cursor_stmt_def empty_world_def fun_eq_iff)
  then show ?thesis using s by (simp add: db_inv_def cursors_exact_def once_def)
qed

text \<open>A small SQLite, for the witnesses: open handles, and the statements with theirs. The file
  \<open>bad\<close> does not open; as in SQLite, its handle must be closed.\<close>

type_synonym demo_sql = "handle list \<times> (stmt \<times> handle) list"

definition demo_stmts :: "demo_sql \<Rightarrow> stmt \<rightharpoonup> handle" where
  "demo_stmts s = map_of (snd s)"

definition demo_sqlite :: "demo_sql sqlite" where
  "demo_sqlite = \<lparr>
     sq_open = (\<lambda>fn (hs, ss). let h = Suc (fold max hs 0) in (if fn = ''bad'' then 14 else SQLITE_OK, Some h, (h # hs, ss))),
     sq_close = (\<lambda>h (hs, ss). if list_ex (\<lambda>t. map_of ss t = Some h) (map fst ss) then (SQLITE_BUSY, (hs, ss))
        else (SQLITE_OK, (removeAll h hs, ss))),
     sq_busy_timeout = (\<lambda>h t s. s),
     sq_exec = (\<lambda>h sql s. (SQLITE_OK, None, s)),
     sq_prepare_v2 = (\<lambda>h sql (hs, ss). if sql = '''' then (SQLITE_OK, None, (hs, ss))
        else let t = fresh ss in (SQLITE_OK, Some t, (hs, (t, h) # ss))),
     sq_finalize = (\<lambda>st (hs, ss). case st of None \<Rightarrow> (hs, ss) | Some t \<Rightarrow> (hs, AList.delete t ss)),
     sq_step = (\<lambda>st s. (SQLITE_DONE, s)),
     sq_column_int = (\<lambda>st col s. 0), sq_column_text = (\<lambda>st col s. None), sq_column_count = (\<lambda>st s. 0),
     sq_errstr = (\<lambda>r. ''unable to open database file''), sq_errmsg = (\<lambda>h s. '''')\<rparr>"

lemma demo_contract: "sqlite_contract demo_sqlite (\<lambda>s. set (fst s)) demo_stmts"
proof -
  have "Suc (fold max hs 0) \<notin> set hs" for hs using fold_max_ge [of "Suc (fold max hs 0)" hs 0] by auto
  then have 1: "open_law demo_sqlite (\<lambda>s. set (fst s)) demo_stmts"
    by (auto simp: open_law_def demo_sqlite_def demo_stmts_def Let_def)
  have "list_ex (\<lambda>t. map_of ss t = Some h) (map fst ss) \<longleftrightarrow> h \<in> ran (map_of ss)" for ss :: "(stmt \<times> handle) list" and h
  proof -
    have "map_of ss t = Some h \<Longrightarrow> t \<in> fst ` set ss" for t using map_of_SomeD [of ss t h] by force
    then show ?thesis unfolding list_ex_iff set_map ran_def by blast
  qed
  then have 2: "close_law demo_sqlite (\<lambda>s. set (fst s)) demo_stmts"
    by (auto simp: close_law_def demo_sqlite_def demo_stmts_def)
  have 3: "run_law demo_sqlite (\<lambda>s. set (fst s)) demo_stmts"
    by (simp add: run_law_def demo_sqlite_def keeps_def)
  have 4: "prepare_law demo_sqlite (\<lambda>s. set (fst s)) demo_stmts"
    by (auto simp: prepare_law_def demo_sqlite_def demo_stmts_def Let_def)
  have 5: "finalize_law demo_sqlite (\<lambda>s. set (fst s)) demo_stmts"
    by (auto simp: finalize_law_def demo_sqlite_def demo_stmts_def delete_conv')
  show ?thesis using 1 2 3 4 5 by (simp add: sqlite_contract_def)
qed

section \<open>Properties\<close>

text \<open>Property C36. The wrappers leak nothing that SQLite opened, provided a connection is not deleted
  while a cursor of it lives: after any sequence of operations on connections and cursors
  (failing opens and queries, moves, self-assignments, destructions, in any order) the open handles are
  exactly those of the live connections, each with one, and the unfinalized statements exactly those
  of the live cursors, each with one.\<close>

theorem db_resources_exact:
  assumes "sqlite_contract sq opens stmts" "opens s0 = {}" "stmts s0 = Map.empty"
    and "db_reach sq (no_cursor stmts) (empty_world s0) w"
  shows "opens (dw_sql w) = ran (conn_db w) \<and> once (conn_db w) \<and> dom (stmts (dw_sql w)) = ran (cursor_stmt w) \<and> once (cursor_stmt w)"
proof -
  have "db_inv opens stmts {} w" using inv_reach [OF assms(4,1) inv_empty [of opens s0 stmts, OF assms(2,3)]] by blast
  from db_invD [OF this] show ?thesis unfolding cursors_exact_def by simp
qed

text \<open>A connection that is deleted while one of its cursors lives is lost for good:
  the destructor does not look at the result of \<open>sqlite3_close\<close>, which refuses; the handle stays open
  whatever the program does later (the deletion of the cursor included) and no connection has it.\<close>

theorem close_with_cursor_leaks:
  assumes "sqlite_contract sq opens stmts" "opens s0 = {}" "stmts s0 = Map.empty"
    and "db_reach sq (\<lambda>_ _. True) (empty_world s0) w"
    and "conn_db w a = Some h" "cursor_stmt w c = Some st" "stmts (dw_sql w) st = Some h"
    and "db_reach sq (\<lambda>_ _. True) (sql_connection_delete sq a w) w'"
  shows "h \<in> opens (dw_sql w') \<and> h \<notin> ran (conn_db w')"
proof -
  obtain l where l: "db_inv opens stmts l w" using inv_reach [OF assms(4,1) inv_empty [of opens s0 stmts, OF assms(2,3)]] by blast
  have "a \<in> connections w" using assms(5) by (auto simp: conn_db_def connections_def split: option.splits obj.splits)
  moreover have "h \<in> ran (stmts (dw_sql w))" using assms(7) by (rule ranI)
  ultimately have "db_inv opens stmts (insert h l) (sql_connection_delete sq a w)"
    using inv_close [OF assms(1) l] assms(5) by fastforce
  from inv_reach [OF assms(8,1) this] obtain l' where l': "insert h l \<subseteq> l'" "db_inv opens stmts l' w'" by blast
  then show ?thesis using db_invD(4,5) [OF l'(2)] by auto
qed

definition demo_open :: "demo_sql db_world" where
  "demo_open = snd (sql_connection_new demo_sqlite ''a.db'' (snd (sql_connection_new demo_sqlite ''bad'' (empty_world ([], [])))))"

definition demo_queried :: "demo_sql db_world" where
  "demo_queried = snd (query demo_sqlite 2 ''SELECT 1;'' demo_open)"

lemmas demo_defs = demo_sqlite_def sql_connection_new_def sql_connection_init_def new_obj_def fresh_def complain_def empty_world_def
  query_def sql_connection_delete_def cursor_delete_def free_obj_def

lemma demo_open_eq: "demo_open = \<lparr>dw_heap = [(2, Connection_obj (Some 1)), (1, Connection_obj None)],
    dw_cerr = [Open_error ''unable to open database file''], dw_sql = ([1], [])\<rparr>"
  by (simp add: demo_open_def demo_defs Let_def)

lemma demo_queried_eq: "demo_queried = \<lparr>dw_heap = [(3, Cursor_obj (Some 1)), (2, Connection_obj (Some 1)), (1, Connection_obj None)],
    dw_cerr = [Open_error ''unable to open database file''], dw_sql = ([1], [(1, 1)])\<rparr>"
  by (simp add: demo_queried_def demo_open_eq demo_defs conn_db_def Let_def)

lemma demo_db_reach: "db_reach demo_sqlite ok (empty_world ([], [])) demo_queried"
proof -
  have "db_step demo_sqlite ok (empty_world ([], [])) (snd (sql_connection_new demo_sqlite ''bad'' (empty_world ([], []))))"
    by (rule db_step.opens) (rule prod.collapse [symmetric])
  moreover have "db_step demo_sqlite ok (snd (sql_connection_new demo_sqlite ''bad'' (empty_world ([], [])))) demo_open"
    unfolding demo_open_def by (rule db_step.opens) (rule prod.collapse [symmetric])
  moreover have "2 \<in> connections demo_open" by (simp add: connections_def demo_open_eq)
  then have "db_step demo_sqlite ok demo_open demo_queried"
    unfolding demo_queried_def by (rule db_step.queries) (rule prod.collapse [symmetric])
  ultimately show ?thesis by (blast intro: db_reach.intros)
qed

lemma db_resources_exact_witness:
  "set (fst (dw_sql demo_queried)) = ran (conn_db demo_queried) \<and> dom (demo_stmts (dw_sql demo_queried)) = ran (cursor_stmt demo_queried)"
  using db_resources_exact [OF demo_contract _ _ demo_db_reach] by (simp add: demo_stmts_def)

lemma close_with_cursor_leaks_witness:
  "1 \<in> set (fst (dw_sql (cursor_delete demo_sqlite 3 (sql_connection_delete demo_sqlite 2 demo_queried)))) \<and>
   1 \<notin> ran (conn_db (cursor_delete demo_sqlite 3 (sql_connection_delete demo_sqlite 2 demo_queried)))"
proof (rule close_with_cursor_leaks [OF demo_contract _ _ demo_db_reach])
  show "conn_db demo_queried 2 = Some 1" "cursor_stmt demo_queried 3 = Some 1" "demo_stmts (dw_sql demo_queried) 1 = Some 1"
    by (simp_all add: demo_queried_eq conn_db_def cursor_stmt_def demo_stmts_def)
  have "3 \<in> cursors (sql_connection_delete demo_sqlite 2 demo_queried)"
    by (simp add: cursors_def demo_queried_eq demo_defs conn_db_def)
  then show "db_reach demo_sqlite (\<lambda>_ _. True) (sql_connection_delete demo_sqlite 2 demo_queried)
      (cursor_delete demo_sqlite 3 (sql_connection_delete demo_sqlite 2 demo_queried))"
    by (blast intro: db_reach.intros db_step.drops)
qed (simp_all add: demo_stmts_def)

end
