(* ===== verification/ConnectionPool_safety.thy ===== *)
theory ConnectionPool_safety
  imports ConnectionPool ConnectionGuard DbConnection_safety "HOL-Library.Multiset"
begin

text \<open>
  The pool of connections in every interleaving: programs that call \<open>acquire\<close>, the tasks of the internal
  pool, the guards, the scanner and the destructor. The accounting is proved once, for any factory
  that keeps \<open>factory_contract\<close> and any use of the connections; the properties are about the
  connections to SQLite.
\<close>

section \<open>Interleavings\<close>

text \<open>An \<open>acquire\<close> task between its critical sections: not begun, about to decide on expanding,
  about to reserve, with a reservation, with the connections made for it, waiting for a connection
  since a time, before the \<open>ping\<close>, after a failed one, with the bad connection forgotten by the pool
  but not deleted yet, and ended with the content of its guard.\<close>

datatype acq = A_start | A_grow | A_expand | A_reserved u64 | A_made u64 "addr list" | A_wait time
  | A_ping addr | A_bad addr | A_doomed addr | A_end "addr option"

record 'w cp_sys =
  sy_pool :: cpool
  sy_acq :: "acq list"
  sy_gone :: bool
  sy_world :: 'w

definition at :: "'w cp_sys \<Rightarrow> nat \<Rightarrow> acq \<Rightarrow> bool" where
  "at s i a \<longleftrightarrow> i < length (sy_acq s) \<and> sy_acq s ! i = a \<and> \<not> sy_gone s"

definition goto :: "'w cp_sys \<Rightarrow> nat \<Rightarrow> acq \<Rightarrow> cpool \<Rightarrow> 'w \<Rightarrow> 'w cp_sys" where
  "goto s i a p w = s\<lparr>sy_pool := p, sy_acq := (sy_acq s)[i := a], sy_world := w\<rparr>"

definition ended :: "acq \<Rightarrow> bool" where
  "ended a \<longleftrightarrow> (case a of A_start \<Rightarrow> True | A_end r \<Rightarrow> True | _ \<Rightarrow> False)"

text \<open>The steps: a call of \<open>acquire\<close>; the sections of its task in turn; the return of a connection
  by its guard; the work of a program with a connection it holds; a pass of the scanner; the destructor, which stops the pool, and once every task
  that began has ended drains it, whether or not connections are still in use (it waits for them,
  but 30 seconds at most).\<close>

inductive cp_step :: "'w factory \<Rightarrow> (addr \<Rightarrow> 'w \<Rightarrow> 'w \<Rightarrow> bool) \<Rightarrow> 'w cp_sys \<Rightarrow> 'w cp_sys \<Rightarrow> bool" for fa use where
  call: "\<not> sy_gone s \<Longrightarrow> cp_step fa use s (s\<lparr>sy_acq := sy_acq s @ [A_start]\<rparr>)"
| refuse: "at s i A_start \<Longrightarrow> cp_stopping (sy_pool s) \<Longrightarrow> cp_step fa use s (goto s i (A_end None) (sy_pool s) (sy_world s))"
| begins: "at s i A_start \<Longrightarrow> \<not> cp_stopping (sy_pool s) \<Longrightarrow> cp_step fa use s (goto s i A_grow (sy_pool s) (sy_world s))"
| decide: "at s i A_grow \<Longrightarrow>
    cp_step fa use s (goto s i (if wants_expand (sy_pool s) then A_expand else A_wait now) (sy_pool s) (sy_world s))"
| reserve: "at s i A_expand \<Longrightarrow> expand_reserve (sy_pool s) = (need, p) \<Longrightarrow>
    cp_step fa use s (goto s i (if need = 0 then A_wait now else A_reserved need) p (sy_world s))"
| make: "at s i (A_reserved need) \<Longrightarrow> expand_loop fa (cp_filename (sy_pool s)) 0 need [] (sy_world s) = (tem, w) \<Longrightarrow>
    cp_step fa use s (goto s i (A_made need tem) (sy_pool s) w)"
| commit: "at s i (A_made need tem) \<Longrightarrow>
    cp_step fa use s (goto s i (A_wait now) (expand_commit (sy_pool s) need tem) (sy_world s))"
| give_up: "at s i (A_wait start) \<Longrightarrow> \<not> can_take (sy_pool s) \<Longrightarrow> now - start \<ge> seconds 5 \<Longrightarrow>
    cp_step fa use s (goto s i (A_end None) (sy_pool s) (sy_world s))"
| take: "at s i (A_wait start) \<Longrightarrow> can_take (sy_pool s) \<Longrightarrow> acquire_take (sy_pool s) now = (r, p) \<Longrightarrow>
    cp_step fa use s (goto s i (case r of None \<Rightarrow> A_end None | Some conn \<Rightarrow> A_ping conn) p (sy_world s))"
| ping: "at s i (A_ping conn) \<Longrightarrow> fa_ping fa conn (sy_world s) = (ok, w) \<Longrightarrow>
    cp_step fa use s (goto s i (if ok then A_end (Some conn) else A_bad conn) (sy_pool s) w)"
| drop_bad: "at s i (A_bad conn) \<Longrightarrow>
    cp_step fa use s (goto s i (A_doomed conn) (ping_failed (sy_pool s) conn) (sy_world s))"
| delete_bad: "at s i (A_doomed conn) \<Longrightarrow>
    cp_step fa use s (goto s i (A_end None) (sy_pool s) (fa_delete fa conn (sy_world s)))"
| give_back: "at s i (A_end (Some conn)) \<Longrightarrow> release fa (sy_pool s) conn now (sy_world s) = (p, n, w) \<Longrightarrow>
    cp_step fa use s (goto s i (A_end None) p w)"
| works: "at s i (A_end (Some conn)) \<Longrightarrow> use conn (sy_world s) w \<Longrightarrow> cp_step fa use s (s\<lparr>sy_world := w\<rparr>)"
| scan: "\<not> sy_gone s \<Longrightarrow> \<not> cp_stopping (sy_pool s) \<Longrightarrow> distinct rs \<Longrightarrow> set rs = dom (cp_return_time (sy_pool s)) \<Longrightarrow>
    scan_pass fa clock bs rs (sy_pool s) (sy_world s) = (ws, p, w) \<Longrightarrow>
    cp_step fa use s (s\<lparr>sy_pool := p, sy_world := w\<rparr>)"
| stop: "\<not> sy_gone s \<Longrightarrow> cp_step fa use s (s\<lparr>sy_pool := cpool_stop (sy_pool s)\<rparr>)"
| drain: "\<not> sy_gone s \<Longrightarrow> cp_stopping (sy_pool s) \<Longrightarrow> list_all ended (sy_acq s) \<Longrightarrow>
    cpool_drain fa (sy_pool s) (sy_world s) = (p, w) \<Longrightarrow> cp_step fa use s (s\<lparr>sy_pool := p, sy_gone := True, sy_world := w\<rparr>)"

inductive cp_reach :: "'w factory \<Rightarrow> (addr \<Rightarrow> 'w \<Rightarrow> 'w \<Rightarrow> bool) \<Rightarrow> u64 \<Rightarrow> u64 \<Rightarrow> 'w \<Rightarrow> 'w cp_sys \<Rightarrow> bool" for fa use min_conn max_conn w0 where
  built: "cpool_new fa filename min_conn max_conn w0 = (p, w) \<Longrightarrow>
    cp_reach fa use min_conn max_conn w0 \<lparr>sy_pool = p, sy_acq = [], sy_gone = False, sy_world = w\<rparr>"
| steps: "cp_reach fa use min_conn max_conn w0 s \<Longrightarrow> cp_step fa use s s' \<Longrightarrow> cp_reach fa use min_conn max_conn w0 s'"

section \<open>Accounting\<close>

text \<open>The connections a task holds for its guard, those only it knows (made and not handed over yet, or
  forgotten by the pool and not deleted yet), and the slots it reserved.\<close>

fun held :: "acq \<Rightarrow> addr multiset" where
  "held (A_ping c) = {#c#}" | "held (A_bad c) = {#c#}" | "held (A_end (Some c)) = {#c#}" | "held _ = {#}"

fun owned :: "acq \<Rightarrow> addr multiset" where
  "owned (A_made need tem) = mset tem" | "owned (A_doomed c) = {#c#}" | "owned _ = {#}"

fun reserved :: "acq \<Rightarrow> nat" where
  "reserved (A_reserved need) = unat need" | "reserved (A_made need tem) = unat need" | "reserved _ = 0"

definition sums :: "(acq \<Rightarrow> 'b::comm_monoid_add) \<Rightarrow> 'w cp_sys \<Rightarrow> 'b" where
  "sums f s = sum_list (map f (sy_acq s))"

lemma sums_goto: "at s i a \<Longrightarrow> sums f (goto s i b p w) + f a = sums f s + f b"
  using sum_list_update_eq [of i "sy_acq s" f b] by (auto simp: sums_def goto_def at_def)

lemma goto_sel [simp]: "sy_pool (goto s i a p w) = p" "sy_world (goto s i a p w) = w" "sy_gone (goto s i a p w) = sy_gone s"
  by (simp_all add: goto_def)

definition all_conns :: "'w cp_sys \<Rightarrow> addr multiset" where
  "all_conns s = mset (cp_idle (sy_pool s)) + mset (cp_in_use (sy_pool s)) + sums owned s"

definition slots :: "'w cp_sys \<Rightarrow> nat" where
  "slots s = length (cp_idle (sy_pool s)) + length (cp_in_use (sy_pool s)) + sums reserved s"

definition made_ok :: "acq \<Rightarrow> bool" where
  "made_ok a \<longleftrightarrow> (case a of A_made need tem \<Rightarrow> length tem \<le> unat need | _ \<Rightarrow> True)"

text \<open>The invariant: every connection has one place; the live ones are these and no others; the
  ones in use are those of the tasks and guards; the two maps have entries only for connections
  in use and idle ones; the slots taken are the total, or after the stop at most the total, which
  is at most the maximum.\<close>

definition cp_inv :: "('w \<Rightarrow> addr set) \<Rightarrow> addr set \<Rightarrow> 'w cp_sys \<Rightarrow> bool" where
  "cp_inv alive others s \<longleftrightarrow> (let p = sy_pool s in
     (\<forall>c. count (all_conns s) c \<le> 1) \<and>
     alive (sy_world s) = others \<union> set_mset (all_conns s) \<and> others \<inter> set_mset (all_conns s) = {} \<and>
     mset (cp_in_use p) = sums held s \<and> dom (cp_borrow_time p) = set (cp_in_use p) \<and>
     dom (cp_return_time p) \<subseteq> set (cp_idle p) \<and> list_all made_ok (sy_acq s) \<and>
     (if cp_stopping p then slots s \<le> unat (cp_total_conn p) else slots s = unat (cp_total_conn p)) \<and>
     unat (cp_total_conn p) \<le> unat (cp_max_conn p))"

lemma cp_invD:
  assumes "cp_inv alive others s"
  shows "count (all_conns s) c \<le> 1" "alive (sy_world s) = others \<union> set_mset (all_conns s)" "others \<inter> set_mset (all_conns s) = {}"
    "mset (cp_in_use (sy_pool s)) = sums held s" "dom (cp_borrow_time (sy_pool s)) = set (cp_in_use (sy_pool s))"
    "dom (cp_return_time (sy_pool s)) \<subseteq> set (cp_idle (sy_pool s))" "list_all made_ok (sy_acq s)"
    "unat (cp_total_conn (sy_pool s)) \<le> unat (cp_max_conn (sy_pool s))"
  using assms unfolding cp_inv_def Let_def by blast+

lemma cp_inv_slots:
  assumes "cp_inv alive others s"
  shows "slots s \<le> unat (cp_total_conn (sy_pool s))" "\<not> cp_stopping (sy_pool s) \<Longrightarrow> slots s = unat (cp_total_conn (sy_pool s))"
proof -
  have "if cp_stopping (sy_pool s) then slots s \<le> unat (cp_total_conn (sy_pool s)) else slots s = unat (cp_total_conn (sy_pool s))"
    using assms unfolding cp_inv_def Let_def by blast
  then show "slots s \<le> unat (cp_total_conn (sy_pool s))" "\<not> cp_stopping (sy_pool s) \<Longrightarrow> slots s = unat (cp_total_conn (sy_pool s))"
    by (auto split: if_splits)
qed

text \<open>A program may do anything with its connection but delete it.\<close>

locale pool_client = factory_contract fa alive for fa :: "'w factory" and alive +
  fixes use :: "addr \<Rightarrow> 'w \<Rightarrow> 'w \<Rightarrow> bool"
  assumes use_law: "use conn w w' \<Longrightarrow> alive w' = alive w"

interpretation dbp: pool_client "db_factory sq" connections "db_use sq" for sq
  by unfold_locales (rule db_use_connections)

text \<open>Steps that move a task without touching what it owns.\<close>

lemma made_ok_update: "list_all made_ok xs \<Longrightarrow> made_ok a \<Longrightarrow> list_all made_ok (xs[i := a])"
  using set_update_subset_insert [of xs i a] by (auto simp: list_all_iff)

lemma inv_move:
  assumes "cp_inv alive others s" "at s i a" "held a = held b" "owned a = owned b" "reserved a = reserved b" "made_ok b"
    and "alive w = alive (sy_world s)"
  shows "cp_inv alive others (goto s i b (sy_pool s) w)"
proof -
  let ?s = "goto s i b (sy_pool s) w"
  have "sums held ?s = sums held s" "sums owned ?s = sums owned s" "sums reserved ?s = sums reserved s"
    using sums_goto [OF assms(2), of held b "sy_pool s" w] sums_goto [OF assms(2), of owned b "sy_pool s" w]
      sums_goto [OF assms(2), of reserved b "sy_pool s" w] assms(3-5) by simp_all
  then have "all_conns ?s = all_conns s" "slots ?s = slots s" "sums held ?s = sums held s"
    by (simp_all add: all_conns_def slots_def)
  moreover have "list_all made_ok (sy_acq ?s)"
    using made_ok_update [OF cp_invD(7) [OF assms(1)] assms(6)] by (simp add: goto_def)
  ultimately show ?thesis
    using assms(1,7) unfolding cp_inv_def Let_def by simp
qed

lemma sum_list_mem: "a \<in> set xs \<Longrightarrow> f a \<le> sum_list (map f xs)" for f :: "'a \<Rightarrow> nat"
  by (auto intro: member_le_sum_list)

lemma at_mem: "at s i a \<Longrightarrow> a \<in> set (sy_acq s)"
  by (auto simp: at_def)

lemma sum_list_mset: "a \<in> set xs \<Longrightarrow> f a \<subseteq># sum_list (map f xs)"
  by (induction xs) (auto intro: subset_mset.add_increasing2 subset_mset.add_increasing)

lemma held_in_use:
  assumes "cp_inv alive others s" "at s i a" "held a = {#c#}"
  shows "c \<in> set (cp_in_use (sy_pool s))"
proof -
  have "held a \<subseteq># sums held s" using assms(2) sum_list_mset [of a "sy_acq s" held] by (auto simp: at_def sums_def)
  then have "c \<in># mset (cp_in_use (sy_pool s))" using assms(3) cp_invD(4) [OF assms(1)] by (simp add: single_subset_iff)
  then show ?thesis by simp
qed

section \<open>Expansion\<close>

lemma expand_loop_result:
  assumes "factory_contract fa alive" "expand_loop fa filename i retries tem w = (tem', w')"
  shows "\<exists>new. tem' = tem @ new \<and> distinct new \<and> set new \<inter> alive w = {} \<and> alive w' = alive w \<union> set new \<and>
    length new \<le> unat retries - unat i"
  using assms
proof (induction fa filename i retries tem w rule: expand_loop.induct)
  case (1 fa filename i retries tem w)
  note simps = expand_loop.simps [of fa filename i retries tem w]
  show ?case
  proof (cases "i < retries")
    case False
    then show ?thesis using "1.prems"(2) simps by (auto intro: exI [of _ "[]"])
  next
    case True
    obtain conn w1 where n: "fa_new fa filename w = (conn, w1)" by fastforce
    then have l: "conn \<notin> alive w" "alive w1 = insert conn (alive w)"
      using factory_contract.new_law [OF "1.prems"(1)] by blast+
    have i: "unat (i + 1) = unat i + 1" "unat i < unat retries" using True by (auto simp: word_less_nat_alt unat_next)
    show ?thesis
    proof (cases "fa_isValid fa conn w1")
      case True
      then have "expand_loop fa filename (i + 1) retries (tem @ [conn]) w1 = (tem', w')"
        using "1.prems"(2) simps \<open>i < retries\<close> n by simp
      from "1.IH"(1) [OF \<open>i < retries\<close> n [symmetric] True "1.prems"(1) this] obtain new where
        "tem' = (tem @ [conn]) @ new" "distinct new" "set new \<inter> alive w1 = {}" "alive w' = alive w1 \<union> set new"
        "length new \<le> unat retries - unat (i + 1)" by blast
      then show ?thesis using l i by (intro exI [of _ "conn # new"]) auto
    next
      case False
      let ?w2 = "fa_delete fa conn w1"
      have d: "alive ?w2 = alive w"
        using factory_contract.delete_law [OF "1.prems"(1), of conn w1] l by auto
      show ?thesis
      proof (cases "retries + 1 > 5")
        case True
        then show ?thesis using "1.prems"(2) simps \<open>i < retries\<close> n False d by (auto intro: exI [of _ "[]"])
      next
        case less: False
        then have "expand_loop fa filename (i + 1) (retries + 1) tem ?w2 = (tem', w')"
          using "1.prems"(2) simps \<open>i < retries\<close> n False by (simp add: Let_def)
        from "1.IH"(2) [OF \<open>i < retries\<close> n [symmetric] False refl refl less "1.prems"(1) this] obtain new where
          "tem' = tem @ new" "distinct new" "set new \<inter> alive ?w2 = {}" "alive w' = alive ?w2 \<union> set new"
          "length new \<le> unat (retries + 1) - unat (i + 1)" by blast
        moreover have "unat (retries + 1) - unat (i + 1) \<le> unat retries - unat i"
          using retries_next [of retries] less i(1) by (auto simp: word_less_nat_alt)
        ultimately show ?thesis using d by (intro exI [of _ new]) auto
      qed
    qed
  qed
qed

section \<open>Preservation\<close>

lemma inv_goto:
  assumes inv: "cp_inv alive others s" and at: "at s i a" and ok: "made_ok b"
    and conns: "all_conns (goto s i b p w) = R" "\<And>c. count R c \<le> 1"
    and live: "alive w = others \<union> set_mset R" "others \<inter> set_mset R = {}"
    and use: "mset (cp_in_use p) + held a = sums held s + held b" "dom (cp_borrow_time p) = set (cp_in_use p)"
    and ret: "dom (cp_return_time p) \<subseteq> set (cp_idle p)"
    and slot: "slots (goto s i b p w) + d = slots s + n" "unat (cp_total_conn p) + d = unat (cp_total_conn (sy_pool s)) + n"
    and same: "cp_stopping p = cp_stopping (sy_pool s)" "unat (cp_total_conn p) \<le> unat (cp_max_conn p)"
  shows "cp_inv alive others (goto s i b p w)"
proof -
  let ?s = "goto s i b p w"
  have "mset (cp_in_use p) = sums held ?s" using sums_goto [OF at, of held b p w] use(1) by (metis add_right_cancel)
  moreover have "list_all made_ok (sy_acq ?s)" using made_ok_update [OF cp_invD(7) [OF inv] ok] by (simp add: goto_def)
  moreover have "slots ?s \<le> unat (cp_total_conn p)" "\<not> cp_stopping p \<longrightarrow> slots ?s = unat (cp_total_conn p)"
    using slot cp_inv_slots [OF inv] same(1) by linarith+
  ultimately show ?thesis
    unfolding cp_inv_def Let_def goto_sel conns(1) using conns(2) live use(2) ret same(2) by auto
qed

lemma slots_goto:
  "at s i a \<Longrightarrow> slots (goto s i b p w) + reserved a = length (cp_idle p) + length (cp_in_use p) + sums reserved s + reserved b"
  using sums_goto [of s i a reserved b p w] by (simp add: slots_def)

lemma conns_goto:
  "at s i a \<Longrightarrow> all_conns (goto s i b p w) + owned a = mset (cp_idle p) + mset (cp_in_use p) + sums owned s + owned b"
  using sums_goto [of s i a owned b p w] by (simp add: all_conns_def)

lemma inv_reserve:
  assumes "cp_inv alive others s" "at s i A_expand" "expand_reserve (sy_pool s) = (need, p)"
  shows "cp_inv alive others (goto s i (if need = 0 then A_wait now else A_reserved need) p (sy_world s))"
proof -
  let ?p = "sy_pool s"
  have le: "unat (cp_total_conn ?p) \<le> unat (cp_max_conn ?p)" by (rule cp_invD(8) [OF assms(1)])
  then have d: "unat (cp_max_conn ?p - cp_total_conn ?p) = unat (cp_max_conn ?p) - unat (cp_total_conn ?p)"
    by (simp add: unat_sub word_le_nat_alt)
  show ?thesis
  proof (cases "need = 0")
    case True
    then have "p = ?p" using assms(3) by (auto simp: expand_reserve_def Let_def split: if_splits)
    then show ?thesis using True inv_move [OF assms(1,2), of "A_wait now" "sy_world s"] by (simp add: made_ok_def)
  next
    case False
    then have p: "need = min 2 (cp_max_conn ?p - cp_total_conn ?p)" "p = ?p\<lparr>cp_total_conn := cp_total_conn ?p + need\<rparr>"
      using assms(3) by (auto simp: expand_reserve_def Let_def split: if_splits)
    have n: "unat need \<le> unat (cp_max_conn ?p) - unat (cp_total_conn ?p)"
      unfolding p(1) using d by (simp add: min_def word_le_nat_alt)
    have "unat (cp_total_conn ?p) + unat need < 2 ^ 64" using n le unat_u64 [of "cp_max_conn ?p"] by simp
    then have t: "unat (cp_total_conn ?p + need) = unat (cp_total_conn ?p) + unat need" by (simp add: unat_add_of_nat [of _ "unat need", simplified])
    have "cp_inv alive others (goto s i (A_reserved need) p (sy_world s))"
    proof (rule inv_goto [OF assms(1,2), where R = "all_conns s" and d = 0 and n = "unat need"])
      show "all_conns (goto s i (A_reserved need) p (sy_world s)) = all_conns s"
        using conns_goto [OF assms(2), of "A_reserved need" p] p(2) by (simp add: all_conns_def)
      show "slots (goto s i (A_reserved need) p (sy_world s)) + 0 = slots s + unat need"
        using slots_goto [OF assms(2), of "A_reserved need" p] p(2) by (simp add: slots_def)
    qed (use cp_invD [OF assms(1)] p(2) t n le in \<open>simp_all add: made_ok_def\<close>)
    then show ?thesis using False by simp
  qed
qed

lemma inv_make:
  assumes "factory_contract fa alive" "cp_inv alive others s" "at s i (A_reserved need)"
    "expand_loop fa (cp_filename (sy_pool s)) 0 need [] (sy_world s) = (tem, w)"
  shows "cp_inv alive others (goto s i (A_made need tem) (sy_pool s) w)"
proof -
  have n: "distinct tem" "set tem \<inter> alive (sy_world s) = {}" "alive w = alive (sy_world s) \<union> set tem" "length tem \<le> unat need"
    using expand_loop_result [OF assms(1,4)] by auto
  have fresh: "set tem \<inter> set_mset (all_conns s) = {}" "set tem \<inter> others = {}" using n(2) cp_invD(2) [OF assms(2)] by auto
  show ?thesis
  proof (rule inv_goto [OF assms(2,3), where R = "all_conns s + mset tem" and d = 0 and n = 0])
    show "all_conns (goto s i (A_made need tem) (sy_pool s) w) = all_conns s + mset tem"
      using conns_goto [OF assms(3), of "A_made need tem" "sy_pool s" w] by (simp add: all_conns_def)
    show "count (all_conns s + mset tem) c \<le> 1" for c
    proof (cases "c \<in> set tem")
      case True
      then have "count (all_conns s) c = 0" using fresh by (auto simp: count_eq_zero_iff)
      then show ?thesis using n(1) by (simp add: distinct_count_atmost_1)
    next
      case False
      then have "count (mset tem) c = 0" by (simp add: not_in_iff [symmetric])
      then show ?thesis unfolding count_union using cp_invD(1) [OF assms(2), of c] by linarith
    qed
    show "slots (goto s i (A_made need tem) (sy_pool s) w) + 0 = slots s + 0"
      using slots_goto [OF assms(3), of "A_made need tem" "sy_pool s" w] by (simp add: slots_def)
    show "others \<inter> set_mset (all_conns s + mset tem) = {}" using fresh(2) cp_invD(3) [OF assms(2)] by auto
    show "alive w = others \<union> set_mset (all_conns s + mset tem)" using n(3) cp_invD(2) [OF assms(2)] by auto
  qed (use cp_invD [OF assms(2)] n(4) in \<open>simp_all add: made_ok_def\<close>)
qed


lemma inv_commit:
  assumes "cp_inv alive others s" "at s i (A_made need tem)"
  shows "cp_inv alive others (goto s i (A_wait now) (expand_commit (sy_pool s) need tem) (sy_world s))"
proof -
  let ?p = "sy_pool s" and ?s = "goto s i (A_wait now) (expand_commit (sy_pool s) need tem) (sy_world s)"
  have l: "length tem \<le> unat need" using cp_invD(7) [OF assms(1)] assms(2) nth_mem by (fastforce simp: at_def list_all_iff made_ok_def)
  have "reserved (A_made need tem) \<le> sums reserved s" using sum_list_mem [OF at_mem [OF assms(2)], of reserved] by (simp only: sums_def)
  then have nt: "unat need \<le> unat (cp_total_conn ?p)" using cp_inv_slots(1) [OF assms(1)] by (simp add: slots_def)
  then have s1: "unat (cp_total_conn ?p - need) = unat (cp_total_conn ?p) - unat need" by (simp add: unat_sub word_le_nat_alt)
  have "unat (cp_total_conn ?p - need) + length tem < 2 ^ 64" using s1 l nt unat_u64 [of "cp_total_conn ?p"] by simp
  then have t: "unat (cp_total_conn ?p - need + of_nat (length tem)) = unat (cp_total_conn ?p) - unat need + length tem"
    using unat_add_of_nat s1 by simp
  show ?thesis
  proof (rule inv_goto [OF assms, where R = "all_conns s" and d = "unat need" and n = "length tem"])
    show "all_conns ?s = all_conns s"
      using conns_goto [OF assms(2), of "A_wait now" "expand_commit ?p need tem" "sy_world s"]
      by (simp add: all_conns_def expand_commit_def add_ac)
    show "slots ?s + unat need = slots s + length tem"
      using slots_goto [OF assms(2), of "A_wait now" "expand_commit ?p need tem" "sy_world s"] by (simp add: slots_def expand_commit_def)
  qed (use cp_invD [OF assms(1)] t nt l in \<open>auto simp: made_ok_def expand_commit_def\<close>)
qed

lemma last_butlast_mset: "xs \<noteq> [] \<Longrightarrow> mset xs = add_mset (last xs) (mset (butlast xs))"
  by (metis add_mset_add_single append_butlast_last_id mset.simps(1,2) mset_append)

lemma inv_take:
  assumes "cp_inv alive others s" "at s i (A_wait start)" "can_take (sy_pool s)" "acquire_take (sy_pool s) now = (r, p)"
  shows "cp_inv alive others (goto s i (case r of None \<Rightarrow> A_end None | Some conn \<Rightarrow> A_ping conn) p (sy_world s))"
proof (cases "cp_stopping (sy_pool s)")
  case True
  then show ?thesis using assms(4) inv_move [OF assms(1,2), of "A_end None" "sy_world s"] by (auto simp: acquire_take_def made_ok_def)
next
  case False
  let ?p = "sy_pool s" and ?c = "last (cp_idle (sy_pool s))" and ?s = "goto s i (A_ping (last (cp_idle (sy_pool s)))) p (sy_world s)"
  have ne: "cp_idle ?p \<noteq> []" using assms(3) False by (simp add: can_take_def)
  note i = last_butlast_mset [OF ne]
  have ci: "?c \<in> set (cp_idle ?p)" using ne by simp
  have p: "r = Some ?c" "p = ?p\<lparr>cp_return_time := (cp_return_time ?p)(?c := None), cp_idle := butlast (cp_idle ?p),
           cp_in_use := cp_in_use ?p @ [?c], cp_borrow_time := emplace (cp_borrow_time ?p) ?c now,
           cp_warn := (cp_warn ?p)(?c := None)\<rparr>"
    using assms(4) False by (auto simp: acquire_take_def Let_def)
  have "count (mset (cp_idle ?p)) ?c + count (mset (cp_in_use ?p)) ?c \<le> 1"
    using cp_invD(1) [OF assms(1), of ?c] by (simp add: all_conns_def)
  moreover have "count (mset (cp_idle ?p)) ?c > 0" using ci by (simp add: count_greater_zero_iff)
  ultimately have "count (mset (cp_in_use ?p)) ?c = 0" by linarith
  then have "?c \<notin> set (cp_in_use ?p)" by (simp add: count_eq_zero_iff)
  then have b: "cp_borrow_time ?p ?c = None" using cp_invD(5) [OF assms(1)] by auto
  have "cp_inv alive others ?s"
  proof (rule inv_goto [OF assms(1,2), where R = "all_conns s" and d = 0 and n = 0])
    show "all_conns ?s = all_conns s"
      using conns_goto [OF assms(2), of "A_ping ?c" p "sy_world s"] p(2) i by (simp add: all_conns_def)
    show "slots ?s + 0 = slots s + 0"
      using slots_goto [OF assms(2), of "A_ping ?c" p "sy_world s"] p(2) ne by (simp add: slots_def)
    have "set (cp_idle ?p) = insert ?c (set (butlast (cp_idle ?p)))" using arg_cong [OF i, of set_mset] by simp
    then show "dom (cp_return_time p) \<subseteq> set (cp_idle p)" using cp_invD(6) [OF assms(1)] p(2) by auto
  qed (use cp_invD [OF assms(1)] p(2) b in \<open>simp_all add: made_ok_def emplace_def\<close>)
  then show ?thesis using p(1) by simp
qed

lemma mset_removeAll_one:
  assumes "count (mset xs) c \<le> 1" "c \<in> set xs"
  shows "add_mset c (mset (removeAll c xs)) = mset xs"
proof (rule multiset_eqI)
  fix d
  have "0 < count (mset xs) c" using assms(2) by (simp add: count_greater_zero_iff)
  then have one: "count (mset xs) c = 1" using assms(1) by linarith
  have "count (mset (removeAll c xs)) d = (if d = c then 0 else count (mset xs) d)"
    by (induction xs) auto
  then show "count (add_mset c (mset (removeAll c xs))) d = count (mset xs) d" using one by auto
qed

lemma use_once:
  assumes "cp_inv alive others s"
  shows "count (mset (cp_in_use (sy_pool s))) c \<le> 1"
  using cp_invD(1) [OF assms, of c] by (simp add: all_conns_def)

text \<open>A connection in use is deleted by its guard after the stop.\<close>

lemma inv_delete:
  assumes "factory_contract fa alive" "cp_inv alive others s" "at s i a" "held a = {#c#}" "owned a = {#}" "reserved a = 0"
    and "cp_idle p = cp_idle (sy_pool s)" "cp_in_use p = removeAll c (cp_in_use (sy_pool s))"
      "cp_borrow_time p = (cp_borrow_time (sy_pool s))(c := None)" "cp_return_time p = cp_return_time (sy_pool s)"
      "cp_stopping p = cp_stopping (sy_pool s)" "cp_max_conn p = cp_max_conn (sy_pool s)"
    and "cp_stopping p" "cp_total_conn p = cp_total_conn (sy_pool s)"
  shows "cp_inv alive others (goto s i (A_end None) p (fa_delete fa c (sy_world s)))"
proof -
  let ?p = "sy_pool s" and ?s = "goto s i (A_end None) p (fa_delete fa c (sy_world s))"
  have c: "c \<in> set (cp_in_use ?p)" by (rule held_in_use [OF assms(2-4)])
  note m = mset_removeAll_one [OF use_once [OF assms(2)] c, folded assms(8)]
  have len: "length (cp_in_use ?p) = length (cp_in_use p) + 1" using arg_cong [OF m, of size] by simp
  have conns: "add_mset c (all_conns ?s) = all_conns s"
    using conns_goto [OF assms(3), of "A_end None" p] assms(5,7) m by (simp add: all_conns_def)
  have slots: "slots ?s + 1 = slots s"
    using slots_goto [OF assms(3), of "A_end None" p "fa_delete fa c (sy_world s)"] assms(6,7) len by (simp add: slots_def)
  have cnt: "count (all_conns s) d \<le> 1" for d by (rule cp_invD(1) [OF assms(2)])
  have cn: "c \<notin># all_conns ?s" using cnt [of c] unfolding conns [symmetric] by (simp add: not_in_iff)
  have "c \<in> alive (sy_world s)" "c \<notin> others" using cp_invD(2,3) [OF assms(2)] unfolding conns [symmetric] by auto
  then have al: "alive (fa_delete fa c (sy_world s)) = others \<union> set_mset (all_conns ?s)" "others \<inter> set_mset (all_conns ?s) = {}"
    using factory_contract.delete_law [OF assms(1), of c "sy_world s"] cp_invD(2,3) [OF assms(2)] cn unfolding conns [symmetric] by auto
  have use: "mset (cp_in_use p) = sums held ?s"
    using sums_goto [OF assms(3), of held "A_end None" p "fa_delete fa c (sy_world s)"] cp_invD(4) [OF assms(2)] m assms(4)
    by simp (metis add_mset_add_mset_same_iff)
  have t: "slots ?s \<le> unat (cp_total_conn p)" "\<not> cp_stopping p \<longrightarrow> slots ?s = unat (cp_total_conn p)"
    "unat (cp_total_conn p) \<le> unat (cp_max_conn p)"
    using assms(12-14) slots cp_inv_slots(1) [OF assms(2)] cp_invD(8) [OF assms(2)] by auto
  have "count (all_conns ?s) d \<le> 1" for d using cnt [of d] unfolding conns [symmetric] by (simp split: if_splits)
  moreover have "list_all made_ok (sy_acq ?s)"
    using made_ok_update [OF cp_invD(7) [OF assms(2)], of "A_end None"] by (simp add: goto_def made_ok_def)
  moreover have "dom (cp_borrow_time p) = set (cp_in_use p)" using cp_invD(5) [OF assms(2)] assms(8,9) by auto
  moreover have "dom (cp_return_time p) \<subseteq> set (cp_idle p)" using cp_invD(6) [OF assms(2)] assms(7,10) by simp
  ultimately show ?thesis unfolding cp_inv_def Let_def goto_sel using al use t by auto
qed


lemma inv_give_back:
  assumes "factory_contract fa alive" "cp_inv alive others s" "at s i (A_end (Some c))"
    "release fa (sy_pool s) c now (sy_world s) = (p, n, w)"
  shows "cp_inv alive others (goto s i (A_end None) p w)"
proof -
  let ?p = "sy_pool s"
  have c: "c \<in> set (cp_in_use ?p)" by (rule held_in_use [OF assms(2,3)]) simp
  then have b: "cp_borrow_time ?p c \<noteq> None" using cp_invD(5) [OF assms(2)] by auto
  let ?q = "?p\<lparr>cp_in_use := removeAll c (cp_in_use ?p), cp_borrow_time := (cp_borrow_time ?p)(c := None)\<rparr>"
  show ?thesis
  proof (cases "cp_stopping ?p")
    case True
    then have "p = ?q" "w = fa_delete fa c (sy_world s)" using assms(4) b by (simp_all add: release_def Let_def)
    then show ?thesis using inv_delete [OF assms(1-3), of c ?q] True by simp
  next
    case False
    then have p: "p = ?q\<lparr>cp_idle := cp_idle ?p @ [c], cp_return_time := emplace (cp_return_time ?p) c now\<rparr>" "w = sy_world s"
      using assms(4) b by (auto simp: release_def Let_def)
    note m = mset_removeAll_one [OF use_once [OF assms(2)] c]
    have len: "length (cp_in_use ?p) = length (removeAll c (cp_in_use ?p)) + 1" using arg_cong [OF m, of size] by simp
    show ?thesis
    proof (rule inv_goto [OF assms(2,3), where R = "all_conns s" and d = 0 and n = 0])
      show "all_conns (goto s i (A_end None) p w) = all_conns s"
        using conns_goto [OF assms(3), of "A_end None" p w] p(1) m by (simp add: all_conns_def)
      show "slots (goto s i (A_end None) p w) + 0 = slots s + 0"
        using slots_goto [OF assms(3), of "A_end None" p w] p(1) len by (simp add: slots_def)
      show "mset (cp_in_use p) + held (A_end (Some c)) = sums held s + held (A_end None)"
        using cp_invD(4) [OF assms(2)] m p(1) by simp
      show "dom (cp_return_time p) \<subseteq> set (cp_idle p)" using cp_invD(6) [OF assms(2)] p(1)
        by (auto simp: emplace_def split: option.splits if_splits)
      show "dom (cp_borrow_time p) = set (cp_in_use p)" using cp_invD(5) [OF assms(2)] p(1) by auto
    qed (use cp_invD [OF assms(2)] p in \<open>simp_all add: made_ok_def\<close>)
  qed
qed

text \<open>The two halves of dropping a bad connection.\<close>

lemma inv_drop_bad:
  assumes "cp_inv alive others s" "at s i (A_bad c)"
  shows "cp_inv alive others (goto s i (A_doomed c) (ping_failed (sy_pool s) c) (sy_world s))"
proof -
  let ?p = "sy_pool s" and ?q = "ping_failed (sy_pool s) c"
  have c: "c \<in> set (cp_in_use ?p)" by (rule held_in_use [OF assms]) simp
  note m = mset_removeAll_one [OF use_once [OF assms(1)] c]
  have len: "length (cp_in_use ?p) = length (removeAll c (cp_in_use ?p)) + 1" using arg_cong [OF m, of size] by simp
  have "1 \<le> unat (cp_total_conn ?p)" using len cp_inv_slots(1) [OF assms(1)] by (simp add: slots_def)
  then have t: "unat (cp_total_conn ?p - 1) + 1 = unat (cp_total_conn ?p)" by (simp add: unat_sub word_le_nat_alt)
  show ?thesis
  proof (rule inv_goto [OF assms, where R = "all_conns s" and d = 1 and n = 0])
    show "all_conns (goto s i (A_doomed c) ?q (sy_world s)) = all_conns s"
      using conns_goto [OF assms(2), of "A_doomed c" ?q "sy_world s"] m by (simp add: ping_failed_def all_conns_def)
    show "slots (goto s i (A_doomed c) ?q (sy_world s)) + 1 = slots s + 0"
      using slots_goto [OF assms(2), of "A_doomed c" ?q "sy_world s"] len by (simp add: ping_failed_def slots_def)
    show "mset (cp_in_use ?q) + held (A_bad c) = sums held s + held (A_doomed c)"
      using cp_invD(4) [OF assms(1)] m by (simp add: ping_failed_def)
    show "dom (cp_borrow_time ?q) = set (cp_in_use ?q)" using cp_invD(5) [OF assms(1)] by (auto simp: ping_failed_def)
    show "unat (cp_total_conn ?q) \<le> unat (cp_max_conn ?q)" using cp_invD(8) [OF assms(1)] t by (simp add: ping_failed_def)
  qed (use cp_invD [OF assms(1)] t in \<open>simp_all add: made_ok_def ping_failed_def\<close>)
qed

lemma inv_delete_bad:
  assumes "factory_contract fa alive" "cp_inv alive others s" "at s i (A_doomed c)"
  shows "cp_inv alive others (goto s i (A_end None) (sy_pool s) (fa_delete fa c (sy_world s)))"
proof -
  let ?p = "sy_pool s" and ?s = "goto s i (A_end None) (sy_pool s) (fa_delete fa c (sy_world s))"
  have conns: "add_mset c (all_conns ?s) = all_conns s"
    using conns_goto [OF assms(3), of "A_end None" ?p] by (simp add: all_conns_def)
  have cnt: "count (all_conns s) d \<le> 1" for d by (rule cp_invD(1) [OF assms(2)])
  have cn: "c \<notin># all_conns ?s" using cnt [of c] unfolding conns [symmetric] by (simp add: not_in_iff)
  have "c \<in> alive (sy_world s)" "c \<notin> others" using cp_invD(2,3) [OF assms(2)] unfolding conns [symmetric] by auto
  then have al: "alive (fa_delete fa c (sy_world s)) = others \<union> set_mset (all_conns ?s)" "others \<inter> set_mset (all_conns ?s) = {}"
    using factory_contract.delete_law [OF assms(1), of c "sy_world s"] cp_invD(2,3) [OF assms(2)] cn unfolding conns [symmetric] by auto
  show ?thesis
  proof (rule inv_goto [OF assms(2,3), where R = "all_conns ?s" and d = 0 and n = 0])
    show "count (all_conns ?s) d \<le> 1" for d using cnt [of d] unfolding conns [symmetric] by (simp split: if_splits)
    show "slots ?s + 0 = slots s + 0"
      using slots_goto [OF assms(3), of "A_end None" ?p "fa_delete fa c (sy_world s)"] by (simp add: slots_def)
  qed (use cp_invD [OF assms(2)] al in \<open>simp_all add: made_ok_def\<close>)
qed

text \<open>The scanner.\<close>

lemma scan_warn_same:
  assumes "scan_warn clock p bs = (ws, p')"
  shows "\<exists>f. p' = p\<lparr>cp_warn := f\<rparr>"
  using assms
proof (induction clock p bs arbitrary: ws rule: scan_warn.induct)
  case (1 clock p)
  then show ?case by (auto intro: exI [of _ "cp_warn p"])
next
  case (2 clock p conn bs)
  show ?case
  proof (cases "cp_borrow_time p conn")
    case None
    then show ?thesis using "2.IH"(1) "2.prems" by auto
  next
    case (Some t)
    then show ?thesis
      using "2.IH"(2-4) [OF Some] "2.prems" by (fastforce simp: Let_def split: if_splits prod.splits option.splits)
  qed
qed

lemma inv_scan_delete:
  assumes "factory_contract fa alive" "cp_inv alive others s" "\<not> cp_stopping (sy_pool s)"
    and "distinct cs" "set cs \<subseteq> dom (cp_return_time (sy_pool s))"
    and "scan_delete fa (sy_pool s) cs (sy_world s) = (p, w)"
  shows "cp_inv alive others (s\<lparr>sy_pool := p, sy_world := w\<rparr>)"
  using assms(2-)
proof (induction cs arbitrary: s)
  case Nil
  then have "sy_pool s = p" "sy_world s = w" by simp_all
  then have "s\<lparr>sy_pool := p, sy_world := w\<rparr> = s" by auto
  then show ?case using Nil.prems(1) by simp
next
  case (Cons c cs)
  let ?p = "sy_pool s"
  show ?case
  proof (cases "cp_total_conn ?p \<le> cp_min_conn ?p")
    case True
    then have "sy_pool s = p" "sy_world s = w" using Cons.prems(5) by simp_all
    then have "s\<lparr>sy_pool := p, sy_world := w\<rparr> = s" by auto
    then show ?thesis using Cons.prems(1) by simp
  next
    case False
    let ?q = "?p\<lparr>cp_idle := removeAll c (cp_idle ?p), cp_return_time := (cp_return_time ?p)(c := None),
             cp_warn := (cp_warn ?p)(c := None), cp_total_conn := cp_total_conn ?p - 1\<rparr>"
    let ?s = "s\<lparr>sy_pool := ?q, sy_world := fa_delete fa c (sy_world s)\<rparr>"
    have c: "c \<in> set (cp_idle ?p)" using Cons.prems(4) cp_invD(6) [OF Cons.prems(1)] by auto
    have "count (mset (cp_idle ?p)) c \<le> 1" using cp_invD(1) [OF Cons.prems(1), of c] by (simp add: all_conns_def)
    note m = mset_removeAll_one [OF this c]
    have len: "length (cp_idle ?p) = length (removeAll c (cp_idle ?p)) + 1" using arg_cong [OF m, of size] by simp
    have sm: "sums f ?s = sums f s" for f :: "acq \<Rightarrow> 'c::comm_monoid_add" by (simp add: sums_def)
    have conns: "add_mset c (all_conns ?s) = all_conns s" using m sm [of owned] by (simp add: all_conns_def)
    have slots: "slots ?s + 1 = slots s" using len sm [of reserved] by (simp add: slots_def)
    have cnt: "count (all_conns s) d \<le> 1" for d by (rule cp_invD(1) [OF Cons.prems(1)])
    have cn: "c \<notin># all_conns ?s" using cnt [of c] unfolding conns [symmetric] by (simp add: not_in_iff)
    have "c \<in> alive (sy_world s)" "c \<notin> others" using cp_invD(2,3) [OF Cons.prems(1)] unfolding conns [symmetric] by auto
    then have al: "alive (fa_delete fa c (sy_world s)) = others \<union> set_mset (all_conns ?s)" "others \<inter> set_mset (all_conns ?s) = {}"
      using factory_contract.delete_law [OF assms(1), of c "sy_world s"] cp_invD(2,3) [OF Cons.prems(1)] cn unfolding conns [symmetric] by auto
    have pos: "1 \<le> unat (cp_total_conn ?p)" using slots cp_inv_slots(1) [OF Cons.prems(1)] by linarith
    then have t1: "unat (cp_total_conn ?p - 1) = unat (cp_total_conn ?p) - 1" by (simp add: unat_sub word_le_nat_alt)
    have "count (all_conns ?s) d \<le> 1" for d using cnt [of d] unfolding conns [symmetric] by (simp split: if_splits)
    moreover have "dom (cp_return_time ?q) \<subseteq> set (cp_idle ?q)" using cp_invD(6) [OF Cons.prems(1)] by auto
    moreover have "slots ?s = unat (cp_total_conn ?q)" "unat (cp_total_conn ?q) \<le> unat (cp_max_conn ?q)"
      using slots t1 pos cp_inv_slots(2) [OF Cons.prems(1,2)] cp_invD(8) [OF Cons.prems(1)] by simp_all
    moreover have "mset (cp_in_use ?q) = sums held ?s" using cp_invD(4) [OF Cons.prems(1)] sm [of held] by simp
    ultimately have inv: "cp_inv alive others ?s"
      using cp_invD(5,7) [OF Cons.prems(1)] al Cons.prems(2) unfolding cp_inv_def Let_def by simp
    have r: "scan_delete fa (sy_pool ?s) cs (sy_world ?s) = (p, w)" using Cons.prems(5) False by simp
    have "cp_inv alive others (?s\<lparr>sy_pool := p, sy_world := w\<rparr>)"
      by (rule Cons.IH [OF inv _ _ _ r]) (use Cons.prems(2-4) in auto)
    then show ?thesis by simp
  qed
qed

lemma inv_scan:
  assumes "factory_contract fa alive" "cp_inv alive others s" "\<not> cp_stopping (sy_pool s)"
    and "distinct rs" "set rs = dom (cp_return_time (sy_pool s))"
    and "scan_pass fa clock bs rs (sy_pool s) (sy_world s) = (ws, p, w)"
  shows "cp_inv alive others (s\<lparr>sy_pool := p, sy_world := w\<rparr>)"
proof -
  obtain p1 where w: "scan_warn clock (sy_pool s) bs = (fst (scan_warn clock (sy_pool s) bs), p1)" by (metis prod.collapse)
  from scan_warn_same [OF this] obtain f where f: "p1 = (sy_pool s)\<lparr>cp_warn := f\<rparr>" by blast
  let ?s = "s\<lparr>sy_pool := p1\<rparr>"
  have same: "all_conns ?s = all_conns s" "slots ?s = slots s" "sums held ?s = sums held s"
    using f by (simp_all add: all_conns_def slots_def sums_def)
  have inv: "cp_inv alive others ?s"
    using assms(2) f same unfolding cp_inv_def Let_def by simp
  show ?thesis
  proof (cases "cp_total_conn p1 > cp_min_conn p1")
    case True
    let ?cs = "scan_collect clock p1 rs"
    have "set ?cs \<subseteq> dom (cp_return_time p1)" "distinct ?cs"
      using assms(4,5) f by (auto simp: scan_collect_def)
    moreover have "scan_delete fa (sy_pool ?s) ?cs (sy_world ?s) = (p, w)"
      using assms(6) w True unfolding scan_pass_def by (auto split: prod.splits)
    ultimately have "cp_inv alive others (?s\<lparr>sy_pool := p, sy_world := w\<rparr>)"
      using inv_scan_delete [OF assms(1) inv] assms(3) f by simp
    then show ?thesis by simp
  next
    case False
    then have "p = p1" "w = sy_world s" using assms(6) w unfolding scan_pass_def by (auto split: prod.splits)
    then have "s\<lparr>sy_pool := p, sy_world := w\<rparr> = ?s" by auto
    then show ?thesis using inv by simp
  qed
qed

section \<open>Reachable states\<close>

lemma create_idle_result:
  assumes "factory_contract fa alive" "create_idle fa filename n idle w = (idle', w')"
  shows "\<exists>new. idle' = idle @ new \<and> distinct new \<and> length new = n \<and> set new \<inter> alive w = {} \<and> alive w' = alive w \<union> set new"
  using assms(2)
proof (induction n arbitrary: idle w)
  case 0
  then show ?case by (auto intro: exI [of _ "[]"])
next
  case (Suc n)
  obtain c w1 where c: "fa_new fa filename w = (c, w1)" by fastforce
  then have l: "c \<notin> alive w" "alive w1 = insert c (alive w)" using factory_contract.new_law [OF assms(1)] by blast+
  from Suc.prems c have "create_idle fa filename n (idle @ [c]) w1 = (idle', w')" by simp
  from Suc.IH [OF this] obtain new where
    "idle' = (idle @ [c]) @ new" "distinct new" "length new = n" "set new \<inter> alive w1 = {}" "alive w' = alive w1 \<union> set new" by blast
  then show ?case using l by (intro exI [of _ "c # new"]) auto
qed

lemma inv_built:
  assumes "factory_contract fa alive" "min_conn \<le> max_conn" "cpool_new fa filename min_conn max_conn w0 = (p, w)"
  shows "cp_inv alive (alive w0) \<lparr>sy_pool = p, sy_acq = [], sy_gone = False, sy_world = w\<rparr>"
proof -
  obtain idle w1 where c: "create_idle fa filename (unat min_conn) [] w0 = (idle, w1)" by fastforce
  from create_idle_result [OF assms(1) this] have n: "distinct idle" "length idle = unat min_conn" "set idle \<inter> alive w0 = {}"
    "alive w1 = alive w0 \<union> set idle" by auto
  have "p = \<lparr>cp_filename = filename, cp_stopping = False, cp_min_conn = min_conn, cp_max_conn = max_conn, cp_idle = idle,
       cp_in_use = [], cp_borrow_time = Map.empty, cp_return_time = Map.empty, cp_warn = Map.empty,
       cp_total_conn = min_conn\<rparr>" "w = w1"
    using assms(3) c by (simp_all add: cpool_new_def)
  moreover have "count (mset idle) c \<le> 1" for c using n(1) by (simp add: distinct_count_atmost_1)
  ultimately show ?thesis
    using n assms(2) unfolding cp_inv_def Let_def by (simp add: all_conns_def slots_def sums_def word_le_nat_alt Int_commute)
qed

lemma inv_call:
  assumes "cp_inv alive others s"
  shows "cp_inv alive others (s\<lparr>sy_acq := sy_acq s @ [A_start]\<rparr>)"
proof -
  let ?s = "s\<lparr>sy_acq := sy_acq s @ [A_start]\<rparr>"
  have same: "all_conns ?s = all_conns s" "slots ?s = slots s" "sums held ?s = sums held s"
    by (simp_all add: all_conns_def slots_def sums_def)
  show ?thesis using assms unfolding cp_inv_def Let_def same by (simp add: made_ok_def)
qed

lemma inv_stop:
  assumes "cp_inv alive others s"
  shows "cp_inv alive others (s\<lparr>sy_pool := cpool_stop (sy_pool s)\<rparr>)"
proof -
  let ?s = "s\<lparr>sy_pool := cpool_stop (sy_pool s)\<rparr>"
  have same: "all_conns ?s = all_conns s" "slots ?s = slots s" "sums held ?s = sums held s"
    by (simp_all add: all_conns_def slots_def sums_def cpool_stop_def)
  show ?thesis using cp_invD [OF assms] cp_inv_slots(1) [OF assms] unfolding cp_inv_def Let_def same
    by (simp add: cpool_stop_def)
qed

text \<open>After the destructor: no idle connection is left, and what lives of the pool's connections is
  what the guards still hold.\<close>

definition cp_end :: "('w \<Rightarrow> addr set) \<Rightarrow> addr set \<Rightarrow> 'w cp_sys \<Rightarrow> bool" where
  "cp_end alive others s \<longleftrightarrow> cp_idle (sy_pool s) = [] \<and> alive (sy_world s) = others \<union> set (cp_in_use (sy_pool s)) \<and>
     mset (cp_in_use (sy_pool s)) = sums held s \<and> (\<forall>c. count (sums held s) c \<le> 1) \<and> others \<inter> set (cp_in_use (sy_pool s)) = {}"

lemma drain_result:
  assumes "factory_contract fa alive" "cpool_drain fa p w = (p', w')" "distinct (cp_idle p)" "set (cp_idle p) \<subseteq> alive w"
  shows "p' = p\<lparr>cp_idle := []\<rparr> \<and> alive w' = alive w - set (cp_idle p)"
  using assms(2-)
proof (induction "cp_idle p" arbitrary: p w)
  case Nil
  then have "p' = p" "w' = w" by (simp_all add: cpool_drain.simps [of fa p w] split: list.splits)
  moreover have "p\<lparr>cp_idle := []\<rparr> = p" using Nil(1) by simp
  ultimately show ?case using Nil(1) by simp
next
  case (Cons c cs)
  note e = Cons.hyps(2) [symmetric]
  have "alive (fa_delete fa c w) = alive w - {c}" using factory_contract.delete_law [OF assms(1), of c w] Cons.prems(3) e by simp
  moreover have "cpool_drain fa (p\<lparr>cp_idle := cs\<rparr>) (fa_delete fa c w) = (p', w')"
    using Cons.prems(1) e by (simp add: cpool_drain.simps [of fa p w])
  ultimately show ?case using Cons.hyps(1) [of "p\<lparr>cp_idle := cs\<rparr>" "fa_delete fa c w"] Cons.prems(2,3) e by auto
qed

lemma ended_made: "list_all ended as \<Longrightarrow> sum_list (map owned as) = {#}"
  by (induction as) (auto simp: ended_def split: acq.splits)

lemma inv_drain:
  assumes "factory_contract fa alive" "cp_inv alive others s" "list_all ended (sy_acq s)"
    "cpool_drain fa (sy_pool s) (sy_world s) = (p, w)"
  shows "cp_end alive others (s\<lparr>sy_pool := p, sy_gone := True, sy_world := w\<rparr>)"
proof -
  let ?p = "sy_pool s"
  have conns: "all_conns s = mset (cp_idle ?p) + mset (cp_in_use ?p)"
    using ended_made [OF assms(3)] by (simp add: all_conns_def sums_def)
  have cnt: "count (mset (cp_idle ?p)) c + count (mset (cp_in_use ?p)) c \<le> 1" for c
    using cp_invD(1) [OF assms(2), of c] conns by simp
  have d: "distinct (cp_idle ?p)" using cnt by (metis add_leD1 distinct_count_atmost_1 le_less_linear count_mset_0_iff less_one le_antisym not_less_eq_eq One_nat_def)
  have dis: "set (cp_idle ?p) \<inter> set (cp_in_use ?p) = {}"
  proof (rule equals0I)
    fix c assume "c \<in> set (cp_idle ?p) \<inter> set (cp_in_use ?p)"
    then have "0 < count (mset (cp_idle ?p)) c" "0 < count (mset (cp_in_use ?p)) c" by (simp_all add: count_greater_zero_iff)
    then show False using cnt [of c] by linarith
  qed
  have al: "alive (sy_world s) = others \<union> (set (cp_idle ?p) \<union> set (cp_in_use ?p))"
    "others \<inter> (set (cp_idle ?p) \<union> set (cp_in_use ?p)) = {}"
    using cp_invD(2,3) [OF assms(2)] by (simp_all add: conns)
  have r: "p = ?p\<lparr>cp_idle := []\<rparr>" "alive w = alive (sy_world s) - set (cp_idle ?p)"
    using drain_result [OF assms(1,4) d] al by auto
  have h: "mset (cp_in_use ?p) = sums held s" by (rule cp_invD(4) [OF assms(2)])
  have "count (sums held s) c \<le> 1" for c using cnt [of c] h by simp
  moreover have "sums held (s\<lparr>sy_pool := p, sy_gone := True, sy_world := w\<rparr>) = sums held s" by (simp add: sums_def)
  ultimately show ?thesis using r al dis h unfolding cp_end_def by auto
qed

lemma held_alive:
  assumes "cp_inv alive others s" "at s i a" "held a = {#c#}"
  shows "c \<in> alive (sy_world s)"
  using held_in_use [OF assms] cp_invD(2) [OF assms(1)] by (auto simp: all_conns_def)

lemma inv_works: "cp_inv alive others s \<Longrightarrow> alive w = alive (sy_world s) \<Longrightarrow> cp_inv alive others (s\<lparr>sy_world := w\<rparr>)"
proof -
  assume a: "cp_inv alive others s" "alive w = alive (sy_world s)"
  have same: "all_conns (s\<lparr>sy_world := w\<rparr>) = all_conns s" "slots (s\<lparr>sy_world := w\<rparr>) = slots s"
    "sums held (s\<lparr>sy_world := w\<rparr>) = sums held s" by (simp_all add: all_conns_def slots_def sums_def)
  show ?thesis using a unfolding cp_inv_def Let_def same by simp
qed

lemma cp_inv_step:
  assumes "pool_client fa alive use" "cp_step fa use s s'" "cp_inv alive others s" "\<not> sy_gone s'"
  shows "cp_inv alive others s'"
proof -
  have f: "factory_contract fa alive" using assms(1) by (simp add: pool_client_def)
  show ?thesis using assms(2-4)
proof (cases rule: cp_step.cases)
  case (works i conn w)
  show ?thesis unfolding works(1) by (rule inv_works [OF assms(3) pool_client.use_law [OF assms(1) works(3)]])
next
  case (decide i now)
  then show ?thesis using inv_move [OF assms(3) decide(2), of "if wants_expand (sy_pool s) then A_expand else A_wait now" "sy_world s"]
    by (simp add: made_ok_def)
next
  case (reserve i need p now)
  show ?thesis unfolding reserve(1) by (rule inv_reserve [OF assms(3) reserve(2,3)])
next
  case (ping i conn ok w)
  have al: "alive w = alive (sy_world s)"
    using factory_contract.ping_law [OF f held_alive [OF assms(3) ping(2)] ping(3)] by simp
  show ?thesis unfolding ping(1)
    by (rule inv_move [OF assms(3) ping(2)]) (simp_all add: made_ok_def al)
next
  case (drain p w)
  then show ?thesis using assms(4) by simp
qed (auto simp: made_ok_def intro: inv_call inv_stop inv_move inv_reserve inv_make [OF f] inv_commit inv_take inv_drop_bad
     inv_delete_bad [OF f] inv_give_back [OF f] inv_scan [OF f])
qed

lemma step_not_gone:
  assumes "cp_step fa use s s'"
  shows "\<not> sy_gone s"
  using assms by cases (auto simp: at_def)

lemma end_step:
  assumes "factory_contract fa alive" "cp_step fa use s s'" "cp_inv alive others s" "sy_gone s'"
  shows "cp_end alive others s'"
  using assms(2)
proof (cases rule: cp_step.cases)
  case (drain p w)
  show ?thesis unfolding drain(1) by (rule inv_drain [OF assms(1,3) drain(4,5)])
qed (use assms(4) step_not_gone [OF assms(2)] in simp_all)

lemma cp_reach_inv:
  assumes "pool_client fa alive use" "min_conn \<le> max_conn" "cp_reach fa use min_conn max_conn w0 s"
  shows "if sy_gone s then cp_end alive (alive w0) s else cp_inv alive (alive w0) s"
  using assms(3)
proof (induction rule: cp_reach.induct)
  case (built filename p w)
  have f: "factory_contract fa alive" using assms(1) by (simp add: pool_client_def)
  show ?case using inv_built [OF f assms(2) built] by simp
next
  case (steps s s')
  have i: "cp_inv alive (alive w0) s" using steps.IH step_not_gone [OF steps.hyps(2)] by simp
  have f: "factory_contract fa alive" using assms(1) by (simp add: pool_client_def)
  show ?case using cp_inv_step [OF assms(1) steps.hyps(2) i] end_step [OF f steps.hyps(2) i] by simp
qed

lemma scan_delete_config: "scan_delete fa p cs w = (p', w') \<Longrightarrow> cp_max_conn p' = cp_max_conn p"
  by (induction fa p cs w rule: scan_delete.induct) (auto split: if_splits)

lemma scan_pass_config:
  assumes "scan_pass fa clock bs rs p w = (ws, p', w')"
  shows "cp_max_conn p' = cp_max_conn p"
proof -
  obtain ws1 p1 where w: "scan_warn clock p bs = (ws1, p1)" by fastforce
  from scan_warn_same [OF this] obtain f where "p1 = p\<lparr>cp_warn := f\<rparr>" by blast
  then show ?thesis using assms w scan_delete_config unfolding scan_pass_def by (fastforce split: if_splits prod.splits)
qed

lemma drain_config: "cpool_drain fa p w = (p', w') \<Longrightarrow> cp_max_conn p' = cp_max_conn p"
proof (induction fa p w rule: cpool_drain.induct)
  case (1 fa p w)
  then show ?case by (auto simp: cpool_drain.simps [of fa p w] split: list.splits)
qed

lemma step_config:
  assumes "cp_step fa use s s'"
  shows "cp_max_conn (sy_pool s') = cp_max_conn (sy_pool s)"
  using assms by cases
    (auto simp: expand_reserve_def expand_commit_def acquire_take_def ping_failed_def release_def cpool_stop_def Let_def
      scan_pass_config drain_config split: if_splits)

lemma reach_config: "cp_reach fa use min_conn max_conn w0 s \<Longrightarrow> cp_max_conn (sy_pool s) = max_conn"
  by (induction rule: cp_reach.induct) (auto simp: cpool_new_def step_config split: prod.splits)

text \<open>The tasks that are about to delete a bad connection.\<close>

definition doomed :: "acq \<Rightarrow> bool" where
  "doomed a \<longleftrightarrow> (case a of A_doomed c \<Rightarrow> True | _ \<Rightarrow> False)"

lemma owned_size:
  assumes "list_all made_ok as"
  shows "size (sum_list (map owned as)) \<le> sum_list (map reserved as) + length (filter doomed as)"
  using assms
proof (induction as)
  case (Cons a as)
  moreover have "size (owned a) \<le> reserved a + length (filter doomed [a])"
    using Cons.prems by (cases a) (auto simp: made_ok_def doomed_def)
  ultimately show ?case by (simp split: if_splits)
qed simp

lemma conns_size: "cp_inv alive others s \<Longrightarrow> size (all_conns s) \<le> slots s + length (filter doomed (sy_acq s))"
  using owned_size [OF cp_invD(7)] by (fastforce simp: all_conns_def slots_def sums_def)

section \<open>Properties\<close>

text \<open>A run for the witnesses: a pool of one to two connections, of which one is taken.\<close>

definition demo_sql_conn :: "demo_sql db_world" where
  "demo_sql_conn = \<lparr>dw_heap = [(1, Connection_obj (Some 1))], dw_cerr = [], dw_sql = ([1], [])\<rparr>"

definition demo_cpool :: "addr list \<Rightarrow> addr list \<Rightarrow> (addr \<rightharpoonup> time) \<Rightarrow> bool \<Rightarrow> cpool" where
  "demo_cpool idle in_use borrow stop = \<lparr>cp_filename = ''a.db'', cp_stopping = stop, cp_min_conn = 1, cp_max_conn = 2, cp_idle = idle,
     cp_in_use = in_use, cp_borrow_time = borrow, cp_return_time = Map.empty, cp_warn = Map.empty, cp_total_conn = 1\<rparr>"

definition demo_sys :: "acq list \<Rightarrow> cpool \<Rightarrow> bool \<Rightarrow> demo_sql db_world cp_sys" where
  "demo_sys as p gone = \<lparr>sy_pool = p, sy_acq = as, sy_gone = gone, sy_world = demo_sql_conn\<rparr>"

abbreviation demo_reaches :: "demo_sql db_world cp_sys \<Rightarrow> bool" where
  "demo_reaches \<equiv> cp_reach (db_factory demo_sqlite) (db_use demo_sqlite) 1 2 (empty_world ([], []))"

lemma demo_held: "demo_reaches (demo_sys [A_end (Some 1)] (demo_cpool [] [1] [1 \<mapsto> 1] False) False)"
proof -
  let ?fa = "db_factory demo_sqlite" and ?use = "db_use demo_sqlite" and ?p = "demo_cpool [1] [] Map.empty False"
    and ?q = "demo_cpool [] [1] [1 \<mapsto> 1] False"
  note go = cp_reach.steps
  have "cpool_new ?fa ''a.db'' 1 2 (empty_world ([], [])) = (?p, demo_sql_conn)"
    by (simp add: cpool_new_def db_factory_def demo_defs demo_sql_conn_def demo_cpool_def Let_def)
  from cp_reach.built [OF this] have 1: "demo_reaches (demo_sys [] ?p False)" by (simp add: demo_sys_def)
  have 2: "demo_reaches (demo_sys [A_start] ?p False)"
    using go [OF 1 cp_step.call] by (simp add: demo_sys_def)
  have 3: "demo_reaches (demo_sys [A_grow] ?p False)"
    using go [OF 2 cp_step.begins [of _ 0]] by (simp add: demo_sys_def at_def goto_def demo_cpool_def)
  have 4: "demo_reaches (demo_sys [A_wait 0] ?p False)"
    using go [OF 3 cp_step.decide [of _ 0 _ _ 0]] by (simp add: demo_sys_def at_def goto_def demo_cpool_def wants_expand_def)
  have 5: "demo_reaches (demo_sys [A_ping 1] ?q False)"
    using go [OF 4 cp_step.take [of _ 0 0 1 "Some 1" ?q]]
    by (simp add: demo_sys_def at_def goto_def demo_cpool_def can_take_def acquire_take_def emplace_def Let_def)
  have "fa_ping ?fa 1 demo_sql_conn = (True, demo_sql_conn)"
    by (simp add: db_factory_def ping_def execute_def conn_db_def demo_sql_conn_def demo_sqlite_def)
  then show ?thesis
    using go [OF 5 cp_step.ping [of _ 0 1 ?fa True demo_sql_conn]] by (simp add: demo_sys_def at_def goto_def)
qed

lemma demo_gone: "demo_reaches (demo_sys [A_end (Some 1)] (demo_cpool [] [1] [1 \<mapsto> 1] True) True)"
proof -
  note go = cp_reach.steps
  have 1: "demo_reaches (demo_sys [A_end (Some 1)] (demo_cpool [] [1] [1 \<mapsto> 1] True) False)"
    using go [OF demo_held cp_step.stop] by (simp add: demo_sys_def demo_cpool_def cpool_stop_def)
  then show ?thesis
    using go [OF 1 cp_step.drain] by (simp add: demo_sys_def demo_cpool_def ended_def cpool_drain.simps)
qed

lemma card_set_mset: "card (set_mset M) \<le> size M"
  by (induction M) (auto simp: card_insert_if)

text \<open>Property C32. The counter of a pool with \<open>min_conn \<le> max_conn\<close> is exact and bounds its connections, in every
  interleaving of \<open>acquire\<close>, \<open>expand\<close>, \<open>release\<close>, the scanner and the beginning of the destructor:
  \<open>total_conn_\<close> is at most \<open>max_conn\<close> and, before the stop, exactly the idle connections, those in use
  and the slots that running expansions reserved; the connections alive are at most \<open>max_conn\<close> and one
  more for each task that is about to delete a connection whose \<open>ping\<close> failed: such a task gives the
  slot back under the lock and deletes the object later, so \<open>max_conn\<close> alone is no bound, and the
  witness is a run of a pool with \<open>max_conn = 1\<close> that has two live connections.\<close>

theorem pool_bounded:
  assumes "min_conn \<le> max_conn" "cp_reach (db_factory sq) (db_use sq) min_conn max_conn w0 s" "\<not> sy_gone s"
  shows "card (connections (sy_world s) - connections w0) \<le> unat max_conn + length (filter doomed (sy_acq s)) \<and>
    unat (cp_total_conn (sy_pool s)) \<le> unat max_conn \<and>
    (if cp_stopping (sy_pool s) then slots s \<le> unat (cp_total_conn (sy_pool s)) else slots s = unat (cp_total_conn (sy_pool s)))"
proof -
  have inv: "cp_inv connections (connections w0) s"
    using cp_reach_inv [OF dbp.pool_client_axioms assms(1,2)] assms(3) by simp
  have "connections (sy_world s) - connections w0 \<subseteq> set_mset (all_conns s)" using cp_invD(2,3) [OF inv] by auto
  then have "card (connections (sy_world s) - connections w0) \<le> size (all_conns s)"
    using card_mono [of "set_mset (all_conns s)"] card_set_mset [of "all_conns s"] by (meson finite_set_mset order.trans)
  moreover have "size (all_conns s) \<le> slots s + length (filter doomed (sy_acq s))" by (rule conns_size [OF inv])
  moreover have "unat (cp_total_conn (sy_pool s)) \<le> unat max_conn" using cp_invD(8) [OF inv] reach_config [OF assms(2)] by simp
  ultimately show ?thesis using cp_inv_slots [OF inv] by auto
qed

lemma held_twice:
  assumes "i < length as" "j < length as" "i \<noteq> j" "c \<in># held (as ! i)" "c \<in># held (as ! j)"
  shows "2 \<le> count (sum_list (map held as)) c"
proof -
  have "held (as ! j) \<subseteq># sum_list (map held (as[i := A_start]))"
    using assms(2,3) sum_list_mset [of "as ! j" "as[i := A_start]" held] nth_mem [of j "as[i := A_start]"] by simp
  then have "1 \<le> count (sum_list (map held (as[i := A_start]))) c"
    using assms(5) by (metis count_greater_eq_one_iff mset_subset_eqD)
  moreover have "1 \<le> count (held (as ! i)) c" using assms(4) by simp
  moreover have "sum_list (map held as) = sum_list (map held (as[i := A_start])) + held (as ! i)"
    using sum_list_update_eq [OF assms(1), of held A_start] by simp
  then have "count (sum_list (map held as)) c = count (sum_list (map held (as[i := A_start]))) c + count (held (as ! i)) c"
    unfolding count_union [symmetric] by (rule arg_cong)
  ultimately show ?thesis by linarith
qed

text \<open>Property C33. In a pool with \<open>min_conn \<le> max_conn\<close> a lease is exclusive: in every reachable state no two tasks or guards hold the same
  connection; each connection held is a live object, is in \<open>in_use_\<close> exactly once and not in \<open>idle_\<close>,
  so neither the scanner nor the destructor deletes it and no other \<open>acquire\<close> gets it.\<close>

theorem pool_leases:
  assumes "min_conn \<le> max_conn" "cp_reach (db_factory sq) (db_use sq) min_conn max_conn w0 s" "\<not> sy_gone s"
    and "i < length (sy_acq s)" "c \<in># held (sy_acq s ! i)"
  shows "(\<forall>j < length (sy_acq s). j \<noteq> i \<longrightarrow> c \<notin># held (sy_acq s ! j)) \<and> c \<in> connections (sy_world s) \<and>
    count (mset (cp_in_use (sy_pool s))) c = 1 \<and> c \<notin> set (cp_idle (sy_pool s))"
proof -
  have inv: "cp_inv connections (connections w0) s"
    using cp_reach_inv [OF dbp.pool_client_axioms assms(1,2)] assms(3) by simp
  have one: "count (mset (cp_idle (sy_pool s))) c + count (mset (cp_in_use (sy_pool s))) c \<le> 1"
    using cp_invD(1) [OF inv, of c] by (simp add: all_conns_def)
  have use: "count (sum_list (map held (sy_acq s))) c = count (mset (cp_in_use (sy_pool s))) c"
    using cp_invD(4) [OF inv] by (simp add: sums_def)
  have "held (sy_acq s ! i) \<subseteq># sum_list (map held (sy_acq s))" by (rule sum_list_mset [OF nth_mem [OF assms(4)]])
  then have h: "1 \<le> count (mset (cp_in_use (sy_pool s))) c"
    using use assms(5) by (metis count_greater_eq_one_iff mset_subset_eqD)
  then have "count (mset (cp_in_use (sy_pool s))) c = 1" "count (mset (cp_idle (sy_pool s))) c = 0" using one by linarith+
  moreover have "c \<in> connections (sy_world s)" using cp_invD(2) [OF inv] h by (simp add: all_conns_def)
  moreover have "\<forall>j < length (sy_acq s). j \<noteq> i \<longrightarrow> c \<notin># held (sy_acq s ! j)"
    using held_twice [OF assms(4) _ _ assms(5)] use one by fastforce
  ultimately show ?thesis by (simp add: count_eq_zero_iff)
qed

text \<open>Property C34. The destructor of a pool with \<open>min_conn \<le> max_conn\<close> deletes every idle connection and nothing else: once it is done, what
  lives of the pool's connections is exactly what the guards still hold. Those are never deleted:
  their guards would call \<open>release\<close> of a pool that is gone.\<close>

theorem pool_shutdown:
  assumes "min_conn \<le> max_conn" "cp_reach (db_factory sq) (db_use sq) min_conn max_conn w0 s" "sy_gone s"
  shows "cp_idle (sy_pool s) = [] \<and> connections (sy_world s) = connections w0 \<union> set (cp_in_use (sy_pool s)) \<and>
    connections w0 \<inter> set (cp_in_use (sy_pool s)) = {} \<and> mset (cp_in_use (sy_pool s)) = sum_list (map held (sy_acq s))"
proof -
  have "cp_end connections (connections w0) s"
    using cp_reach_inv [OF dbp.pool_client_axioms assms(1,2)] assms(3) by simp
  then show ?thesis by (simp add: cp_end_def sums_def)
qed

fun rank :: "acq \<Rightarrow> nat" where
  "rank A_start = 9" | "rank A_grow = 8" | "rank A_expand = 7" | "rank (A_reserved need) = 6" | "rank (A_made need tem) = 5"
| "rank (A_wait start) = 4" | "rank (A_ping c) = 3" | "rank (A_bad c) = 2" | "rank (A_doomed c) = 1" | "rank (A_end r) = 0"

lemma goto_nth: "at s j a \<Longrightarrow> i < length (sy_acq s) \<Longrightarrow> sy_acq (goto s j b p w) ! i = (if i = j then b else sy_acq s ! i)"
  by (auto simp: goto_def)

lemma goto_rank:
  assumes "s' = goto s j b p w" "at s j a" "i < length (sy_acq s)" "rank b < rank a"
  shows "sy_acq s' ! i = sy_acq s ! i \<or> rank (sy_acq s' ! i) < rank (sy_acq s ! i) \<or> R"
  using assms goto_nth [OF assms(2,3)] by (auto simp: at_def)

lemma step_rank:
  assumes "cp_step fa use s s'" "i < length (sy_acq s)"
  shows "sy_acq s' ! i = sy_acq s ! i \<or> rank (sy_acq s' ! i) < rank (sy_acq s ! i) \<or>
    (\<exists>c. sy_acq s ! i = A_end (Some c) \<and> sy_acq s' ! i = A_end None)"
  using assms(1)
proof cases
  case call
  then show ?thesis using assms(2) by (simp add: nth_append)
next
  case (give_back j c now p n w)
  then show ?thesis using goto_nth [OF give_back(2) assms(2)] by (auto simp: at_def)
next
  case (works j c w)
  then show ?thesis by simp
next
  case (scan rs clock bs ws p w)
  then show ?thesis by simp
next
  case stop
  then show ?thesis by simp
next
  case (drain p w)
  then show ?thesis by simp
qed (rule goto_rank, assumption, assumption, rule assms(2), simp split: option.split)+

lemma step_exists:
  assumes "\<not> sy_gone s" "i < length (sy_acq s)" "\<forall>r. sy_acq s ! i \<noteq> A_end r"
  shows "\<exists>b p w. cp_step fa use s (goto s i b p w) \<and> rank b < rank (sy_acq s ! i)"
proof -
  have a: "at s i (sy_acq s ! i)" using assms by (simp add: at_def)
  show ?thesis
  proof (cases "sy_acq s ! i")
    case A_start
    then show ?thesis using a cp_step.refuse [of s i] cp_step.begins [of s i] by (cases "cp_stopping (sy_pool s)") fastforce+
  next
    case A_grow
    then show ?thesis using a cp_step.decide [of s i] by (fastforce split: if_splits)
  next
    case A_expand
    obtain need p where "expand_reserve (sy_pool s) = (need, p)" by fastforce
    from cp_step.reserve [OF a [unfolded A_expand] this] show ?thesis using A_expand by (fastforce split: if_splits)
  next
    case (A_reserved need)
    obtain tem w where "expand_loop fa (cp_filename (sy_pool s)) 0 need [] (sy_world s) = (tem, w)" by fastforce
    from cp_step.make [OF a [unfolded A_reserved] this] show ?thesis using A_reserved by fastforce
  next
    case (A_made need tem)
    from cp_step.commit [OF a [unfolded A_made]] show ?thesis using A_made by fastforce
  next
    case (A_wait start)
    show ?thesis
    proof (cases "can_take (sy_pool s)")
      case True
      obtain r p where "acquire_take (sy_pool s) 0 = (r, p)" by fastforce
      from cp_step.take [OF a [unfolded A_wait] True this] show ?thesis using A_wait by (fastforce split: option.splits)
    next
      case False
      from cp_step.give_up [OF a [unfolded A_wait] False, of "start + seconds 5"] show ?thesis using A_wait by fastforce
    qed
  next
    case (A_ping c)
    obtain ok w where "fa_ping fa c (sy_world s) = (ok, w)" by fastforce
    from cp_step.ping [OF a [unfolded A_ping] this] show ?thesis using A_ping by (fastforce split: if_splits)
  next
    case (A_bad c)
    from cp_step.drop_bad [OF a [unfolded A_bad]] show ?thesis using A_bad by fastforce
  next
    case (A_doomed c)
    from cp_step.delete_bad [OF a [unfolded A_doomed]] show ?thesis using A_doomed by fastforce
  next
    case (A_end r)
    then show ?thesis using assms(3) by blast
  qed
qed

text \<open>Every \<open>acquire\<close> ends: whatever the other threads do, a task only moves forward
  through its at most nine sections (no step of anyone sends it back), and until its guard is
  made it can always take a step of its own, the wait for a connection included, which takes one that
  is idle and gives up after five seconds.\<close>

theorem acquire_ends:
  assumes "\<not> sy_gone s" "i < length (sy_acq s)"
  shows "(\<forall>s'. cp_step (db_factory sq) (db_use sq) s s' \<longrightarrow> sy_acq s' ! i = sy_acq s ! i \<or>
      rank (sy_acq s' ! i) < rank (sy_acq s ! i) \<or> (\<exists>c. sy_acq s ! i = A_end (Some c) \<and> sy_acq s' ! i = A_end None)) \<and>
    ((\<forall>r. sy_acq s ! i \<noteq> A_end r) \<longrightarrow>
      (\<exists>b p w. cp_step (db_factory sq) (db_use sq) s (goto s i b p w) \<and> rank b < rank (sy_acq s ! i)))"
  using step_rank [OF _ assms(2)] step_exists [OF assms] by blast

section \<open>Instances\<close>

text \<open>A database that is locked: every statement fails, so every \<open>ping\<close> does. The first task finds its
  connection bad and gives the slot back; before it deletes the object, the second task creates one.\<close>

definition locked_sqlite :: "demo_sql sqlite" where
  "locked_sqlite = demo_sqlite\<lparr>sq_exec := \<lambda>h sql s. (SQLITE_BUSY, Some ''database is locked'', s)\<rparr>"

definition locked_pool :: "addr list \<Rightarrow> addr list \<Rightarrow> (addr \<rightharpoonup> time) \<Rightarrow> u64 \<Rightarrow> cpool" where
  "locked_pool idle in_use borrow tc = (demo_cpool idle in_use borrow False)\<lparr>cp_max_conn := 1, cp_total_conn := tc\<rparr>"

definition locked_sys :: "acq list \<Rightarrow> cpool \<Rightarrow> addr list \<Rightarrow> complaint list \<Rightarrow> demo_sql db_world cp_sys" where
  "locked_sys as p conns cerr = \<lparr>sy_pool = p, sy_acq = as, sy_gone = False,
     sy_world = \<lparr>dw_heap = map (\<lambda>a. (a, Connection_obj (Some a))) conns, dw_cerr = cerr, dw_sql = (conns, [])\<rparr>\<rparr>"

abbreviation locked_reaches :: "demo_sql db_world cp_sys \<Rightarrow> bool" where
  "locked_reaches \<equiv> cp_reach (db_factory locked_sqlite) (db_use locked_sqlite) 1 1 (empty_world ([], []))"

lemmas locked_defs = locked_sys_def locked_pool_def demo_cpool_def locked_sqlite_def at_def goto_def

lemma locked_dropped:
  "locked_reaches (locked_sys [A_doomed 1, A_start] (locked_pool [] [] Map.empty 0) [1] [Execute_error ''database is locked''])"
proof -
  let ?fa = "db_factory locked_sqlite" and ?p = "locked_pool [1] [] Map.empty 1" and ?q = "locked_pool [] [1] [1 \<mapsto> 0] 1"
    and ?e = "[Execute_error ''database is locked'']"
  note go = cp_reach.steps
  have "cpool_new ?fa ''a.db'' 1 1 (empty_world ([], [])) = (?p, sy_world (locked_sys [] ?p [1] []))"
    by (simp add: cpool_new_def db_factory_def demo_defs locked_defs Let_def)
  from cp_reach.built [OF this] have 1: "locked_reaches (locked_sys [] ?p [1] [])" by (simp add: locked_sys_def)
  have 2: "locked_reaches (locked_sys [A_start] ?p [1] [])" using go [OF 1 cp_step.call] by (simp add: locked_sys_def)
  have 3: "locked_reaches (locked_sys [A_start, A_start] ?p [1] [])" using go [OF 2 cp_step.call] by (simp add: locked_sys_def)
  have 4: "locked_reaches (locked_sys [A_grow, A_start] ?p [1] [])"
    using go [OF 3 cp_step.begins [of _ 0]] by (simp add: locked_defs)
  have 5: "locked_reaches (locked_sys [A_wait 0, A_start] ?p [1] [])"
    using go [OF 4 cp_step.decide [of _ 0 _ _ 0]] by (simp add: locked_defs wants_expand_def)
  have 6: "locked_reaches (locked_sys [A_ping 1, A_start] ?q [1] [])"
    using go [OF 5 cp_step.take [of _ 0 0 0 "Some 1" ?q]]
    by (simp add: locked_defs can_take_def acquire_take_def emplace_def Let_def)
  have "fa_ping ?fa 1 (sy_world (locked_sys [] ?q [1] [])) = (False, sy_world (locked_sys [] ?q [1] ?e))"
    by (simp add: db_factory_def ping_def execute_def conn_db_def complain_def locked_defs)
  then have 7: "locked_reaches (locked_sys [A_bad 1, A_start] ?q [1] ?e)"
    using go [OF 6 cp_step.ping [of _ 0 1 ?fa False]] by (simp add: locked_sys_def at_def goto_def)
  show ?thesis
    using go [OF 7 cp_step.drop_bad [of _ 0 1]] by (simp add: locked_defs ping_failed_def)
qed

lemma locked_exceeded:
  "locked_reaches (locked_sys [A_doomed 1, A_made 1 [2]] (locked_pool [] [] Map.empty 1) [2, 1] [Execute_error ''database is locked''])"
proof -
  let ?fa = "db_factory locked_sqlite" and ?p = "locked_pool [] [] Map.empty" and ?e = "[Execute_error ''database is locked'']"
  note go = cp_reach.steps
  have 1: "locked_reaches (locked_sys [A_doomed 1, A_grow] (?p 0) [1] ?e)"
    using go [OF locked_dropped cp_step.begins [of _ 1]] by (simp add: locked_defs)
  have 2: "locked_reaches (locked_sys [A_doomed 1, A_expand] (?p 0) [1] ?e)"
    using go [OF 1 cp_step.decide [of _ 1]] by (simp add: locked_defs wants_expand_def)
  have 3: "locked_reaches (locked_sys [A_doomed 1, A_reserved 1] (?p 1) [1] ?e)"
    using go [OF 2 cp_step.reserve [of _ 1 1 "?p 1"]] by (simp add: locked_defs expand_reserve_def)
  have "expand_loop ?fa ''a.db'' 0 1 [] (sy_world (locked_sys [] (?p 1) [1] ?e)) = ([2], sy_world (locked_sys [] (?p 1) [2, 1] ?e))"
    by (simp add: expand_loop.simps db_factory_def demo_defs locked_defs isValid_def conn_db_def Let_def numeral_2_eq_2)
  then show ?thesis
    using go [OF 3 cp_step.make [of _ 1 1 ?fa "[2]"]] by (simp add: locked_sys_def locked_pool_def demo_cpool_def at_def goto_def)
qed

lemma pool_bounded_witness:
  "\<exists>s. locked_reaches s \<and> card (connections (sy_world s) - connections (empty_world ([], []) :: demo_sql db_world)) = 2 \<and>
    length (filter doomed (sy_acq s)) = 1 \<and> unat (cp_total_conn (sy_pool s)) \<le> 1"
proof -
  let ?s = "locked_sys [A_doomed 1, A_made 1 [2]] (locked_pool [] [] Map.empty 1) [2, 1] [Execute_error ''database is locked'']"
  have "connections (sy_world ?s) - connections (empty_world ([], []) :: demo_sql db_world) = {1, 2}"
    by (auto simp: connections_def empty_world_def locked_sys_def)
  moreover have "unat (cp_total_conn (sy_pool ?s)) \<le> 1"
    using pool_bounded [OF _ locked_exceeded] by (simp add: locked_sys_def)
  ultimately show ?thesis using locked_exceeded by (intro exI [of _ ?s]) (simp add: locked_sys_def doomed_def)
qed

lemma pool_leases_witness:
  "1 \<in> connections demo_sql_conn \<and> (1::addr) \<notin> set (cp_idle (demo_cpool [] [1] [1 \<mapsto> 1] False))"
  using pool_leases [OF _ demo_held, of 0 1] by (simp add: demo_sys_def)

lemma pool_shutdown_witness:
  "connections demo_sql_conn = connections (empty_world ([], []) :: demo_sql db_world) \<union> {1}"
  using pool_shutdown [OF _ demo_gone] by (simp add: demo_sys_def demo_cpool_def)

lemma acquire_ends_witness:
  "\<exists>b p w. cp_step (db_factory demo_sqlite) (db_use demo_sqlite) (demo_sys [A_start] (demo_cpool [1] [] Map.empty False) False)
     (goto (demo_sys [A_start] (demo_cpool [1] [] Map.empty False) False) 0 b p w) \<and> rank b < 9"
  using acquire_ends [of "demo_sys [A_start] (demo_cpool [1] [] Map.empty False) False" 0 demo_sqlite]
  by (simp add: demo_sys_def)

end
