(* ===== verification/Trace.thy ===== *)
theory Trace
  imports Prelude
begin

text \<open>
  Trace ids, \<open>src/Trace.cpp\<close> and \<open>include/Trace.h\<close>: the ids with the order of \<open>operator<\<close>, their text, the
  process-wide counter and the current id of each thread. The clock is an argument.
\<close>

section \<open>TraceID\<close>

datatype TraceID = TraceID (timestamp: u64) (counter: u64)

definition empty_id :: TraceID where
  "empty_id = TraceID 0 0"

definition isempty :: "TraceID \<Rightarrow> bool" where
  "isempty t \<longleftrightarrow> timestamp t = 0 \<and> counter t = 0"

definition trace_less :: "TraceID \<Rightarrow> TraceID \<Rightarrow> bool" where
  "trace_less t other \<longleftrightarrow> (if timestamp t \<noteq> timestamp other then timestamp t < timestamp other else counter t < counter other)"

instantiation TraceID :: linorder
begin

definition less_TraceID :: "TraceID \<Rightarrow> TraceID \<Rightarrow> bool" where
  "less_TraceID = trace_less"

definition less_eq_TraceID :: "TraceID \<Rightarrow> TraceID \<Rightarrow> bool" where
  "less_eq_TraceID t other \<longleftrightarrow> t = other \<or> trace_less t other"

instance
  by standard (auto simp: less_TraceID_def less_eq_TraceID_def trace_less_def intro: TraceID.expand split: if_splits)

end

text \<open>\<open>std::to_string\<close>.\<close>

definition digit :: "nat \<Rightarrow> char" where
  "digit n = char_of (48 + n)"

fun decimal :: "nat \<Rightarrow> string" where
  "decimal n = (if n < 10 then [digit n] else decimal (n div 10) @ [digit (n mod 10)])"

declare decimal.simps [simp del]

definition toString :: "TraceID \<Rightarrow> string" where
  "toString t = ''['' @ ''Trace'' @ '']['' @ decimal (unat (timestamp t)) @ '']['' @ decimal (unat (counter t)) @ '']''"

section \<open>Trace\<close>

record trace =
  tr_counter :: u64
  tr_current_id :: "nat \<Rightarrow> TraceID"

definition trace_init :: trace where
  "trace_init = \<lparr>tr_counter = 0, tr_current_id = (\<lambda>thread. empty_id)\<rparr>"

text \<open>The clock gives milliseconds as a signed number; \<open>fetch_add\<close> is one step.\<close>

definition generateID :: "int \<Rightarrow> trace \<Rightarrow> TraceID \<times> trace" where
  "generateID ms tr = (TraceID (word_of_int ms) (tr_counter tr), tr\<lparr>tr_counter := tr_counter tr + 1\<rparr>)"

definition getCurrentID :: "nat \<Rightarrow> trace \<Rightarrow> TraceID" where
  "getCurrentID thread tr = tr_current_id tr thread"

definition setCurrentID :: "nat \<Rightarrow> TraceID \<Rightarrow> trace \<Rightarrow> trace" where
  "setCurrentID thread t tr = tr\<lparr>tr_current_id := (tr_current_id tr)(thread := t)\<rparr>"

definition clearCurrentID :: "nat \<Rightarrow> trace \<Rightarrow> trace" where
  "clearCurrentID thread tr = setCurrentID thread empty_id tr"

section \<open>The text of an id\<close>

lemma digit_inj: "m < 10 \<Longrightarrow> n < 10 \<Longrightarrow> digit m = digit n \<Longrightarrow> m = n"
proof -
  assume a: "m < 10" "n < 10" "digit m = digit n"
  then have "of_char (digit m) = (of_char (digit n) :: nat)" by simp
  then show ?thesis using a(1,2) by (simp add: digit_def)
qed

lemma decimal_nonempty: "decimal n \<noteq> []"
  by (simp add: decimal.simps [of n])

lemma decimal_inj: "decimal m = decimal n \<Longrightarrow> m = n"
proof (induction m arbitrary: n rule: less_induct)
  case (less m)
  have long: "decimal k = decimal (k div 10) @ [digit (k mod 10)]" if "\<not> k < 10" for k
    using that by (simp add: decimal.simps [of k])
  have short: "decimal k = [digit k]" if "k < 10" for k using that by (simp add: decimal.simps [of k])
  show ?case
  proof (cases "m < 10")
    case True
    then have "n < 10" using less.prems long [of n] short [of m] decimal_nonempty [of "n div 10"] by (cases "n < 10") auto
    then show ?thesis using less.prems True short digit_inj by simp
  next
    case False
    then have n: "\<not> n < 10" using less.prems long [of m] short [of n] decimal_nonempty [of "m div 10"] by auto
    then have "decimal (m div 10) = decimal (n div 10)" "digit (m mod 10) = digit (n mod 10)" using less.prems False long by auto
    then have "m div 10 = n div 10" "m mod 10 = n mod 10" using less.IH [of "m div 10"] False digit_inj by auto
    then show ?thesis by (metis div_mult_mod_eq)
  qed
qed

definition is_digit :: "char \<Rightarrow> bool" where
  "is_digit c \<longleftrightarrow> 48 \<le> (of_char c :: nat) \<and> of_char c \<le> (57 :: nat)"

lemma of_char_digit [simp]: "n < 10 \<Longrightarrow> of_char (digit n) = (48 + of_nat n :: int)"
proof -
  assume "n < 10"
  then have "(of_char (digit n) :: nat) = 48 + n" by (simp add: digit_def)
  then have "int (of_char (digit n)) = 48 + int n" by simp
  then show ?thesis by (simp only: of_nat_of_char)
qed

lemma is_digit_digit [simp]: "n < 10 \<Longrightarrow> is_digit (digit n)"
  by (simp add: is_digit_def digit_def)

lemma decimal_digits: "list_all is_digit (decimal n)"
proof (induction n rule: decimal.induct)
  case (1 n)
  then show ?case by (cases "n < 10") (simp_all add: decimal.simps [of n])
qed

lemma decimal_without: "\<not> is_digit c \<Longrightarrow> c \<notin> set (decimal n)"
  using decimal_digits [of n] by (auto simp: list_all_iff)

lemma decimal_bracket: "CHR '']'' \<notin> set (decimal n)"
  by (rule decimal_without) (simp add: is_digit_def)

text \<open>A text without the separator \<open>c\<close> ends where the first \<open>c\<close> is.\<close>

lemma upto_char:
  assumes "xs @ c # us = ys @ c # vs" "c \<notin> set xs" "c \<notin> set ys"
  shows "xs = ys \<and> us = vs"
  using assms
proof (induction xs arbitrary: ys)
  case Nil
  then show ?case by (cases ys) auto
next
  case (Cons x xs)
  then show ?case by (cases ys) auto
qed

lemmas upto_bracket = upto_char [where c = "CHR '']''"]

lemma toString_append:
  "toString t @ us = ''[Trace]['' @ decimal (unat (timestamp t)) @ CHR '']'' # ''['' @ decimal (unat (counter t)) @ CHR '']'' # us"
  by (simp add: toString_def)

lemma toString_prefix:
  assumes "toString t @ us = toString t' @ vs"
  shows "t = t' \<and> us = vs"
proof -
  have "decimal (unat (timestamp t)) = decimal (unat (timestamp t')) \<and>
      ''['' @ decimal (unat (counter t)) @ CHR '']'' # us = ''['' @ decimal (unat (counter t')) @ CHR '']'' # vs"
    using assms unfolding toString_append by (intro upto_bracket decimal_bracket) simp_all
  moreover from this have "decimal (unat (counter t)) = decimal (unat (counter t')) \<and> us = vs"
    by (intro upto_bracket decimal_bracket) simp_all
  ultimately have "timestamp t = timestamp t'" "counter t = counter t'" "us = vs"
    using decimal_inj by (auto simp: word_unat_eq_iff)
  then show ?thesis by (simp add: TraceID.expand)
qed

section \<open>Generated ids\<close>

datatype trace_op = Generate nat int | Set_current nat TraceID | Clear_current nat

fun trace_run1 :: "trace_op \<Rightarrow> trace \<times> TraceID list \<Rightarrow> trace \<times> TraceID list" where
  "trace_run1 (Generate thread ms) (tr, ids) = (case generateID ms tr of (t, tr) \<Rightarrow> (tr, ids @ [t]))"
| "trace_run1 (Set_current thread t) (tr, ids) = (setCurrentID thread t tr, ids)"
| "trace_run1 (Clear_current thread) (tr, ids) = (clearCurrentID thread tr, ids)"

definition trace_run :: "trace_op list \<Rightarrow> trace \<times> TraceID list" where
  "trace_run ops = fold trace_run1 ops (trace_init, [])"

lemma trace_run_counter:
  "map counter (snd (trace_run ops)) = map of_nat [0..<length (snd (trace_run ops))] \<and>
   tr_counter (fst (trace_run ops)) = of_nat (length (snd (trace_run ops)))"
proof (induction ops rule: rev_induct)
  case Nil
  then show ?case by (simp add: trace_run_def trace_init_def)
next
  case (snoc op ops)
  obtain tr ids where r: "trace_run ops = (tr, ids)" by fastforce
  have "trace_run (ops @ [op]) = trace_run1 op (tr, ids)" using r by (simp add: trace_run_def)
  then show ?case using snoc.IH r
    by (cases op) (auto simp: generateID_def setCurrentID_def clearCurrentID_def)
qed

text \<open>No two ids of a process are equal: whatever the clock says (it may stand still or go
  back) and in whatever order threads generate, set and clear ids, the first \<open>2 ^ 64\<close> generated ids are
  distinct, and printed they are distinct too.\<close>

theorem trace_ids_distinct:
  assumes "length (snd (trace_run ops)) \<le> 2 ^ 64"
  shows "distinct (snd (trace_run ops)) \<and> distinct (map toString (snd (trace_run ops)))"
proof -
  let ?ids = "snd (trace_run ops)"
  have "distinct (map (of_nat :: nat \<Rightarrow> u64) [0..<length ?ids])"
  proof (subst distinct_map, intro conjI inj_onI)
    fix i j assume "i \<in> set [0..<length ?ids]" "j \<in> set [0..<length ?ids]" "(of_nat i :: u64) = of_nat j"
    moreover have "k < length ?ids \<Longrightarrow> unat (of_nat k :: u64) = k" for k
      using assms by (simp add: unat_of_nat)
    ultimately show "i = j" by (metis atLeastLessThan_iff set_upt)
  qed simp
  then have "distinct (map counter ?ids)" using trace_run_counter [of ops] by simp
  then have d: "distinct ?ids" by (simp add: distinct_map)
  moreover have "inj toString" using toString_prefix [of _ "[]" _ "[]"] by (auto intro: injI)
  then have "distinct (map toString ?ids)" using d by (simp add: distinct_map inj_on_subset [OF _ subset_UNIV])
  ultimately show ?thesis ..
qed

lemma trace_ids_distinct_witness:
  "distinct (map toString [TraceID 7 0, TraceID 7 1, TraceID 5 2])"
  using trace_ids_distinct [of "[Generate 0 7, Set_current 0 (TraceID 7 0), Generate 1 7, Clear_current 0, Generate 0 5]"]
  by (simp add: trace_run_def trace_init_def generateID_def setCurrentID_def clearCurrentID_def)

end
