(* ===== verification/Logger.thy ===== *)
theory Logger
  imports Trace ThreadPool "HOL-Library.Sublist"
begin

text \<open>
  The logger of \<open>src/Logger.cpp\<close> and \<open>include/Logger.h\<close>: the line \<open>Format\<close> makes, the choice of the file in
  \<open>WriteToFile\<close>, and the writing of the lines by the one worker of the logger's own \<open>ThreadPool\<close>.
  The result of \<open>localtime\<close> is an argument. A file stream is open or not, and bad after
  a failed write; a bad stream takes nothing more. \<open>Rotate\<close> is declared and has no body.
\<close>

section \<open>Format\<close>

text \<open>An unscoped enumeration holds other values than its names too.\<close>

datatype LogLevel = INFO | WARN | ERROR | FATAL | Other_level int

fun level_str :: "LogLevel \<Rightarrow> string" where
  "level_str INFO = ''INFO''"
| "level_str WARN = ''WARN''"
| "level_str ERROR = ''ERROR''"
| "level_str FATAL = ''FATAL''"
| "level_str (Other_level n) = ''UNKNOWN''"

text \<open>\<open>GetCurrentTime\<close>: the local time that \<open>localtime\<close> gives, as \<open>strftime\<close> writes it with
  \<open>%Y-%m-%d %H:%M:%S\<close>; the text fits into the 64 bytes of the buffer. \<open>tm_year\<close> counts from 1900, \<open>tm_mon\<close> from 0.\<close>

record tm =
  tm_sec :: nat
  tm_min :: nat
  tm_hour :: nat
  tm_mday :: nat
  tm_mon :: nat
  tm_year :: nat

definition two_digits :: "nat \<Rightarrow> string" where
  "two_digits n = (if n < 10 then ''0'' @ decimal n else decimal n)"

definition GetCurrentTime :: "tm \<Rightarrow> string" where
  "GetCurrentTime t = decimal (tm_year t + 1900) @ ''-'' @ two_digits (tm_mon t + 1) @ ''-'' @ two_digits (tm_mday t) @ '' '' @
     two_digits (tm_hour t) @ '':'' @ two_digits (tm_min t) @ '':'' @ two_digits (tm_sec t)"

definition Format :: "TraceID \<Rightarrow> string \<Rightarrow> LogLevel \<Rightarrow> string \<Rightarrow> string \<Rightarrow> string" where
  "Format tid time_set level msg operation =
     (if isempty tid
      then ''[no-trace]['' @ time_set @ '']['' @ level_str level @ '']['' @ msg @ '']['' @ operation @ '']''
      else toString tid @ ''['' @ time_set @ '']['' @ level_str level @ '']['' @ msg @ '']['' @ operation @ '']'')"

section \<open>WriteToFile\<close>

datatype logfile = App_log | Old_app_log

datatype notice = Main_broken | Both_broken

record logger =
  lg_log_open :: bool
  lg_old_open :: bool
  lg_switched_to_backup :: bool
  lg_both_dead_warned :: bool
  lg_cout :: "notice list"
  lg_pool :: "(logfile \<times> string) pool"
  lg_bad :: "logfile \<Rightarrow> bool"
  lg_files :: "logfile \<Rightarrow> string list"

definition logger_new :: "bool \<Rightarrow> bool \<Rightarrow> logger" where
  "logger_new log_open old_open = \<lparr>lg_log_open = log_open, lg_old_open = old_open, lg_switched_to_backup = False,
     lg_both_dead_warned = False, lg_cout = [], lg_pool = pool_new 1, lg_bad = (\<lambda>f. False), lg_files = (\<lambda>f. [])\<rparr>"

text \<open>Under \<open>lock_mut\<close>. \<open>submit_push\<close> is the critical section of \<open>submit\<close>; its notification is a step of
  the pool.\<close>

definition WriteToFile :: "string \<Rightarrow> logger \<Rightarrow> logger" where
  "WriteToFile log_line lg =
     (if lg_log_open lg then lg\<lparr>lg_pool := submit_push (lg_pool lg) (App_log, log_line)\<rparr>
      else if lg_old_open lg
      then let lg = (if \<not> lg_switched_to_backup lg
              then lg\<lparr>lg_cout := lg_cout lg @ [Main_broken], lg_switched_to_backup := True\<rparr> else lg)
        in lg\<lparr>lg_pool := submit_push (lg_pool lg) (Old_app_log, log_line)\<rparr>
      else if \<not> lg_both_dead_warned lg
      then lg\<lparr>lg_cout := lg_cout lg @ [Both_broken], lg_both_dead_warned := True\<rparr>
      else lg)"

definition Log :: "trace \<Rightarrow> nat \<Rightarrow> string \<Rightarrow> LogLevel \<Rightarrow> string \<Rightarrow> string \<Rightarrow> logger \<Rightarrow> logger" where
  "Log tr thread time_set level msg operation lg =
     WriteToFile (Format (getCurrentID thread tr) time_set level msg operation) lg"

text \<open>The task: a line and \<open>std::endl\<close> to the stream; \<open>ok\<close> is whether the write succeeds.\<close>

definition write_line :: "bool \<Rightarrow> logfile \<times> string \<Rightarrow> logger \<Rightarrow> logger" where
  "write_line ok t lg = (case t of (f, log_line) \<Rightarrow>
     if lg_bad lg f then lg
     else if ok then lg\<lparr>lg_files := (lg_files lg)(f := lg_files lg f @ [log_line])\<rparr>
     else lg\<lparr>lg_bad := (lg_bad lg)(f := True)\<rparr>)"

text \<open>From one state to a later one: any threads log, the worker and the destructor of the pool take
  their steps. The lists are the lines logged before the stop, and the tasks the worker ran.\<close>

inductive log_run :: "logger \<Rightarrow> logger \<Rightarrow> string list \<Rightarrow> (logfile \<times> string) list \<Rightarrow> bool" for lg0 where
  stay: "log_run lg0 lg0 [] []"
| log: "log_run lg0 lg logged tried \<Longrightarrow>
    log_run lg0 (Log tr thread time_set level msg operation lg)
      (if tp_stopping (lg_pool lg) then logged else logged @ [Format (getCurrentID thread tr) time_set level msg operation]) tried"
| quiet: "log_run lg0 lg logged tried \<Longrightarrow> pool_step (lg_pool lg) Quiet p \<Longrightarrow>
    log_run lg0 (lg\<lparr>lg_pool := p\<rparr>) logged tried"
| starts: "log_run lg0 lg logged tried \<Longrightarrow> pool_step (lg_pool lg) (Started t) p \<Longrightarrow>
    log_run lg0 (lg\<lparr>lg_pool := p\<rparr>) logged tried"
| writes: "log_run lg0 lg logged tried \<Longrightarrow> pool_step (lg_pool lg) (Finished t) p \<Longrightarrow>
    log_run lg0 (write_line ok t (lg\<lparr>lg_pool := p\<rparr>)) logged (tried @ [t])"

abbreviation log_reach :: "bool \<Rightarrow> bool \<Rightarrow> logger \<Rightarrow> string list \<Rightarrow> (logfile \<times> string) list \<Rightarrow> bool" where
  "log_reach log_open old_open \<equiv> log_run (logger_new log_open old_open)"

section \<open>One worker\<close>

definition inside :: "'a pool \<Rightarrow> 'a list" where
  "inside p = concat (map task_of (tp_workers p))"

lemma one_worker_step:
  assumes "pool_step p l q" "length (tp_workers p) = 1"
  shows "length (tp_workers q) = 1 \<and> finished [l] @ inside q @ tp_tasks q = inside p @ tp_tasks p @ submitted [l]"
proof -
  obtain w where w: "tp_workers p = [w]" using assms(2) by (cases "tp_workers p") auto
  show ?thesis using assms(1) by cases (use w in \<open>auto simp: inside_def pool_ops\<close>)
qed

definition chosen :: "bool \<Rightarrow> bool \<Rightarrow> string \<Rightarrow> (logfile \<times> string) list" where
  "chosen log_open old_open log_line =
     (if log_open then [(App_log, log_line)] else if old_open then [(Old_app_log, log_line)] else [])"

definition for_file :: "logfile \<Rightarrow> (logfile \<times> string) list \<Rightarrow> string list" where
  "for_file f ts = map snd (filter (\<lambda>t. fst t = f) ts)"

definition files_ok :: "logger \<Rightarrow> (logfile \<times> string) list \<Rightarrow> bool" where
  "files_ok lg tried \<longleftrightarrow> (\<forall>f. if lg_bad lg f then prefix (lg_files lg f) (for_file f tried) else lg_files lg f = for_file f tried)"

definition log_inv :: "bool \<Rightarrow> bool \<Rightarrow> logger \<Rightarrow> string list \<Rightarrow> (logfile \<times> string) list \<Rightarrow> bool" where
  "log_inv log_open old_open lg logged tried \<longleftrightarrow>
     lg_log_open lg = log_open \<and> lg_old_open lg = old_open \<and> length (tp_workers (lg_pool lg)) = 1 \<and>
     tried @ inside (lg_pool lg) @ tp_tasks (lg_pool lg) = concat (map (chosen log_open old_open) logged) \<and>
     files_ok lg tried \<and>
     lg_cout lg = (if lg_switched_to_backup lg then [Main_broken] else if lg_both_dead_warned lg then [Both_broken] else []) \<and>
     (lg_switched_to_backup lg \<longrightarrow> \<not> log_open \<and> old_open) \<and> (lg_both_dead_warned lg \<longrightarrow> \<not> log_open \<and> \<not> old_open)"

lemma files_ok_pool: "files_ok (lg\<lparr>lg_pool := p\<rparr>) tried = files_ok lg tried"
  by (simp add: files_ok_def)

lemma log_invI_pool:
  assumes "log_inv lo oo lg logged tried" "length (tp_workers p) = 1"
    "tried @ inside p @ tp_tasks p = concat (map (chosen lo oo) logged')"
  shows "log_inv lo oo (lg\<lparr>lg_pool := p\<rparr>) logged' tried"
  using assms by (simp add: log_inv_def files_ok_pool)

lemma push_inside: "inside (submit_push p t) @ tp_tasks (submit_push p t) = inside p @ tp_tasks p @ (if tp_stopping p then [] else [t])"
  "length (tp_workers (submit_push p t)) = length (tp_workers p)"
  by (simp_all add: submit_push_def inside_def)

lemma log_inv_write:
  assumes "log_inv lo oo lg logged tried"
  shows "log_inv lo oo (WriteToFile log_line lg) (if tp_stopping (lg_pool lg) then logged else logged @ [log_line]) tried"
proof -
  note inv = assms [unfolded log_inv_def]
  have q: "tried @ inside (submit_push (lg_pool lg) (f, log_line)) @ tp_tasks (submit_push (lg_pool lg) (f, log_line)) =
      concat (map (chosen lo oo) logged) @ (if tp_stopping (lg_pool lg) then [] else [(f, log_line)])" for f
    using inv unfolding push_inside append_assoc [symmetric] by simp
  show ?thesis
  proof (cases "lo \<or> oo")
    case True
    then show ?thesis using inv q push_inside(2) [of "lg_pool lg"]
      by (auto simp: log_inv_def WriteToFile_def chosen_def Let_def files_ok_def)
  next
    case False
    then show ?thesis using inv by (auto simp: log_inv_def WriteToFile_def chosen_def files_ok_def)
  qed
qed

lemma write_line_same:
  "lg_log_open (write_line ok t lg) = lg_log_open lg" "lg_old_open (write_line ok t lg) = lg_old_open lg"
  "lg_switched_to_backup (write_line ok t lg) = lg_switched_to_backup lg" "lg_both_dead_warned (write_line ok t lg) = lg_both_dead_warned lg"
  "lg_cout (write_line ok t lg) = lg_cout lg" "lg_pool (write_line ok t lg) = lg_pool lg"
  by (simp_all add: write_line_def split: prod.split)

lemma files_ok_write:
  assumes "files_ok lg tried"
  shows "files_ok (write_line ok t lg) (tried @ [t])"
  unfolding files_ok_def
proof
  fix g
  obtain f log_line where t: "t = (f, log_line)" by fastforce
  have "if lg_bad lg g then prefix (lg_files lg g) (for_file g tried) else lg_files lg g = for_file g tried"
    using assms unfolding files_ok_def ..
  moreover have "for_file g (tried @ [t]) = (if g = f then for_file g tried @ [log_line] else for_file g tried)"
    by (simp add: for_file_def t)
  ultimately show "if lg_bad (write_line ok t lg) g then prefix (lg_files (write_line ok t lg) g) (for_file g (tried @ [t]))
      else lg_files (write_line ok t lg) g = for_file g (tried @ [t])"
    by (auto simp: write_line_def t split: if_splits)
qed

lemma log_inv_finish:
  assumes "log_inv lo oo lg logged tried" "pool_step (lg_pool lg) (Finished t) p"
  shows "log_inv lo oo (write_line ok t (lg\<lparr>lg_pool := p\<rparr>)) logged (tried @ [t])"
proof -
  have "length (tp_workers p) = 1" "t # inside p @ tp_tasks p = inside (lg_pool lg) @ tp_tasks (lg_pool lg)"
    using one_worker_step [OF assms(2)] assms(1) by (simp_all add: log_inv_def)
  moreover have "files_ok (write_line ok t (lg\<lparr>lg_pool := p\<rparr>)) (tried @ [t])"
    using assms(1) by (intro files_ok_write) (simp add: log_inv_def files_ok_pool)
  ultimately show ?thesis using assms(1) unfolding log_inv_def write_line_same by simp
qed

lemma log_reach_inv: "log_reach lo oo lg logged tried \<Longrightarrow> log_inv lo oo lg logged tried"
proof (induction rule: log_run.induct)
  case stay
  then show ?case by (simp add: log_inv_def logger_new_def pool_new_def inside_def for_file_def files_ok_def)
next
  case (log lg logged tried tr thread time_set level msg operation)
  then show ?case unfolding Log_def by (intro log_inv_write)
next
  case (quiet lg logged tried p)
  then show ?case using one_worker_step [OF quiet.hyps(2)] by (intro log_invI_pool) (simp_all add: log_inv_def)
next
  case (starts lg logged tried t p)
  then show ?case using one_worker_step [OF starts.hyps(2)] by (intro log_invI_pool) (simp_all add: log_inv_def)
next
  case (writes lg logged tried t p ok)
  then show ?case by (intro log_inv_finish)
qed

section \<open>After the stop\<close>

lemma log_run_trans: "log_run b c l2 t2 \<Longrightarrow> log_run a b l1 t1 \<Longrightarrow> log_run a c (l1 @ l2) (t1 @ t2)"
proof (induction rule: log_run.induct)
  case (log lg logged tried tr thread time_set level msg operation)
  then show ?case using log_run.log [of a lg "l1 @ logged" "t1 @ tried" tr thread time_set level msg operation]
    by (simp split: if_splits)
next
  case (writes lg logged tried t p ok)
  then show ?case using log_run.writes [of a lg "l1 @ logged" "t1 @ tried" t p ok] by simp
qed (auto intro: log_run.quiet log_run.starts)

lemma Log_stopping: "tp_stopping (lg_pool lg) \<Longrightarrow> lg_pool (Log tr thread time_set level msg operation lg) = lg_pool lg"
  by (simp add: Log_def WriteToFile_def submit_push_def Let_def)

text \<open>No line is accepted any more, and no task leaves the queue.\<close>

lemma log_run_stopping:
  assumes "log_run lg lg' logged tried" "tp_stopping (lg_pool lg)"
  shows "tp_stopping (lg_pool lg') \<and> tp_tasks (lg_pool lg') = tp_tasks (lg_pool lg) \<and> logged = []"
  using assms
proof (induction rule: log_run.induct)
  case (log lg' logged tried tr thread time_set level msg operation)
  then show ?case by (simp add: Log_stopping)
next
  case (quiet lg' logged tried p)
  then show ?case using step_queue [OF quiet.hyps(2)] stopping_step [OF quiet.hyps(2)] by simp
next
  case (starts lg' logged tried t p)
  then show ?case using stopping_started [OF starts.hyps(2)] by simp
next
  case (writes lg' logged tried t p ok)
  then show ?case using step_queue [OF writes.hyps(2)] stopping_step [OF writes.hyps(2)] by (simp add: write_line_same)
qed simp

section \<open>The head of a line\<close>

lemma level_bracket: "CHR '']'' \<notin> set (level_str l)"
  by (cases l) simp_all

definition log_tail :: "string \<Rightarrow> LogLevel \<Rightarrow> string \<Rightarrow> string \<Rightarrow> string" where
  "log_tail time_set level msg operation = time_set @ CHR '']'' # ''['' @ level_str level @ CHR '']'' # ''['' @ msg @ '']['' @ operation @ '']''"

lemma Format_tail:
  "Format tid time_set level msg operation =
    (if isempty tid then ''[no-trace]['' @ log_tail time_set level msg operation
     else toString tid @ ''['' @ log_tail time_set level msg operation)"
  by (simp add: Format_def log_tail_def)

lemma log_tail_eq:
  assumes "log_tail t l m o1 = log_tail t' l' m' o1'" "CHR '']'' \<notin> set t" "CHR '']'' \<notin> set t'"
  shows "t = t' \<and> level_str l = level_str l' \<and> m @ '']['' @ o1 = m' @ '']['' @ o1'"
proof -
  have 1: "t = t' \<and> ''['' @ level_str l @ CHR '']'' # ''['' @ m @ '']['' @ o1 @ '']'' =
      ''['' @ level_str l' @ CHR '']'' # ''['' @ m' @ '']['' @ o1' @ '']''"
    using assms unfolding log_tail_def by (rule upto_bracket)
  then have "level_str l @ CHR '']'' # (''['' @ m @ '']['' @ o1 @ '']'') = level_str l' @ CHR '']'' # (''['' @ m' @ '']['' @ o1' @ '']'')"
    by simp
  from upto_bracket [OF this level_bracket level_bracket] show ?thesis using 1 by simp
qed

section \<open>The time\<close>

text \<open>The fields as \<open>localtime\<close> fills them (a second of 60 is a leap second).\<close>

definition tm_ok :: "tm \<Rightarrow> bool" where
  "tm_ok t \<longleftrightarrow> tm_sec t \<le> 60 \<and> tm_min t < 60 \<and> tm_hour t < 24 \<and> tm_mday t \<le> 31 \<and> tm_mon t < 12"

lemma two_digits_length: "n < 100 \<Longrightarrow> length (two_digits n) = 2"
  by (simp add: two_digits_def decimal.simps [of n] decimal.simps [of "n div 10"])

lemma two_digits_inj: "m < 100 \<Longrightarrow> n < 100 \<Longrightarrow> two_digits m = two_digits n \<Longrightarrow> m = n"
proof -
  have head: "hd (decimal k) \<noteq> CHR ''0''" if "10 \<le> k" "k < 100" for k
  proof -
    have "decimal k = [digit (k div 10), digit (k mod 10)]" using that by (simp add: decimal.simps [of k] decimal.simps [of "k div 10"])
    moreover have "digit (k div 10) \<noteq> digit 0" using that digit_inj [of "k div 10" 0] by (auto simp: div_eq_0_iff less_mult_imp_div_less)
    moreover have "digit 0 = CHR ''0''" by code_simp
    ultimately show ?thesis by (metis list.sel(1))
  qed
  assume "m < 100" "n < 100" "two_digits m = two_digits n"
  then show "m = n"
    using head [of m] head [of n] by (auto simp: two_digits_def split: if_splits intro: decimal_inj dest: arg_cong [where f = hd])
qed

lemma time_bracket: "CHR '']'' \<notin> set (GetCurrentTime t)"
  using decimal_bracket by (simp add: GetCurrentTime_def two_digits_def)

lemma time_inj:
  assumes "GetCurrentTime t = GetCurrentTime t'" "tm_ok t" "tm_ok t'"
  shows "t = t'"
proof -
  have minus: "CHR ''-'' \<notin> set (decimal n)" for n by (rule decimal_without) (simp add: is_digit_def)
  have "decimal (tm_year t + 1900) = decimal (tm_year t' + 1900) \<and>
    two_digits (tm_mon t + 1) @ ''-'' @ two_digits (tm_mday t) @ '' '' @ two_digits (tm_hour t) @ '':'' @ two_digits (tm_min t) @ '':'' @ two_digits (tm_sec t) =
    two_digits (tm_mon t' + 1) @ ''-'' @ two_digits (tm_mday t') @ '' '' @ two_digits (tm_hour t') @ '':'' @ two_digits (tm_min t') @ '':'' @ two_digits (tm_sec t')"
    using assms(1) unfolding GetCurrentTime_def by (intro upto_char [OF _ minus minus]) simp
  then have "tm_year t = tm_year t'" "two_digits (tm_mon t + 1) = two_digits (tm_mon t' + 1)" "two_digits (tm_mday t) = two_digits (tm_mday t')"
    "two_digits (tm_hour t) = two_digits (tm_hour t')" "two_digits (tm_min t) = two_digits (tm_min t')" "two_digits (tm_sec t) = two_digits (tm_sec t')"
    using assms(2,3) by (auto simp: tm_ok_def two_digits_length append_eq_append_conv dest: decimal_inj)
  then have "tm_year t = tm_year t'" "tm_mon t + 1 = tm_mon t' + 1" "tm_mday t = tm_mday t'" "tm_hour t = tm_hour t'"
    "tm_min t = tm_min t'" "tm_sec t = tm_sec t'"
    using assms(2,3) two_digits_inj [of "tm_mon t + 1" "tm_mon t' + 1"] by (simp_all add: tm_ok_def two_digits_inj)
  then show ?thesis by (intro tm.equality) simp_all
qed

section \<open>Properties\<close>

text \<open>The head of a line is where the separators of the time and the level end it.\<close>

lemma log_line_head:
  assumes "Format tid time_set level msg operation = Format tid' time_set' level' msg' operation'"
    and "CHR '']'' \<notin> set time_set" "CHR '']'' \<notin> set time_set'"
  shows "tid = tid' \<and> time_set = time_set' \<and> level_str level = level_str level' \<and>
    msg @ '']['' @ operation = msg' @ '']['' @ operation'"
proof (cases "isempty tid")
  case True
  have "isempty tid'" using assms(1) True by (auto simp: Format_tail toString_def split: if_splits)
  then have "tid = tid'" using True by (simp add: isempty_def TraceID.expand)
  then show ?thesis using assms(1) True log_tail_eq [OF _ assms(2,3)] by (simp add: Format_tail)
next
  case False
  have "\<not> isempty tid'" using assms(1) False by (auto simp: Format_tail toString_def split: if_splits)
  then have "toString tid @ (''['' @ log_tail time_set level msg operation) = toString tid' @ (''['' @ log_tail time_set' level' msg' operation')"
    using assms(1) False by (simp add: Format_tail)
  from toString_prefix [OF this] have "tid = tid'" "log_tail time_set level msg operation = log_tail time_set' level' msg' operation'" by simp_all
  with log_tail_eq [OF this(2) assms(2,3)] show ?thesis by simp
qed

text \<open>Property C40. A log line reads back up to its message. Two calls of \<open>Format\<close> that make the same line
  have the same trace id, the same second of time and the same level, whatever the messages contain; the message
  and the operation are only known together, as one text (a message may contain the
  separator, as the witness shows).\<close>

theorem log_line_reads_back:
  assumes "Format tid (GetCurrentTime t) level msg operation = Format tid' (GetCurrentTime t') level' msg' operation'"
    and "tm_ok t" "tm_ok t'"
  shows "tid = tid' \<and> t = t' \<and> level_str level = level_str level' \<and> msg @ '']['' @ operation = msg' @ '']['' @ operation'"
  using log_line_head [OF assms(1) time_bracket time_bracket] time_inj [OF _ assms(2,3)] by blast

definition demo_time :: tm where
  "demo_time = \<lparr>tm_sec = 5, tm_min = 0, tm_hour = 10, tm_mday = 9, tm_mon = 11, tm_year = 125\<rparr>"

theorem log_line_reads_back_witness:
  "Format (TraceID 7 1) (GetCurrentTime demo_time) WARN ''a][b'' ''c'' = Format (TraceID 7 1) (GetCurrentTime demo_time) WARN ''a'' ''b][c'' \<and>
   GetCurrentTime demo_time = ''2025-12-09 10:00:05'' \<and> ''a][b'' @ '']['' @ ''c'' = ''a'' @ '']['' @ ''b][c''"
proof -
  have "GetCurrentTime demo_time = ''2025-12-09 10:00:05''" by code_simp
  then show ?thesis
    using log_line_reads_back [of "TraceID 7 1" demo_time WARN "''a][b''" "''c''" "TraceID 7 1" demo_time WARN "''a''" "''b][c''"]
    by (simp add: Format_def tm_ok_def demo_time_def)
qed

lemma for_file_append: "for_file f (xs @ ys) = for_file f xs @ for_file f ys"
  by (simp add: for_file_def)

lemma for_file_chosen:
  "for_file f (concat (map (chosen lo oo) ls)) = (if lo then (if f = App_log then ls else [])
     else if oo \<and> f = Old_app_log then ls else [])"
  by (induction ls) (cases f; auto simp: for_file_def chosen_def)+

text \<open>Property C37. Log lines keep their order and none is lost or doubled while the logger lives: in every
  interleaving of logging threads, the worker and the destructor, the file that was opened holds,
  as long as its writes succeed, the lines logged so far but those still with the worker or in the
  queue, in the order in which they were logged. A queue that is left at the stop is never written:
  whatever happens after the stop, nothing is accepted, the queue stays as it is, and the file gets
  at most the line the worker has in hand.\<close>

theorem logger_lines:
  assumes "log_reach log_open old_open lg logged tried" "log_open \<or> old_open"
    and "f = (if log_open then App_log else Old_app_log)" "\<not> lg_bad lg f"
  shows "lg_files lg f @ for_file f (inside (lg_pool lg) @ tp_tasks (lg_pool lg)) = logged \<and>
    (\<forall>lg' logged' tried'. tp_stopping (lg_pool lg) \<longrightarrow> log_run lg lg' logged' tried' \<longrightarrow>
      logged' = [] \<and> tp_tasks (lg_pool lg') = tp_tasks (lg_pool lg) \<and>
      prefix (lg_files lg' f) (lg_files lg f @ for_file f (inside (lg_pool lg))))"
proof -
  note inv = log_reach_inv [OF assms(1), unfolded log_inv_def files_ok_def]
  have tried: "lg_files lg f = for_file f tried" using inv assms(4) by metis
  then have "lg_files lg f @ for_file f (inside (lg_pool lg) @ tp_tasks (lg_pool lg)) =
      for_file f (concat (map (chosen log_open old_open) logged))"
    using inv by (metis for_file_append)
  moreover have "logged' = [] \<and> tp_tasks (lg_pool lg') = tp_tasks (lg_pool lg) \<and>
      prefix (lg_files lg' f) (lg_files lg f @ for_file f (inside (lg_pool lg)))"
    if stop: "tp_stopping (lg_pool lg)" and run: "log_run lg lg' logged' tried'" for lg' logged' tried'
  proof -
    note st = log_run_stopping [OF run stop]
    note inv' = log_reach_inv [OF log_run_trans [OF run assms(1)], unfolded log_inv_def]
    have "tried @ tried' @ inside (lg_pool lg') @ tp_tasks (lg_pool lg') = tried @ inside (lg_pool lg) @ tp_tasks (lg_pool lg)"
      using inv inv' st by simp
    then have "inside (lg_pool lg) = tried' @ inside (lg_pool lg')" using st by simp
    moreover have "prefix (lg_files lg' f) (for_file f (tried @ tried'))"
      using inv' unfolding files_ok_def by (metis prefix_order.refl)
    ultimately show ?thesis using st tried by (auto simp: for_file_append intro: prefix_order.trans)
  qed
  ultimately show ?thesis using assms(2,3) by (auto simp: for_file_chosen)
qed

text \<open>There is no failover: when the main log could be opened, no line ever goes to the backup
  and the switch is never announced, also after writes to the main log fail; from the first failed
  write on, the lines are lost.\<close>

theorem logger_no_failover:
  assumes "log_reach True old_open lg logged tried"
  shows "lg_files lg Old_app_log = [] \<and> lg_cout lg = [] \<and> prefix (lg_files lg App_log) logged"
proof -
  note inv = log_reach_inv [OF assms, unfolded log_inv_def files_ok_def]
  have f: "prefix (lg_files lg g) (for_file g tried)" for g using inv by (cases "lg_bad lg g") (metis prefix_order.refl)+
  have q: "for_file g tried @ for_file g (inside (lg_pool lg) @ tp_tasks (lg_pool lg)) = (if g = App_log then logged else [])" for g
    using inv for_file_chosen [of g True old_open logged] by (metis for_file_append)
  have "prefix (lg_files lg App_log) logged" using f [of App_log] q [of App_log] by (metis prefixI prefix_order.trans)
  moreover have "lg_files lg Old_app_log = []" using f [of Old_app_log] q [of Old_app_log] by simp
  ultimately show ?thesis using inv by auto
qed

section \<open>Instances\<close>

text \<open>A line is logged and written; then a write fails.\<close>

definition demo_tr :: trace where
  "demo_tr = setCurrentID 0 (TraceID 7 1) trace_init"

abbreviation demo_line :: string where
  "demo_line \<equiv> Format (TraceID 7 1) ''10:00'' INFO ''start'' ''main''"

definition demo_lg :: "nat \<Rightarrow> (logfile \<times> string) worker \<Rightarrow> (logfile \<times> string) list \<Rightarrow> bool \<Rightarrow> string list \<Rightarrow> logger" where
  "demo_lg n w ts bad ls = \<lparr>lg_log_open = True, lg_old_open = True, lg_switched_to_backup = False, lg_both_dead_warned = False,
     lg_cout = [], lg_pool = \<lparr>tp_workers = [w], tp_tasks = ts, tp_stopping = False, tp_notifying = n, tp_dtor = Alive\<rparr>,
     lg_bad = (\<lambda>f. False)(App_log := bad), lg_files = (\<lambda>f. [])(App_log := ls)\<rparr>"

lemma demo_log:
  assumes "log_reach True True (demo_lg n Check [] bad ls) logged tried"
  shows "log_reach True True (write_line ok (App_log, demo_line) (demo_lg (n + 1) Check [] bad ls)) (logged @ [demo_line]) (tried @ [(App_log, demo_line)])"
proof -
  let ?t = "(App_log, demo_line)"
  have "getCurrentID 0 demo_tr = TraceID 7 1" by (simp add: demo_tr_def getCurrentID_def setCurrentID_def)
  then have 1: "log_reach True True (demo_lg (n + 1) Check [?t] bad ls) (logged @ [demo_line]) tried"
    using log_run.log [OF assms, of demo_tr 0 "''10:00''" INFO "''start''" "''main''"]
    by (simp add: Log_def WriteToFile_def demo_lg_def submit_push_def)
  have "pool_step (lg_pool (demo_lg (n + 1) Check [?t] bad ls)) (Started ?t) (lg_pool (demo_lg (n + 1) (Running ?t) [] bad ls))"
    using pool_step.start [of 0 "lg_pool (demo_lg (n + 1) Check [?t] bad ls)" ?t "[]"] by (simp add: demo_lg_def worker_check_def)
  from log_run.starts [OF 1 this] have 2: "log_reach True True (demo_lg (n + 1) (Running ?t) [] bad ls) (logged @ [demo_line]) tried"
    by (simp add: demo_lg_def)
  have "pool_step (lg_pool (demo_lg (n + 1) (Running ?t) [] bad ls)) (Finished ?t) (lg_pool (demo_lg (n + 1) Check [] bad ls))"
    using pool_step.finish [of 0 "lg_pool (demo_lg (n + 1) (Running ?t) [] bad ls)" ?t] by (simp add: demo_lg_def worker_done_def)
  from log_run.writes [OF 2 this, of ok] show ?thesis by (simp add: demo_lg_def)
qed

lemma demo_written: "log_reach True True (demo_lg 1 Check [] False [demo_line]) [demo_line] [(App_log, demo_line)]"
proof -
  have "logger_new True True = demo_lg 0 Check [] False []" by (simp add: logger_new_def demo_lg_def pool_new_def fun_eq_iff)
  then have "log_reach True True (demo_lg 0 Check [] False []) [] []" using log_run.stay [of "logger_new True True"] by simp
  from demo_log [OF this, of True] show ?thesis by (simp add: write_line_def demo_lg_def)
qed

text \<open>A second line is logged, and the destructor begins before the worker takes it; the worker ends.\<close>

definition demo_stopped :: "(logfile \<times> string) worker \<Rightarrow> logger" where
  "demo_stopped w = (demo_lg 2 w [(App_log, demo_line)] False [demo_line])\<lparr>lg_pool :=
     pool_stop (lg_pool (demo_lg 2 w [(App_log, demo_line)] False [demo_line]))\<rparr>"

lemma demo_stopped_reach: "log_reach True True (demo_stopped Check) [demo_line, demo_line] [(App_log, demo_line)]"
proof -
  have "getCurrentID 0 demo_tr = TraceID 7 1" by (simp add: demo_tr_def getCurrentID_def setCurrentID_def)
  then have 1: "log_reach True True (demo_lg 2 Check [(App_log, demo_line)] False [demo_line]) [demo_line, demo_line] [(App_log, demo_line)]"
    using log_run.log [OF demo_written, of demo_tr 0 "''10:00''" INFO "''start''" "''main''"]
    by (simp add: Log_def WriteToFile_def demo_lg_def submit_push_def numeral_2_eq_2)
  have "pool_step (lg_pool (demo_lg 2 Check [(App_log, demo_line)] False [demo_line])) Quiet
      (pool_stop (lg_pool (demo_lg 2 Check [(App_log, demo_line)] False [demo_line])))"
    by (rule pool_step.stop) (simp add: demo_lg_def)
  from log_run.quiet [OF 1 this] show ?thesis unfolding demo_stopped_def .
qed

lemma demo_stopped_run: "log_run (demo_stopped Check) (demo_stopped Exited) [] []"
proof -
  have "pool_step (lg_pool (demo_stopped Check)) Quiet (lg_pool (demo_stopped Exited))"
    using pool_step.sleep [of 0 "lg_pool (demo_stopped Check)"] by (simp add: demo_stopped_def demo_lg_def worker_check_def pool_stop_def)
  from log_run.quiet [OF log_run.stay this] show ?thesis by (simp add: demo_stopped_def demo_lg_def)
qed

lemma logger_lines_witness:
  "lg_files (demo_stopped Check) App_log @ [demo_line] = [demo_line, demo_line] \<and>
   tp_tasks (lg_pool (demo_stopped Exited)) = [(App_log, demo_line)] \<and> prefix (lg_files (demo_stopped Exited) App_log) [demo_line]"
proof -
  have s: "\<not> lg_bad (demo_stopped Check) App_log" "tp_stopping (lg_pool (demo_stopped Check))"
    "lg_files (demo_stopped Check) App_log = [demo_line]" "inside (lg_pool (demo_stopped Check)) = []"
    "tp_tasks (lg_pool (demo_stopped Check)) = [(App_log, demo_line)]"
    by (simp_all add: demo_stopped_def demo_lg_def pool_stop_def inside_def)
  have f: "App_log = (if True then App_log else Old_app_log)" "True \<or> True" by simp_all
  from logger_lines [OF demo_stopped_reach f(2,1) s(1)] show ?thesis
    using s(2-5) demo_stopped_run by (auto simp: for_file_def)
qed

lemma logger_no_failover_witness:
  "prefix (lg_files (demo_lg 2 Check [] True [demo_line]) App_log) [demo_line, demo_line] \<and>
   lg_files (demo_lg 2 Check [] True [demo_line]) Old_app_log = []"
proof -
  have "log_reach True True (demo_lg 2 Check [] True [demo_line]) [demo_line, demo_line] [(App_log, demo_line), (App_log, demo_line)]"
    using demo_log [OF demo_written, of False] by (simp add: write_line_def demo_lg_def numeral_2_eq_2)
  from logger_no_failover [OF this] show ?thesis by simp
qed

end
