(* ===== verification/BenchClient.thy ===== *)
theory BenchClient
  imports Message Net_io "HOL-Library.AList"
begin

text \<open>
  The measuring client, \<open>src/bench_client.cpp\<close>: the messages it makes, the window of requests of each
  connection, the connecting and the measuring phase with their events, and the verdict. Sockets are those
  of \<open>Net_io\<close>. The results of \<open>epoll_wait\<close> and the clock are arguments. The command line is in
  \<open>BenchClient_args\<close>. Not modelled: the latencies' statistics, which are floating point.
\<close>

section \<open>Messages\<close>

text \<open>\<open>memcpy\<close> of the id: the host is little-endian.\<close>

definition le64 :: "u64 \<Rightarrow> bytes" where
  "le64 v = rev (be64 v)"

definition read_le64 :: "bytes \<Rightarrow> u64" where
  "read_le64 bs = read_u64_be (rev (take 8 bs)) 0"

definition pattern_byte :: "u64 \<Rightarrow> nat \<Rightarrow> u8" where
  "pattern_byte ident i = ucast (drop_bit 13 (ident * 2654435761 + of_nat i * 40503))"

text \<open>\<open>main\<close> lets no size below 8 pass, so the copy fits.\<close>

definition make_msg :: "u64 \<Rightarrow> nat \<Rightarrow> bytes" where
  "make_msg ident sz = foldl (\<lambda>m i. m[i := pattern_byte ident i]) (write_at (replicate sz 0) 0 (le64 ident)) [8..<sz]"

text \<open>\<open>m.compare(8,0,"")\<close> compares no characters with none and is always 0.\<close>

definition check_msg :: "u64 \<Rightarrow> bytes \<Rightarrow> nat \<Rightarrow> bool" where
  "check_msg ident m sz = (if length m \<noteq> sz then False else list_all (\<lambda>i. m ! i = pattern_byte ident i) [8..<sz])"

section \<open>A connection\<close>

record bench_conn =
  bc_fd :: int
  bc_ev_cur :: u32
  bc_next_id :: u64
  bc_done_cnt :: u64
  bc_inflight :: u64
  bc_per_conn :: u64
  bc_size :: nat
  bc_check :: bool
  bc_finished :: bool
  bc_connecting :: bool
  bc_outbuf :: bytes
  bc_dec :: messagedecode
  bc_pending :: "u64 \<rightharpoonup> int"

definition bench_conn_new :: "int \<Rightarrow> u64 \<Rightarrow> nat \<Rightarrow> bool \<Rightarrow> bench_conn" where
  "bench_conn_new fd per_conn sz check = \<lparr>bc_fd = fd, bc_ev_cur = 0, bc_next_id = 0, bc_done_cnt = 0, bc_inflight = 0,
     bc_per_conn = per_conn, bc_size = sz, bc_check = check, bc_finished = False, bc_connecting = True, bc_outbuf = [],
     bc_dec = messagedecode_init, bc_pending = Map.empty\<rparr>"

definition set_events :: "'w net_os \<Rightarrow> int \<Rightarrow> bench_conn \<Rightarrow> u32 \<Rightarrow> 'w \<Rightarrow> bench_conn \<times> 'w" where
  "set_events net ep c want w =
     (if want = bc_ev_cur c then (c, w)
      else (c\<lparr>bc_ev_cur := want\<rparr>, snd (net_ctl net ep (if bc_ev_cur c = 0 then CTL_ADD else CTL_MOD) (bc_fd c) want w)))"

partial_function (option) flush_out :: "'w net_os \<Rightarrow> bench_conn \<Rightarrow> 'w \<Rightarrow> (bool \<times> bench_conn \<times> 'w) option" where
  "flush_out net c w =
     (if bc_outbuf c = [] then Some (True, c, w)
      else case net_send net (bc_fd c) (bc_outbuf c) w of (n, w1) \<Rightarrow>
        if n > 0 then flush_out net (c\<lparr>bc_outbuf := drop (nat n) (bc_outbuf c)\<rparr>) w1
        else if n < 0 \<and> net_errno net w1 = EINTR then flush_out net c w1
        else if n < 0 \<and> (net_errno net w1 = EAGAIN \<or> net_errno net w1 = EWOULDBLOCK) then Some (True, c, w1)
        else Some (False, c, w1))"

text \<open>The loop of \<open>pump_send\<close>; \<open>clock\<close> is the time at which a descriptor's id is sent.\<close>

function pump_fill :: "(int \<Rightarrow> u64 \<Rightarrow> int) \<Rightarrow> u64 \<Rightarrow> bench_conn \<Rightarrow> bench_conn" where
  "pump_fill clock expected_inflight c =
     (if bc_next_id c < bc_per_conn c \<and> bc_inflight c < expected_inflight
      then let ident = bc_next_id c;
               packet = encode (make_msg ident (bc_size c))
        in pump_fill clock expected_inflight (c\<lparr>bc_next_id := ident + 1, bc_pending := (bc_pending c)(ident \<mapsto> clock (bc_fd c) ident),
             bc_outbuf := bc_outbuf c @ packet, bc_inflight := bc_inflight c + 1\<rparr>)
      else c)"
  by pat_completeness auto
termination
  by (relation "measure (\<lambda>(clock, k, c). unat (bc_per_conn c) - unat (bc_next_id c))")
    (auto simp: word_less_nat_alt unat_next)

declare pump_fill.simps [simp del]

definition bench_want :: "bench_conn \<Rightarrow> u32" where
  "bench_want c = (if bc_outbuf c \<noteq> [] then EPOLLIN OR EPOLLOUT else EPOLLIN)"

definition pump_send :: "'w net_os \<Rightarrow> int \<Rightarrow> (int \<Rightarrow> u64 \<Rightarrow> int) \<Rightarrow> bench_conn \<Rightarrow> u64 \<Rightarrow> 'w \<Rightarrow>
    (bool \<times> bench_conn \<times> 'w) option" where
  "pump_send net ep clock c expected_inflight w =
     (case flush_out net (pump_fill clock expected_inflight c) w of
        None \<Rightarrow> None
      | Some (ok, c, w) \<Rightarrow> if \<not> ok then Some (False, c, w)
          else case set_events net ep c (bench_want c) w of (c, w) \<Rightarrow> Some (True, c, w))"

section \<open>Replies\<close>

record bench_stats =
  bs_received :: u64
  bs_extra :: u64
  bs_errors :: u64
  bs_tampered :: u64
  bs_lat_us :: "int list"

definition bench_reply :: "int \<Rightarrow> bytes \<Rightarrow> bench_conn \<times> bench_stats \<Rightarrow> bench_conn \<times> bench_stats" where
  "bench_reply now msg = (\<lambda>(c, st).
     if length msg < 8 then (c, st\<lparr>bs_extra := bs_extra st + 1\<rparr>)
     else let ident = read_le64 msg in
       case bc_pending c ident of
         None \<Rightarrow> (c, st\<lparr>bs_extra := bs_extra st + 1\<rparr>)
       | Some t \<Rightarrow>
           (c\<lparr>bc_pending := (bc_pending c)(ident := None), bc_inflight := bc_inflight c - 1, bc_done_cnt := bc_done_cnt c + 1\<rparr>,
            st\<lparr>bs_lat_us := bs_lat_us st @ [now - t], bs_received := bs_received st + 1,
               bs_tampered := (if bc_check c \<and> \<not> check_msg ident msg (bc_size c) then bs_tampered st + 1 else bs_tampered st)\<rparr>))"

definition bench_replies :: "int \<Rightarrow> bytes list \<Rightarrow> bench_conn \<times> bench_stats \<Rightarrow> bench_conn \<times> bench_stats" where
  "bench_replies now got = fold (bench_reply now) got"

text \<open>The loop over \<open>recv\<close>; the first result is \<open>fail\<close>.\<close>

partial_function (option) bench_read ::
  "'w net_os \<Rightarrow> ('w \<Rightarrow> int) \<Rightarrow> bench_conn \<Rightarrow> bench_stats \<Rightarrow> 'w \<Rightarrow> (bool \<times> bench_conn \<times> bench_stats \<times> 'w) option" where
  "bench_read net now c st w =
     (case net_recv net (bc_fd c) 65536 w of (n, buf, w1) \<Rightarrow>
        if n > 0
        then let d = feed (bc_dec c) buf
          in if brokenmessage d then Some (True, c\<lparr>bc_dec := d\<rparr>, st, w1)
             else case take_msgs d of (got, d) \<Rightarrow>
               case bench_replies (now w1) got (c\<lparr>bc_dec := d\<rparr>, st) of (c, st) \<Rightarrow>
                 if bc_done_cnt c \<ge> bc_per_conn c then Some (False, c, st, w1)
                 else bench_read net now c st w1
        else if n = 0 then Some (bc_done_cnt c < bc_per_conn c, c, st, w1)
        else if net_errno net w1 = EINTR then bench_read net now c st w1
        else if net_errno net w1 = EAGAIN \<or> net_errno net w1 = EWOULDBLOCK then Some (False, c, st, w1)
        else Some (True, c, st, w1))"

section \<open>Events\<close>

definition bench_out :: "'w net_os \<Rightarrow> int \<Rightarrow> u32 \<Rightarrow> bench_conn \<Rightarrow> 'w \<Rightarrow> (bool \<times> bench_conn \<times> 'w) option" where
  "bench_out net ep e c w =
     (if e AND (EPOLLERR OR EPOLLHUP) \<noteq> 0 then Some (True, c, w)
      else if e AND EPOLLOUT \<noteq> 0
      then (case flush_out net c w of
          None \<Rightarrow> None
        | Some (ok, c, w) \<Rightarrow> if \<not> ok then Some (True, c, w)
            else case set_events net ep c (bench_want c) w of (c, w) \<Rightarrow> Some (False, c, w))
      else Some (False, c, w))"

definition bench_in :: "'w net_os \<Rightarrow> ('w \<Rightarrow> int) \<Rightarrow> u32 \<Rightarrow> bool \<Rightarrow> bench_conn \<Rightarrow> bench_stats \<Rightarrow> 'w \<Rightarrow>
    (bool \<times> bench_conn \<times> bench_stats \<times> 'w) option" where
  "bench_in net now e fail c st w =
     (if \<not> fail \<and> e AND EPOLLIN \<noteq> 0 then bench_read net now c st w else Some (fail, c, st, w))"

definition bench_pump :: "'w net_os \<Rightarrow> int \<Rightarrow> (int \<Rightarrow> u64 \<Rightarrow> int) \<Rightarrow> u64 \<Rightarrow> bool \<Rightarrow> bench_conn \<Rightarrow> 'w \<Rightarrow>
    (bool \<times> bench_conn \<times> 'w) option" where
  "bench_pump net ep clock depth fail c w =
     (if \<not> fail \<and> \<not> bc_finished c \<and> bc_done_cnt c < bc_per_conn c
      then (case pump_send net ep clock c depth w of None \<Rightarrow> None | Some (ok, c, w) \<Rightarrow> Some (\<not> ok, c, w))
      else Some (fail, c, w))"

definition bench_drop :: "'w net_os \<Rightarrow> int \<Rightarrow> int \<Rightarrow> 'w \<Rightarrow> 'w" where
  "bench_drop net ep fd w = snd (net_close net fd (snd (net_ctl net ep CTL_DEL fd 0 w)))"

record bench =
  be_cs :: "(int \<times> bench_conn) list"
  be_alive :: nat
  be_stats :: bench_stats

text \<open>The end of the turn: a failed or a complete connection is dropped.\<close>

definition bench_close :: "'w net_os \<Rightarrow> int \<Rightarrow> int \<Rightarrow> bool \<Rightarrow> bench_conn \<Rightarrow> bench \<Rightarrow> 'w \<Rightarrow> bench \<times> 'w" where
  "bench_close net ep fd fail c b w =
     (if fail
      then (b\<lparr>be_cs := AList.delete fd (be_cs b), be_alive := be_alive b - 1,
              be_stats := (be_stats b)\<lparr>bs_errors := bs_errors (be_stats b) + 1\<rparr>\<rparr>, bench_drop net ep fd w)
      else if bc_done_cnt c \<ge> bc_per_conn c \<and> bc_inflight c = 0 \<and> bc_outbuf c = []
      then (b\<lparr>be_cs := AList.delete fd (be_cs b), be_alive := be_alive b - 1\<rparr>, bench_drop net ep fd w)
      else (b\<lparr>be_cs := AList.update fd c (be_cs b)\<rparr>, w))"

definition bench_event :: "'w net_os \<Rightarrow> int \<Rightarrow> ('w \<Rightarrow> int) \<Rightarrow> (int \<Rightarrow> u64 \<Rightarrow> int) \<Rightarrow> u64 \<Rightarrow> int \<times> u32 \<Rightarrow> bench \<Rightarrow> 'w \<Rightarrow>
    (bench \<times> 'w) option" where
  "bench_event net ep now clock depth ev b w = (case ev of (fd, e) \<Rightarrow>
     case map_of (be_cs b) fd of
       None \<Rightarrow> Some (b, w)
     | Some c \<Rightarrow> case bench_out net ep e c w of None \<Rightarrow> None | Some (fail, c, w) \<Rightarrow>
         case bench_in net now e fail c (be_stats b) w of None \<Rightarrow> None | Some (fail, c, st, w) \<Rightarrow>
         case bench_pump net ep clock depth fail c w of None \<Rightarrow> None | Some (fail, c, w) \<Rightarrow>
           Some (bench_close net ep fd fail c (b\<lparr>be_stats := st\<rparr>) w))"

fun bench_events :: "'w net_os \<Rightarrow> int \<Rightarrow> ('w \<Rightarrow> int) \<Rightarrow> (int \<Rightarrow> u64 \<Rightarrow> int) \<Rightarrow> u64 \<Rightarrow>
    (int \<times> u32) list \<Rightarrow> bench \<Rightarrow> 'w \<Rightarrow> (bench \<times> 'w) option" where
  "bench_events net ep now clock depth [] b w = Some (b, w)"
| "bench_events net ep now clock depth (ev # evs) b w =
     (case bench_event net ep now clock depth ev b w of None \<Rightarrow> None
        | Some (b, w) \<Rightarrow> bench_events net ep now clock depth evs b w)"

text \<open>The measuring loop, over the events that the calls of \<open>epoll_wait\<close> give. It ends when no connection
  is alive, at the deadline, or by an error of \<open>epoll_wait\<close>, which are the end of the list.\<close>

fun bench_loop :: "'w net_os \<Rightarrow> int \<Rightarrow> ('w \<Rightarrow> int) \<Rightarrow> (int \<Rightarrow> u64 \<Rightarrow> int) \<Rightarrow> u64 \<Rightarrow>
    (int \<times> u32) list list \<Rightarrow> bench \<Rightarrow> 'w \<Rightarrow> (bench \<times> 'w) option" where
  "bench_loop net ep now clock depth [] b w = Some (b, w)"
| "bench_loop net ep now clock depth (evs # waits) b w =
     (if be_alive b = 0 then Some (b, w)
      else case bench_events net ep now clock depth evs b w of None \<Rightarrow> None
        | Some (b, w) \<Rightarrow> bench_loop net ep now clock depth waits b w)"

text \<open>The first messages of every connection.\<close>

fun bench_start :: "'w net_os \<Rightarrow> int \<Rightarrow> (int \<Rightarrow> u64 \<Rightarrow> int) \<Rightarrow> u64 \<Rightarrow> (int \<times> bench_conn) list \<Rightarrow> 'w \<Rightarrow>
    (bool \<times> (int \<times> bench_conn) list \<times> 'w) option" where
  "bench_start net ep clock depth [] w = Some (True, [], w)"
| "bench_start net ep clock depth ((fd, c) # cs) w = (case pump_send net ep clock c depth w of None \<Rightarrow> None
     | Some (ok, c, w) \<Rightarrow> if \<not> ok then Some (False, (fd, c) # cs, w)
         else case bench_start net ep clock depth cs w of None \<Rightarrow> None | Some (ok, cs, w) \<Rightarrow> Some (ok, (fd, c) # cs, w))"

definition bench_stats_init :: bench_stats where
  "bench_stats_init = \<lparr>bs_received = 0, bs_extra = 0, bs_errors = 0, bs_tampered = 0, bs_lat_us = []\<rparr>"

section \<open>Connecting\<close>

text \<open>Two calls that only this program makes; \<open>cl_so_error\<close> gives the value of \<open>SO_ERROR\<close> (the code
  leaves it 0 when \<open>getsockopt\<close> fails).\<close>

record 'w client_os =
  cl_connect :: "int \<Rightarrow> nat \<Rightarrow> 16 word \<Rightarrow> 'w \<Rightarrow> int \<times> 'w"
  cl_so_error :: "int \<Rightarrow> 'w \<Rightarrow> int \<times> 'w"

definition EINPROGRESS :: errno where
  "EINPROGRESS = EOTHER 115"

definition bench_nonblocking :: "'w net_os \<Rightarrow> int \<Rightarrow> 'w \<Rightarrow> bool \<times> 'w" where
  "bench_nonblocking net fd w = (case net_getfl net fd w of (fl, w) \<Rightarrow>
     if fl < 0 then (False, w) else case net_setfl net fd w of (r, w) \<Rightarrow> (r = 0, w))"

text \<open>The descriptors are distinct, so \<open>emplace\<close> inserts and \<open>cs.at(fd)\<close> is what it inserted. The
  address of the connection \<open>i\<close> is \<open>127.0.0.(i % 8 + 1)\<close>.\<close>

definition bench_connect1 :: "'w net_os \<Rightarrow> 'w client_os \<Rightarrow> int \<Rightarrow> int \<Rightarrow> u64 \<Rightarrow> nat \<Rightarrow> bool \<Rightarrow> nat \<Rightarrow>
    (int \<times> bench_conn) list \<times> nat \<times> 'w \<Rightarrow> (int \<times> bench_conn) list \<times> nat \<times> 'w" where
  "bench_connect1 net cl ep port per_conn sz check i = (\<lambda>(cs, connect_fail, w).
     case net_socket net w of (fd, w) \<Rightarrow>
       if fd < 0 then (cs, connect_fail + 1, w)
       else let w = snd (bench_nonblocking net fd w);
                c = bench_conn_new fd per_conn sz check
         in case cl_connect cl fd (i mod 8 + 1) (word_of_int port) w of (r, w) \<Rightarrow>
           if r < 0 \<and> net_errno net w \<noteq> EINPROGRESS
           then (AList.delete fd (AList.update fd c cs), connect_fail + 1, bench_drop net ep fd w)
           else case set_events net ep c EPOLLOUT w of (c, w) \<Rightarrow> (AList.update fd c cs, connect_fail, w))"

definition bench_connect :: "'w net_os \<Rightarrow> 'w client_os \<Rightarrow> int \<Rightarrow> int \<Rightarrow> nat \<Rightarrow> u64 \<Rightarrow> nat \<Rightarrow> bool \<Rightarrow> 'w \<Rightarrow>
    (int \<times> bench_conn) list \<times> nat \<times> 'w" where
  "bench_connect net cl ep port conns per_conn sz check w =
     fold (bench_connect1 net cl ep port per_conn sz check) [0..<conns] ([], 0, w)"

record connecting =
  co_cs :: "(int \<times> bench_conn) list"
  co_connected :: nat
  co_connect_fail :: nat

definition connect_event :: "'w net_os \<Rightarrow> 'w client_os \<Rightarrow> int \<Rightarrow> int \<times> u32 \<Rightarrow> connecting \<times> 'w \<Rightarrow> connecting \<times> 'w" where
  "connect_event net cl ep ev = (\<lambda>(p, w). case ev of (fd, e) \<Rightarrow>
     case map_of (co_cs p) fd of
       None \<Rightarrow> (p, w)
     | Some c \<Rightarrow>
         if \<not> bc_connecting c then (p, w)
         else case cl_so_error cl fd w of (soerr, w) \<Rightarrow>
           if e AND (EPOLLERR OR EPOLLHUP) \<noteq> 0 \<or> soerr \<noteq> 0
           then (p\<lparr>co_cs := AList.delete fd (co_cs p), co_connect_fail := co_connect_fail p + 1\<rparr>, bench_drop net ep fd w)
           else case set_events net ep c EPOLLIN (snd (net_setsockopt net fd w)) of (c, w) \<Rightarrow>
             (p\<lparr>co_cs := AList.update fd (c\<lparr>bc_connecting := False\<rparr>) (co_cs p), co_connected := co_connected p + 1\<rparr>, w))"

text \<open>The list of the events of each \<open>epoll_wait\<close> ends at the deadline or an error.\<close>

fun connect_loop :: "'w net_os \<Rightarrow> 'w client_os \<Rightarrow> int \<Rightarrow> nat \<Rightarrow> (int \<times> u32) list list \<Rightarrow>
    connecting \<times> 'w \<Rightarrow> connecting \<times> 'w" where
  "connect_loop net cl ep conns [] (p, w) = (p, w)"
| "connect_loop net cl ep conns (evs # waits) (p, w) =
     (if co_connected p < conns then connect_loop net cl ep conns waits (fold (connect_event net cl ep) evs (p, w)) else (p, w))"

section \<open>The program\<close>

definition bench_pass :: "u64 \<Rightarrow> bench \<Rightarrow> bool" where
  "bench_pass expected b \<longleftrightarrow> bs_received (be_stats b) = expected \<and> bs_extra (be_stats b) = 0 \<and> bs_errors (be_stats b) = 0 \<and>
     bs_tampered (be_stats b) = 0 \<and> be_alive b = 0"

text \<open>The arguments are those that have passed the checks: \<open>conns\<close> and \<open>per_conn\<close> are positive, the size is at least
  8. The result is the exit status.\<close>

definition bench_main :: "'w net_os \<Rightarrow> 'w client_os \<Rightarrow> ('w \<Rightarrow> int) \<Rightarrow> (int \<Rightarrow> u64 \<Rightarrow> int) \<Rightarrow> int \<Rightarrow> nat \<Rightarrow> u64 \<Rightarrow> nat \<Rightarrow> bool \<Rightarrow>
    u64 \<Rightarrow> (int \<times> u32) list list \<Rightarrow> (int \<times> u32) list list \<Rightarrow> 'w \<Rightarrow> (int \<times> 'w) option" where
  "bench_main net cl now clock port conns per_conn sz check depth cwaits waits w =
     (case net_epoll_create net w of (ep, w) \<Rightarrow>
        if ep < 0 then Some (1, w)
        else case bench_connect net cl ep port conns per_conn sz check w of (cs, connect_fail, w) \<Rightarrow>
        case connect_loop net cl ep conns cwaits (\<lparr>co_cs = cs, co_connected = 0, co_connect_fail = connect_fail\<rparr>, w) of (p, w) \<Rightarrow>
        if co_connected p < conns then Some (1, snd (net_close net ep w))
        else case bench_start net ep clock depth (co_cs p) w of None \<Rightarrow> None | Some (ok, cs, w) \<Rightarrow>
        if \<not> ok then Some (1, snd (net_close net ep w))
        else case bench_loop net ep now clock depth waits \<lparr>be_cs = cs, be_alive = length cs, be_stats = bench_stats_init\<rparr> w of
          None \<Rightarrow> None
        | Some (b, w) \<Rightarrow> Some (if bench_pass (of_nat conns * per_conn) b then 0 else 1, snd (net_close net ep w)))"

end
