(* ===== verification/BenchClient_safety.thy ===== *)
theory BenchClient_safety
  imports BenchClient
begin

text \<open>
  One connection of the measuring client. A list records every reply with its descriptor and how it was
  counted; the invariant of a connection relates it to the bytes on the wire, the window and the
  ids, and every part of a turn keeps it.
\<close>

section \<open>Messages\<close>

lemma length_le64 [simp]: "length (le64 v) = 8"
  by (simp add: le64_def)

lemma read_le64_le64 [simp]: "read_le64 (le64 v @ xs) = v"
  by (simp add: read_le64_def le64_def)

lemma le64_read: "8 \<le> length m \<Longrightarrow> le64 (read_le64 m) = take 8 m"
  using be64_read [of 0 "rev (take 8 m)"] by (simp add: le64_def read_le64_def)

lemma fill_range:
  assumes "a \<le> n" "n \<le> length m"
  shows "foldl (\<lambda>m i. m[i := f i]) m [a..<n] = take a m @ map f [a..<n] @ drop n m"
  using assms
proof (induction n rule: dec_induct)
  case base
  then show ?case by simp
next
  case (step n)
  have "drop n m = m ! n # drop (Suc n) m" using step.prems by (simp add: Cons_nth_drop_Suc)
  then show ?case using step by (simp add: list_update_append)
qed

lemma make_msg_eq: "8 \<le> sz \<Longrightarrow> make_msg ident sz = le64 ident @ map (pattern_byte ident) [8..<sz]"
  using fill_range [of 8 sz "write_at (replicate sz 0) 0 (le64 ident)" "pattern_byte ident"]
  by (simp add: make_msg_def)

lemma read_make_msg [simp]: "8 \<le> sz \<Longrightarrow> read_le64 (make_msg ident sz) = ident"
  by (simp add: make_msg_eq)

lemma length_make_msg [simp]: "8 \<le> sz \<Longrightarrow> length (make_msg ident sz) = sz"
  by (simp add: make_msg_eq)

text \<open>The check is exact but for the id, which the caller has looked up.\<close>

lemma check_msg_iff:
  assumes "8 \<le> sz"
  shows "check_msg ident m sz \<longleftrightarrow> length m = sz \<and> drop 8 m = drop 8 (make_msg ident sz)"
proof (cases "length m = sz")
  case True
  have "list_all (\<lambda>i. m ! i = pattern_byte ident i) [8..<sz] \<longleftrightarrow> drop 8 m = map (pattern_byte ident) [8..<sz]"
    using True assms by (auto simp: list_all_iff list_eq_iff_nth_eq)
      (metis add.commute diff_less_mono le_add_diff_inverse)
  then show ?thesis using True assms by (simp add: check_msg_def make_msg_eq)
qed (simp add: check_msg_def)

lemma checked_reply:
  assumes "8 \<le> sz" "check_msg (read_le64 m) m sz"
  shows "m = make_msg (read_le64 m) sz"
proof -
  have m: "length m = sz" "drop 8 m = drop 8 (make_msg (read_le64 m) sz)" using assms check_msg_iff by blast+
  have "m = take 8 m @ drop 8 m" by simp
  also have "\<dots> = le64 (read_le64 m) @ map (pattern_byte (read_le64 m)) [8..<sz]"
    using m assms(1) by (simp add: le64_read make_msg_eq)
  finally show ?thesis using assms(1) by (simp add: make_msg_eq)
qed

section \<open>The record of replies\<close>

datatype verdict = Extra | Good | Tampered

definition classify :: "bench_conn \<Rightarrow> bytes \<Rightarrow> verdict" where
  "classify c m = (if length m < 8 \<or> bc_pending c (read_le64 m) = None then Extra
     else if bc_check c \<and> \<not> check_msg (read_le64 m) m (bc_size c) then Tampered else Good)"

type_synonym record_of_replies = "(int \<times> bytes \<times> verdict) list"

definition replies :: "int \<Rightarrow> record_of_replies \<Rightarrow> bytes list" where
  "replies fd G = map (\<lambda>g. fst (snd g)) (filter (\<lambda>g. fst g = fd) G)"

definition answered :: "int \<Rightarrow> record_of_replies \<Rightarrow> u64 list" where
  "answered fd G = map (\<lambda>g. read_le64 (fst (snd g))) (filter (\<lambda>g. fst g = fd \<and> snd (snd g) \<noteq> Extra) G)"

definition count_of :: "(verdict \<Rightarrow> bool) \<Rightarrow> record_of_replies \<Rightarrow> nat" where
  "count_of P G = length (filter (\<lambda>g. P (snd (snd g))) G)"

lemma record_simps [simp]:
  "replies fd [] = []" "replies fd (G @ H) = replies fd G @ replies fd H" "answered fd [] = []"
  "answered fd (G @ H) = answered fd G @ answered fd H" "count_of P [] = 0" "count_of P (G @ H) = count_of P G + count_of P H"
  "replies fd [(f, m, v)] = (if f = fd then [m] else [])" "answered fd [(f, m, v)] = (if f = fd \<and> v \<noteq> Extra then [read_le64 m] else [])"
  "count_of P [(f, m, v)] = (if P v then 1 else 0)"
  by (simp_all add: replies_def answered_def count_of_def)

definition stats_are :: "bench_stats \<Rightarrow> record_of_replies \<Rightarrow> bool" where
  "stats_are st G \<longleftrightarrow> bs_extra st = of_nat (count_of (\<lambda>v. v = Extra) G) \<and> bs_tampered st = of_nat (count_of (\<lambda>v. v = Tampered) G) \<and>
     bs_received st = of_nat (count_of (\<lambda>v. v \<noteq> Extra) G)"

text \<open>An accepted reply is long enough, and with the check on a good one is the message sent.\<close>

definition reply_ok :: "bool \<Rightarrow> nat \<Rightarrow> int \<times> bytes \<times> verdict \<Rightarrow> bool" where
  "reply_ok check sz g \<longleftrightarrow> (case g of (f, m, v) \<Rightarrow> v \<noteq> Extra \<longrightarrow> 8 \<le> length m \<and> (check \<and> v = Good \<longrightarrow> check_msg (read_le64 m) m sz))"

definition ids_below :: "u64 \<Rightarrow> u64 set" where
  "ids_below n = {i. i < n}"

definition ledger :: "int \<Rightarrow> bench_conn \<Rightarrow> record_of_replies \<Rightarrow> bool" where
  "ledger fd c G \<longleftrightarrow> distinct (answered fd G) \<and> set (answered fd G) \<inter> dom (bc_pending c) = {} \<and>
     set (answered fd G) \<union> dom (bc_pending c) = ids_below (bc_next_id c) \<and>
     unat (bc_inflight c) = card (dom (bc_pending c)) \<and> unat (bc_done_cnt c) = length (answered fd G) \<and>
     (\<forall>g \<in> set G. fst g = fd \<longrightarrow> reply_ok (bc_check c) (bc_size c) g)"

lemma ids_below_image: "ids_below n = of_nat ` {..<unat n}"
proof
  show "ids_below n \<subseteq> of_nat ` {..<unat n}"
  proof
    fix i assume "i \<in> ids_below n"
    then have "unat i < unat n" "of_nat (unat i) = i" by (simp_all add: ids_below_def word_less_nat_alt)
    then show "i \<in> of_nat ` {..<unat n}" by (metis imageI lessThan_iff)
  qed
  show "of_nat ` {..<unat n} \<subseteq> ids_below n"
    using unat_u64 [of n] by (auto simp: ids_below_def word_less_nat_alt unat_of_nat)
qed

lemma of_nat_inj_below: "inj_on (of_nat :: nat \<Rightarrow> u64) {..<unat (n :: u64)}"
proof (rule inj_onI)
  fix i j assume "i \<in> {..<unat n}" "j \<in> {..<unat n}" "(of_nat i :: u64) = of_nat j"
  moreover have "k < unat n \<Longrightarrow> unat (of_nat k :: u64) = k" for k using unat_u64 [of n] by (simp add: unat_of_nat)
  ultimately show "i = j" by (metis lessThan_iff)
qed

lemma card_ids_below [simp]: "card (ids_below n) = unat n" "finite (ids_below n)"
  unfolding ids_below_image by (simp_all add: card_image of_nat_inj_below)

lemma ids_below_next: "n < k \<Longrightarrow> ids_below (n + 1) = insert n (ids_below n)"
  using unat_next [of n k] by (auto simp: ids_below_def word_less_nat_alt word_unat_eq_iff)

lemma ledger_counts:
  assumes "ledger fd c G"
  shows "length (answered fd G) + card (dom (bc_pending c)) = unat (bc_next_id c)" "finite (dom (bc_pending c))"
    "dom (bc_pending c) \<subseteq> ids_below (bc_next_id c)"
proof -
  have e: "set (answered fd G) \<union> dom (bc_pending c) = ids_below (bc_next_id c)" "set (answered fd G) \<inter> dom (bc_pending c) = {}"
    "distinct (answered fd G)" using assms by (simp_all add: ledger_def)
  show sub: "dom (bc_pending c) \<subseteq> ids_below (bc_next_id c)" using e(1) by blast
  then show f: "finite (dom (bc_pending c))" using card_ids_below(2) finite_subset by blast
  have "card (set (answered fd G) \<union> dom (bc_pending c)) = card (set (answered fd G)) + card (dom (bc_pending c))"
    using e(2) f by (simp add: card_Un_disjoint)
  then show "length (answered fd G) + card (dom (bc_pending c)) = unat (bc_next_id c)"
    using e(1,3) by (simp add: distinct_card)
qed

lemma ledger_reply:
  assumes "ledger (bc_fd c) c G" "stats_are st G" "bench_reply now m (c, st) = (c', st')"
  defines "G' \<equiv> G @ [(bc_fd c, m, classify c m)]"
  shows "ledger (bc_fd c) c' G' \<and> stats_are st' G' \<and> bc_fd c' = bc_fd c \<and> bc_next_id c' = bc_next_id c \<and> bc_per_conn c' = bc_per_conn c \<and>
    bc_size c' = bc_size c \<and> bc_check c' = bc_check c \<and> bc_finished c' = bc_finished c \<and> bc_outbuf c' = bc_outbuf c \<and> bc_dec c' = bc_dec c \<and>
    unat (bc_inflight c') \<le> unat (bc_inflight c) \<and> bs_errors st' = bs_errors st"
proof (cases "length m < 8 \<or> bc_pending c (read_le64 m) = None")
  case True
  then have v: "classify c m = Extra" "c' = c" "st' = st\<lparr>bs_extra := bs_extra st + 1\<rparr>"
    using assms(3) by (cases "length m < 8"; auto simp: classify_def bench_reply_def Let_def)+
  show ?thesis using assms(1,2) unfolding G'_def v by (simp add: ledger_def stats_are_def reply_ok_def)
next
  case False
  let ?i = "read_le64 m" and ?v = "classify c m"
  obtain t where t: "bc_pending c ?i = Some t" using False by auto
  have v: "?v \<noteq> Extra" "?v = Tampered \<longleftrightarrow> bc_check c \<and> \<not> check_msg ?i m (bc_size c)" using False by (auto simp: classify_def)
  have c': "c' = c\<lparr>bc_pending := (bc_pending c)(?i := None), bc_inflight := bc_inflight c - 1, bc_done_cnt := bc_done_cnt c + 1\<rparr>"
    "st' = st\<lparr>bs_lat_us := bs_lat_us st @ [now - t], bs_received := bs_received st + 1,
       bs_tampered := (if ?v = Tampered then bs_tampered st + 1 else bs_tampered st)\<rparr>"
    using assms(3) False t v(2) by (auto simp: bench_reply_def Let_def)
  note l = assms(1) [unfolded ledger_def] and counts = ledger_counts [OF assms(1)]
  have i: "?i \<in> dom (bc_pending c)" using t by blast
  then have pos: "1 \<le> card (dom (bc_pending c))" using counts(2) by (metis One_nat_def Suc_leI card_gt_0_iff empty_iff)
  have fl: "unat (bc_inflight c - 1) = card (dom (bc_pending c)) - 1" using l pos by (simp add: unat_sub word_le_nat_alt)
  have "unat (bc_done_cnt c) < unat (bc_next_id c)" using l counts(1) pos by linarith
  then have dn: "unat (bc_done_cnt c + 1) = length (answered (bc_fd c) G) + 1" using l unat_next by simp
  have new: "answered (bc_fd c) G' = answered (bc_fd c) G @ [?i]" unfolding G'_def using v(1) by simp
  have "?i \<notin> set (answered (bc_fd c) G)" using l i by blast
  moreover have "card (dom ((bc_pending c)(?i := None))) = card (dom (bc_pending c)) - 1"
    using i counts(2) by (simp add: dom_fun_upd)
  moreover have "reply_ok (bc_check c) (bc_size c) (bc_fd c, m, ?v)" using False v by (auto simp: reply_ok_def classify_def)
  moreover have "set (answered (bc_fd c) G) \<union> dom (bc_pending c) = ids_below (bc_next_id c)" using l by blast
  ultimately have "ledger (bc_fd c) c' G'"
    unfolding ledger_def new c'(1) using l i fl dn by (auto simp: G'_def)
  moreover have "stats_are st' G'"
    using assms(2) v(1) unfolding c'(2) G'_def by (auto simp: stats_are_def)
  ultimately show ?thesis using c' fl l by simp
qed

section \<open>One connection\<close>

definition on_wire :: "net_view \<Rightarrow> int \<Rightarrow> bench_conn \<Rightarrow> bool" where
  "on_wire v fd c \<longleftrightarrow> nv_sent v fd @ bc_outbuf c =
     concat (map (\<lambda>i. encode (make_msg (of_nat i) (bc_size c))) [0..<unat (bc_next_id c)])"

definition decoding :: "net_view \<Rightarrow> int \<Rightarrow> bench_conn \<Rightarrow> record_of_replies \<Rightarrow> bool" where
  "decoding v fd c G \<longleftrightarrow> parse (nv_rcvd v fd) = (replies fd G, pending (bc_dec c), False) \<and>
     dec_msg (bc_dec c) = [] \<and> \<not> dec_error (bc_dec c) \<and> feed_inv (bc_dec c)"

definition bench_conn_ok :: "u64 \<Rightarrow> net_view \<Rightarrow> int \<Rightarrow> bench_conn \<Rightarrow> record_of_replies \<Rightarrow> bool" where
  "bench_conn_ok depth v fd c G \<longleftrightarrow> bc_fd c = fd \<and> on_wire v fd c \<and> decoding v fd c G \<and> ledger fd c G \<and>
     bc_next_id c \<le> bc_per_conn c \<and> unat (bc_inflight c) \<le> unat depth \<and> \<not> bc_finished c"

text \<open>What does not change: the job, and all other descriptors.\<close>

definition same_job :: "bench_conn \<Rightarrow> bench_conn \<Rightarrow> bool" where
  "same_job c c' \<longleftrightarrow> bc_per_conn c' = bc_per_conn c \<and> bc_size c' = bc_size c \<and> bc_check c' = bc_check c"

definition others_same :: "int \<Rightarrow> net_view \<Rightarrow> net_view \<Rightarrow> bool" where
  "others_same fd v v' \<longleftrightarrow> (\<forall>f. f \<noteq> fd \<longrightarrow> nv_sent v' f = nv_sent v f \<and> nv_rcvd v' f = nv_rcvd v f)"

lemma others_same_trans: "others_same fd v v' \<Longrightarrow> others_same fd v' v'' \<Longrightarrow> others_same fd v v''"
  by (simp add: others_same_def)

lemma same_job_trans: "same_job c c' \<Longrightarrow> same_job c' c'' \<Longrightarrow> same_job c c''"
  by (simp add: same_job_def)

lemma ledger_cong:
  "ledger fd c G \<Longrightarrow> bc_pending c' = bc_pending c \<Longrightarrow> bc_next_id c' = bc_next_id c \<Longrightarrow> bc_inflight c' = bc_inflight c \<Longrightarrow>
   bc_done_cnt c' = bc_done_cnt c \<Longrightarrow> same_job c c' \<Longrightarrow> ledger fd c' G"
  by (simp add: ledger_def same_job_def)

text \<open>Filling the window.\<close>

lemma pump_fill_ok:
  assumes "bench_conn_ok depth v fd c G"
  shows "bench_conn_ok depth v fd (pump_fill clock depth c) G \<and> same_job c (pump_fill clock depth c)"
  using assms
proof (induction clock depth c rule: pump_fill.induct)
  case (1 clock depth c)
  show ?case
  proof (cases "bc_next_id c < bc_per_conn c \<and> bc_inflight c < depth")
    case False
    have "pump_fill clock depth c = c" unfolding pump_fill.simps [of clock depth c] by (rule if_not_P [OF False])
    then show ?thesis using "1.prems" by (simp add: same_job_def)
  next
    case True
    let ?i = "bc_next_id c"
    let ?c = "c\<lparr>bc_next_id := ?i + 1, bc_pending := (bc_pending c)(?i \<mapsto> clock (bc_fd c) ?i),
             bc_outbuf := bc_outbuf c @ encode (make_msg ?i (bc_size c)), bc_inflight := bc_inflight c + 1\<rparr>"
    have p: "pump_fill clock depth c = pump_fill clock depth ?c" using True by (simp add: pump_fill.simps [of clock depth c] Let_def)
    note ok = "1.prems" [unfolded bench_conn_ok_def]
    have l: "ledger fd c G" using ok by blast
    note counts = ledger_counts [OF l]
    have n: "unat (?i + 1) = unat ?i + 1" "ids_below (?i + 1) = insert ?i (ids_below ?i)"
      using True unat_next [of ?i] ids_below_next [of ?i] by (auto simp: word_less_nat_alt)
    have f: "unat (bc_inflight c + 1) = unat (bc_inflight c) + 1"
      using True unat_next [of "bc_inflight c" depth] by (simp add: word_less_nat_alt)
    have new: "?i \<notin> ids_below ?i" by (simp add: ids_below_def)
    have "bc_pending c ?i = None" using counts(3) new by blast
    then have cd: "card (insert ?i (dom (bc_pending c))) = card (dom (bc_pending c)) + 1" using counts(2) by (simp add: domIff)
    have "?i \<notin> set (answered fd G)" using l new by (auto simp: ledger_def)
    then have "ledger fd ?c G" using l n(2) f cd unfolding ledger_def by auto
    moreover have "on_wire v fd ?c" using ok n(1) unfolding on_wire_def by simp
    moreover have "?i + 1 \<le> bc_per_conn c" using True n(1) by (simp add: word_less_nat_alt word_le_nat_alt)
    moreover have "unat (bc_inflight c + 1) \<le> unat depth" using True f by (simp add: word_less_nat_alt)
    ultimately have "bench_conn_ok depth v fd ?c G" using ok unfolding bench_conn_ok_def by (simp add: decoding_def)
    from "1.IH" [OF True refl refl this] show ?thesis unfolding p by (auto simp: same_job_def)
  qed
qed

text \<open>The replies of one chunk.\<close>

lemma bench_replies_ok:
  assumes "ledger fd c G" "bc_fd c = fd" "stats_are st G" "bench_replies now got (c, st) = (c', st')"
  shows "\<exists>H. ledger fd c' (G @ H) \<and> stats_are st' (G @ H) \<and> (\<forall>g \<in> set H. fst g = fd) \<and> replies fd H = got \<and>
    bc_fd c' = fd \<and> bc_next_id c' = bc_next_id c \<and> same_job c c' \<and> bc_finished c' = bc_finished c \<and> bc_outbuf c' = bc_outbuf c \<and>
    bc_dec c' = bc_dec c \<and> unat (bc_inflight c') \<le> unat (bc_inflight c) \<and> bs_errors st' = bs_errors st"
  using assms
proof (induction got arbitrary: c st G)
  case Nil
  then show ?case by (auto simp: bench_replies_def same_job_def intro: exI [of _ "[]"])
next
  case (Cons m got)
  obtain c1 st1 where r: "bench_reply now m (c, st) = (c1, st1)" by fastforce
  have "ledger (bc_fd c) c G" using Cons.prems(1,2) by simp
  note one = ledger_reply [OF this Cons.prems(3) r, unfolded Cons.prems(2)]
  have "bench_replies now got (c1, st1) = (c', st')" using Cons.prems(4) r by (simp add: bench_replies_def)
  from Cons.IH [OF _ _ _ this, of "G @ [(fd, m, classify c m)]"] one obtain H where H:
    "ledger fd c' (G @ [(fd, m, classify c m)] @ H)" "stats_are st' (G @ [(fd, m, classify c m)] @ H)" "\<forall>g \<in> set H. fst g = fd"
    "replies fd H = got" "bc_fd c' = fd" "bc_next_id c' = bc_next_id c1" "same_job c1 c'" "bc_finished c' = bc_finished c1"
    "bc_outbuf c' = bc_outbuf c1" "bc_dec c' = bc_dec c1" "unat (bc_inflight c') \<le> unat (bc_inflight c1)" "bs_errors st' = bs_errors st1"
    by auto
  then show ?case using one by (intro exI [of _ "(fd, m, classify c m) # H"]) (auto simp: same_job_def replies_def)
qed

text \<open>What a part of a turn does to a connection: unless it fails, the invariant holds again.\<close>

definition turn_post :: "u64 \<Rightarrow> int \<Rightarrow> net_view \<Rightarrow> bench_conn \<Rightarrow> record_of_replies \<Rightarrow> bool \<Rightarrow> net_view \<Rightarrow> bench_conn \<Rightarrow> bool" where
  "turn_post depth fd v c G fail v' c' \<longleftrightarrow> (\<not> fail \<longrightarrow> bench_conn_ok depth v' fd c' G) \<and> same_job c c' \<and> others_same fd v v'"

definition bench_read_post :: "u64 \<Rightarrow> int \<Rightarrow> net_view \<Rightarrow> bench_conn \<Rightarrow> bench_stats \<Rightarrow> record_of_replies \<Rightarrow> record_of_replies \<Rightarrow> bool \<Rightarrow>
    net_view \<Rightarrow> bench_conn \<Rightarrow> bench_stats \<Rightarrow> bool" where
  "bench_read_post depth fd v c st G H fail v' c' st' \<longleftrightarrow> turn_post depth fd v c (G @ H) fail v' c' \<and> stats_are st' (G @ H) \<and>
     (\<forall>g \<in> set H. fst g = fd) \<and> bs_errors st' = bs_errors st"

text \<open>One chunk from the socket.\<close>

lemma chunk_ok:
  assumes "bench_conn_ok depth v fd c G" "stats_are st G" "\<not> dec_error (feed (bc_dec c) data)"
    "bench_replies now (dec_msg (feed (bc_dec c) data)) (c\<lparr>bc_dec := (feed (bc_dec c) data)\<lparr>dec_msg := []\<rparr>\<rparr>, st) = (c', st')"
    "nv_sent v' = nv_sent v" "nv_rcvd v' = (nv_rcvd v)(fd := nv_rcvd v fd @ data)"
  shows "\<exists>H. bench_read_post depth fd v c st G H False v' c' st'"
proof -
  let ?d = "feed (bc_dec c) data"
  let ?c = "c\<lparr>bc_dec := ?d\<lparr>dec_msg := []\<rparr>\<rparr>"
  note ok = assms(1) [unfolded bench_conn_ok_def]
  have "ledger fd c G" using ok by blast
  then have l: "ledger fd ?c G" by (rule ledger_cong) (simp_all add: same_job_def)
  have "bc_fd ?c = fd" using ok by simp
  from bench_replies_ok [OF l this assms(2,4)] obtain H where H:
    "ledger fd c' (G @ H)" "stats_are st' (G @ H)" "\<forall>g \<in> set H. fst g = fd" "replies fd H = dec_msg ?d"
    "bc_fd c' = fd" "bc_next_id c' = bc_next_id ?c" "same_job ?c c'" "bc_finished c' = bc_finished ?c" "bc_outbuf c' = bc_outbuf ?c"
    "bc_dec c' = bc_dec ?c" "unat (bc_inflight c') \<le> unat (bc_inflight ?c)" "bs_errors st' = bs_errors st" by blast
  have "decoding v fd c G" using ok by blast
  then have "parse (nv_rcvd v fd @ data) = (replies fd G @ dec_msg ?d, pending ?d, dec_error ?d)" "feed_inv ?d"
    using feed_parse feed_inv_feed unfolding decoding_def by blast+
  then have "decoding v' fd c' (G @ H)" using H(4,10) assms(3,6) by (simp add: decoding_def pending_def feed_inv_def)
  moreover have "on_wire v' fd c'" using ok H(6,7,9) assms(5) by (simp add: on_wire_def same_job_def)
  ultimately have "bench_conn_ok depth v' fd c' (G @ H)" using ok H by (simp add: bench_conn_ok_def same_job_def)
  then show ?thesis using H assms(5,6) by (intro exI [of _ H]) (simp add: bench_read_post_def turn_post_def others_same_def same_job_def)
qed

lemma bench_read_post_none: "bench_conn_ok depth v fd c G \<or> fail \<Longrightarrow> stats_are st G \<Longrightarrow> v' = v \<Longrightarrow> bench_read_post depth fd v c st G [] fail v' c st"
  by (auto simp: bench_read_post_def turn_post_def same_job_def others_same_def)

lemma bench_read_post_trans:
  "bench_read_post depth fd v c st G H False v' c' st' \<Longrightarrow> bench_read_post depth fd v' c' st' (G @ H) H' fail v'' c'' st'' \<Longrightarrow>
   bench_read_post depth fd v c st G (H @ H') fail v'' c'' st''"
  by (auto simp: bench_read_post_def turn_post_def same_job_def others_same_def)

section \<open>The loops over the socket\<close>

text \<open>Besides what the server needs of the kernel, the client needs interruptions of \<open>recv\<close> to be
  finite in number.\<close>

locale net_contract_client = net_contract_finite +
  assumes recv_intr_budget: "net_recv net fd k w = (n, data, w') \<Longrightarrow> n < 0 \<Longrightarrow> net_errno net w' = EINTR \<Longrightarrow> budget w' < budget w"

interpretation mnet: net_contract_client mnet_os mn_view mnet_budget
  by unfold_locales
    (auto simp: mnet_recv_def mnet_budget_def Let_def split: list.splits recv_answer.splits if_splits)

lemma mnet_contract_client: "net_contract_client mnet_os mn_view mnet_budget"
  by (rule mnet.net_contract_client_axioms)

context net_contract_client
begin

lemma flush_out_result:
  assumes "bc_fd c = fd"
  shows "\<exists>ok k w'. flush_out net c w = Some (ok, c\<lparr>bc_outbuf := drop k (bc_outbuf c)\<rparr>, w') \<and> nv_rcvd (nv w') = nv_rcvd (nv w) \<and>
    nv_sent (nv w') = (nv_sent (nv w))(fd := nv_sent (nv w) fd @ take k (bc_outbuf c))"
  using assms
proof (induction "length (bc_outbuf c)" arbitrary: c w rule: less_induct)
  case outer: (less c)
  show ?case
  proof (induction "budget w" arbitrary: w rule: less_induct)
    case (less w)
    note loop = flush_out.simps [of net c w]
    obtain n w1 where sd: "net_send net fd (bc_outbuf c) w = (n, w1)" by fastforce
    have stop: ?case if "nv w1 = nv w" "flush_out net c w = Some (b, c, w1)" for b
      using that by (intro exI [of _ b] exI [of _ 0] exI [of _ w1]) simp
    show ?case
    proof (cases "bc_outbuf c = []")
      case True
      then have "flush_out net c w = Some (True, c\<lparr>bc_outbuf := drop 0 (bc_outbuf c)\<rparr>, w)" using loop by simp
      then show ?thesis by (intro exI [of _ True] exI [of _ 0] exI [of _ w]) simp
    next
      case False
      consider (some) "0 < n" "n \<le> int (length (bc_outbuf c))" "nv_rcvd (nv w1) = nv_rcvd (nv w)"
          "nv_sent (nv w1) = (nv_sent (nv w))(fd := nv_sent (nv w) fd @ take (nat n) (bc_outbuf c))"
        | (intr) "n = -1" "nv w1 = nv w" "net_errno net w1 = EINTR" | (err) "n = -1" "nv w1 = nv w" "net_errno net w1 \<noteq> EINTR"
        using send_law [OF False sd] by (auto simp: send_ok_def)
      then show ?thesis
      proof cases
        case some
        let ?c = "c\<lparr>bc_outbuf := drop (nat n) (bc_outbuf c)\<rparr>"
        have "length (bc_outbuf ?c) < length (bc_outbuf c)" using some(1) False by simp
        from outer.hyps [OF this, of w1] outer.prems obtain ok k w' where r:
          "flush_out net ?c w1 = Some (ok, ?c\<lparr>bc_outbuf := drop k (bc_outbuf ?c)\<rparr>, w')" "nv_rcvd (nv w') = nv_rcvd (nv w1)"
          "nv_sent (nv w') = (nv_sent (nv w1))(fd := nv_sent (nv w1) fd @ take k (bc_outbuf ?c))" by auto
        have "flush_out net c w = flush_out net ?c w1" using loop sd some(1) False outer.prems by simp
        moreover have "drop k (drop (nat n) (bc_outbuf c)) = drop (nat n + k) (bc_outbuf c)" by (simp add: add.commute)
        ultimately show ?thesis using r some(3,4)
          by (intro exI [of _ ok] exI [of _ "nat n + k"] exI [of _ w']) (simp add: take_add del: drop_drop)
      next
        case intr
        have "budget w1 < budget w" using send_budget [of fd "bc_outbuf c" w w1] sd intr(1,3) by simp
        from less.hyps [OF this] show ?thesis using loop sd intr False outer.prems by simp
      next
        case err
        then show ?thesis using loop sd False outer.prems stop [OF err(2)] by auto
      qed
    qed
  qed
qed

lemma set_events_same:
  assumes "set_events net ep c want w = (c', w')"
  shows "nv_sent (nv w') = nv_sent (nv w) \<and> nv_rcvd (nv w') = nv_rcvd (nv w) \<and> nv_open (nv w') = nv_open (nv w) \<and>
    (\<exists>e. c' = c\<lparr>bc_ev_cur := e\<rparr>)"
proof (cases "want = bc_ev_cur c")
  case True
  then have "c' = c\<lparr>bc_ev_cur := bc_ev_cur c\<rparr>" "w' = w" using assms by (simp_all add: set_events_def)
  then show ?thesis by blast
next
  case False
  obtain n w1 where ctl: "net_ctl net ep (if bc_ev_cur c = 0 then CTL_ADD else CTL_MOD) (bc_fd c) want w = (n, w1)" by fastforce
  then show ?thesis using ctl_streams [OF ctl] assms False by (auto simp: set_events_def)
qed

lemma conn_ok_sent:
  assumes "bench_conn_ok depth v fd c G" "nv_sent v' fd = nv_sent v fd @ take k (bc_outbuf c)" "nv_rcvd v' fd = nv_rcvd v fd"
  shows "bench_conn_ok depth v' fd (c\<lparr>bc_outbuf := drop k (bc_outbuf c)\<rparr>) G"
  using assms by (simp add: bench_conn_ok_def on_wire_def decoding_def ledger_def)

lemma conn_ok_events:
  assumes "bench_conn_ok depth v fd c G" "nv_sent v' fd = nv_sent v fd" "nv_rcvd v' fd = nv_rcvd v fd"
  shows "bench_conn_ok depth v' fd (c\<lparr>bc_ev_cur := e\<rparr>) G"
  using assms by (simp add: bench_conn_ok_def on_wire_def decoding_def ledger_def)

lemma flush_turn:
  assumes "bench_conn_ok depth (nv w) fd c G"
  shows "\<exists>ok c' w'. (case flush_out net c w of None \<Rightarrow> None | Some (ok, c, w) \<Rightarrow> if \<not> ok then Some (False, c, w)
        else case set_events net ep c (bench_want c) w of (c, w) \<Rightarrow> Some (True, c, w)) = Some (ok, c', w') \<and>
      turn_post depth fd (nv w) c G (\<not> ok) (nv w') c'"
proof -
  have "bc_fd c = fd" using assms by (simp add: bench_conn_ok_def)
  from flush_out_result [OF this, of w] obtain ok k w1 where f: "flush_out net c w = Some (ok, c\<lparr>bc_outbuf := drop k (bc_outbuf c)\<rparr>, w1)"
    "nv_rcvd (nv w1) = nv_rcvd (nv w)" "nv_sent (nv w1) = (nv_sent (nv w))(fd := nv_sent (nv w) fd @ take k (bc_outbuf c))" by blast
  let ?c = "c\<lparr>bc_outbuf := drop k (bc_outbuf c)\<rparr>"
  have c: "bench_conn_ok depth (nv w1) fd ?c G" using conn_ok_sent [OF assms] f by simp
  show ?thesis
  proof (cases ok)
    case False
    then show ?thesis using f by (auto simp: turn_post_def same_job_def others_same_def)
  next
    case True
    obtain c2 w2 where s: "set_events net ep ?c (bench_want ?c) w1 = (c2, w2)" by fastforce
    note e = set_events_same [OF s]
    then have "bench_conn_ok depth (nv w2) fd c2 G" using conn_ok_events [OF c] by auto
    then have "turn_post depth fd (nv w) c G False (nv w2) c2"
      using f e by (auto simp: turn_post_def same_job_def others_same_def)
    then show ?thesis using f(1) s True by (intro exI [of _ True] exI [of _ c2] exI [of _ w2]) simp
  qed
qed

lemma pump_send_turn:
  assumes "bench_conn_ok depth (nv w) fd c G"
  shows "\<exists>ok c' w'. pump_send net ep clock c depth w = Some (ok, c', w') \<and> turn_post depth fd (nv w) c G (\<not> ok) (nv w') c'"
proof -
  note p = pump_fill_ok [OF assms, of clock]
  from flush_turn [OF conjunct1 [OF p], of ep] obtain ok c' w' where
    "pump_send net ep clock c depth w = Some (ok, c', w')" "turn_post depth fd (nv w) (pump_fill clock depth c) G (\<not> ok) (nv w') c'"
    unfolding pump_send_def by blast
  then show ?thesis using p same_job_trans by (auto simp: turn_post_def)
qed

lemma bench_out_turn:
  assumes "bench_conn_ok depth (nv w) fd c G"
  shows "\<exists>fail c' w'. bench_out net ep e c w = Some (fail, c', w') \<and> turn_post depth fd (nv w) c G fail (nv w') c'"
proof (cases "e AND (EPOLLERR OR EPOLLHUP) \<noteq> 0")
  case True
  then show ?thesis by (auto simp: bench_out_def turn_post_def same_job_def others_same_def)
next
  case F: False
  show ?thesis
  proof (cases "e AND EPOLLOUT \<noteq> 0")
    case False
    then show ?thesis using F assms by (auto simp: bench_out_def turn_post_def same_job_def others_same_def)
  next
    case True
    from flush_turn [OF assms, of ep] obtain ok c' w' where
      "(case flush_out net c w of None \<Rightarrow> None | Some (ok, c, w) \<Rightarrow> if \<not> ok then Some (False, c, w)
        else case set_events net ep c (bench_want c) w of (c, w) \<Rightarrow> Some (True, c, w)) = Some (ok, c', w')"
      "turn_post depth fd (nv w) c G (\<not> ok) (nv w') c'" by blast
    then have "bench_out net ep e c w = Some (\<not> ok, c', w')"
      using F True by (auto simp: bench_out_def split: option.splits prod.splits if_splits)
    then show ?thesis using \<open>turn_post depth fd (nv w) c G (\<not> ok) (nv w') c'\<close> by blast
  qed
qed

lemma bench_pump_turn:
  assumes "\<not> fail \<Longrightarrow> bench_conn_ok depth (nv w) fd c G"
  shows "\<exists>fail' c' w'. bench_pump net ep clock depth fail c w = Some (fail', c', w') \<and> turn_post depth fd (nv w) c G fail' (nv w') c'"
proof (cases "\<not> fail \<and> \<not> bc_finished c \<and> bc_done_cnt c < bc_per_conn c")
  case True
  then obtain ok c' w' where "pump_send net ep clock c depth w = Some (ok, c', w')" "turn_post depth fd (nv w) c G (\<not> ok) (nv w') c'"
    using pump_send_turn assms by blast
  then show ?thesis using True by (auto simp: bench_pump_def)
next
  case False
  then show ?thesis using assms by (auto simp: bench_pump_def turn_post_def same_job_def others_same_def)
qed

lemma bench_read_turn:
  assumes "bench_conn_ok depth (nv w) fd c G" "stats_are st G"
  shows "\<exists>fail c' st' w' H. bench_read net now c st w = Some (fail, c', st', w') \<and> bench_read_post depth fd (nv w) c st G H fail (nv w') c' st'"
  using assms
proof (induction "budget w" arbitrary: c st w G rule: less_induct)
  case less
  note loop = bench_read.simps [of net now c st w]
  have fd: "bc_fd c = fd" using less.prems(1) by (simp add: bench_conn_ok_def)
  obtain n buf w1 where rd: "net_recv net fd 65536 w = (n, buf, w1)" by (metis prod_cases3)
  have stop: ?case if "bench_read net now c st w = Some (fail, c, st, w1)" "nv w1 = nv w" for fail
    using that bench_read_post_none [of depth "nv w" fd c G fail st "nv w1"] less.prems by blast
  consider (data) "0 < n" "nv w1 = (nv w)\<lparr>nv_rcvd := (nv_rcvd (nv w))(fd := nv_rcvd (nv w) fd @ buf)\<rparr>"
    | (eof) "n = 0" "nv w1 = nv w" | (fails) "n = -1" "nv w1 = nv w"
    using recv_law [OF rd] by (auto simp: recv_ok_def)
  then show ?case
  proof cases
    case eof
    then show ?thesis using loop rd fd by (intro stop) simp_all
  next
    case fails
    show ?thesis
    proof (cases "net_errno net w1 = EINTR")
      case True
      have "budget w1 < budget w" using recv_intr_budget [OF rd] fails(1) True by simp
      from less.hyps [OF this, of c G st] less.prems show ?thesis using loop rd fd fails True by simp
    next
      case False
      have "bench_read net now c st w = Some (\<not> (net_errno net w1 = EAGAIN \<or> net_errno net w1 = EWOULDBLOCK), c, st, w1)"
        using loop rd fd fails(1) False by simp
      then show ?thesis using fails(2) by (rule stop)
    qed
  next
    case data
    let ?d = "feed (bc_dec c) buf"
    show ?thesis
    proof (cases "dec_error ?d")
      case True
      then have "bench_read net now c st w = Some (True, c\<lparr>bc_dec := ?d\<rparr>, st, w1)" using loop rd fd data(1) by (simp add: brokenmessage_def Let_def)
      then show ?thesis using less.prems(2) data(2)
        by (intro exI [of _ True] exI [of _ "c\<lparr>bc_dec := ?d\<rparr>"] exI [of _ st] exI [of _ w1] exI [of _ "[]"])
          (simp add: bench_read_post_def turn_post_def same_job_def others_same_def)
    next
      case False
      obtain c1 st1 where r: "bench_replies (now w1) (dec_msg ?d) (c\<lparr>bc_dec := ?d\<lparr>dec_msg := []\<rparr>\<rparr>, st) = (c1, st1)" by fastforce
      obtain H where H: "bench_read_post depth fd (nv w) c st G H False (nv w1) c1 st1"
        using chunk_ok [OF less.prems False r, of "nv w1"] data(2) by auto
      have step: "bench_read net now c st w = (if bc_done_cnt c1 \<ge> bc_per_conn c1 then Some (False, c1, st1, w1) else bench_read net now c1 st1 w1)"
        using loop rd fd data(1) False r by (simp add: brokenmessage_def take_msgs_def Let_def)
      show ?thesis
      proof (cases "bc_done_cnt c1 \<ge> bc_per_conn c1")
        case True
        then show ?thesis using step H by auto
      next
        case more: False
        have "budget w1 < budget w" using recv_budget [OF rd] data(1) by simp
        moreover have "bench_conn_ok depth (nv w1) fd c1 (G @ H)" "stats_are st1 (G @ H)" using H by (simp_all add: bench_read_post_def turn_post_def)
        ultimately obtain fail c' st' w' H' where "bench_read net now c1 st1 w1 = Some (fail, c', st', w')"
          "bench_read_post depth fd (nv w1) c1 st1 (G @ H) H' fail (nv w') c' st'" using less.hyps by blast
        moreover from this have "bench_read_post depth fd (nv w) c st G (H @ H') fail (nv w') c' st'" using bench_read_post_trans [OF H] by blast
        ultimately show ?thesis using step more by auto
      qed
    qed
  qed
qed

lemma bench_in_turn:
  assumes "turn_post depth fd v c0 G fail (nv w) c" "stats_are st G"
  shows "\<exists>fail' c' st' w' H. bench_in net now e fail c st w = Some (fail', c', st', w') \<and> bench_read_post depth fd v c0 st G H fail' (nv w') c' st'"
proof (cases "\<not> fail \<and> e AND EPOLLIN \<noteq> 0")
  case True
  then have "bench_conn_ok depth (nv w) fd c G" using assms(1) by (simp add: turn_post_def)
  from bench_read_turn [OF this assms(2), of now] obtain fail' c' st' w' H where
    "bench_read net now c st w = Some (fail', c', st', w')" "bench_read_post depth fd (nv w) c st G H fail' (nv w') c' st'" by blast
  then show ?thesis using True assms(1)
    by (intro exI [of _ fail'] exI [of _ c'] exI [of _ st'] exI [of _ w'] exI [of _ H])
      (auto simp: bench_in_def bench_read_post_def turn_post_def same_job_def others_same_def)
next
  case False
  then show ?thesis using assms
    by (intro exI [of _ fail] exI [of _ c] exI [of _ st] exI [of _ w] exI [of _ "[]"]) (auto simp: bench_in_def bench_read_post_def)
qed

end

end
