(* ===== verification/BenchClient_verdict.thy ===== *)
theory BenchClient_verdict
  imports BenchClient_safety "HOL-Library.Multiset"
begin

text \<open>
  The whole run of the measuring client: the connections of the connecting phase are fresh, each event of
  the measuring phase keeps the invariant of every connection and the sums, and a connection leaves
  the table only failed or complete.
\<close>

section \<open>All connections\<close>

definition job :: "u64 \<Rightarrow> nat \<Rightarrow> bool \<Rightarrow> bench_conn \<Rightarrow> bool" where
  "job per_conn sz check c \<longleftrightarrow> bc_per_conn c = per_conn \<and> bc_size c = sz \<and> bc_check c = check"

definition complete :: "u64 \<Rightarrow> u64 \<Rightarrow> nat \<Rightarrow> bool \<Rightarrow> net_view \<Rightarrow> int \<Rightarrow> record_of_replies \<Rightarrow> bool" where
  "complete depth per_conn sz check v fd G \<longleftrightarrow>
     (\<exists>c. bench_conn_ok depth v fd c G \<and> job per_conn sz check c \<and> bc_per_conn c \<le> bc_done_cnt c \<and> bc_outbuf c = [])"

definition table_ok :: "u64 \<Rightarrow> u64 \<Rightarrow> nat \<Rightarrow> bool \<Rightarrow> int list \<Rightarrow> net_view \<Rightarrow> (int \<rightharpoonup> bench_conn) \<Rightarrow> int list \<Rightarrow> record_of_replies \<Rightarrow> bool" where
  "table_ok depth per_conn sz check fds v M F G \<longleftrightarrow> dom M \<subseteq> set fds \<and>
     (\<forall>fd c. M fd = Some c \<longrightarrow> bench_conn_ok depth v fd c G \<and> job per_conn sz check c) \<and>
     (\<forall>fd \<in> set fds. fd \<in> dom M \<or> fd \<in> set F \<or> complete depth per_conn sz check v fd G)"

definition bench_inv :: "u64 \<Rightarrow> u64 \<Rightarrow> nat \<Rightarrow> bool \<Rightarrow> int list \<Rightarrow> net_view \<Rightarrow> bench \<Rightarrow> int list \<Rightarrow> record_of_replies \<Rightarrow> bool" where
  "bench_inv depth per_conn sz check fds v b F G \<longleftrightarrow>
     table_ok depth per_conn sz check fds v (map_of (be_cs b)) F G \<and>
     be_alive b = card (dom (map_of (be_cs b))) \<and> length F + be_alive b \<le> length fds \<and>
     bs_errors (be_stats b) = of_nat (length F) \<and> stats_are (be_stats b) G \<and> (\<forall>g \<in> set G. fst g \<in> set fds)"

text \<open>The turn of one descriptor does not touch the others.\<close>

lemma conn_ok_other:
  assumes "bench_conn_ok depth v f c G" "f \<noteq> fd" "others_same fd v v'" "\<forall>g \<in> set H. fst g = fd"
  shows "bench_conn_ok depth v' f c (G @ H)"
proof -
  have "filter (\<lambda>g. fst g = f \<and> P g) H = []" for P using assms(2,4) by (auto simp: filter_empty_conv)
  then have "replies f (G @ H) = replies f G" "answered f (G @ H) = answered f G"
    using assms(2,4) by (auto simp: replies_def answered_def filter_empty_conv)
  then show ?thesis using assms by (auto simp: bench_conn_ok_def on_wire_def decoding_def ledger_def others_same_def)
qed

lemma complete_other:
  "complete depth per_conn sz check v f G \<Longrightarrow> f \<noteq> fd \<Longrightarrow> others_same fd v v' \<Longrightarrow> \<forall>g \<in> set H. fst g = fd \<Longrightarrow>
   complete depth per_conn sz check v' f (G @ H)"
  unfolding complete_def using conn_ok_other by blast

lemma table_others:
  assumes "table_ok depth per_conn sz check fds v M F G" "M fd = Some c0" "others_same fd v v'" "\<forall>g \<in> set H. fst g = fd"
    and "\<And>c. X = Some c \<Longrightarrow> bench_conn_ok depth v' fd c (G @ H) \<and> job per_conn sz check c"
    and "X \<noteq> None \<or> fd \<in> set F' \<or> complete depth per_conn sz check v' fd (G @ H)" "set F \<subseteq> set F'"
  shows "table_ok depth per_conn sz check fds v' (M(fd := X)) F' (G @ H)"
proof -
  note t = assms(1) [unfolded table_ok_def]
  have fd: "fd \<in> set fds" using t assms(2) by blast
  have "(M(fd := X)) f = Some c \<Longrightarrow> bench_conn_ok depth v' f c (G @ H) \<and> job per_conn sz check c" for f c
    using t assms(5) conn_ok_other [OF _ _ assms(3,4), of depth f c G] by (cases "f = fd") auto
  moreover have "f \<in> set fds \<Longrightarrow> f \<in> dom (M(fd := X)) \<or> f \<in> set F' \<or> complete depth per_conn sz check v' f (G @ H)" for f
    using t assms(6,7) complete_other [OF _ _ assms(3,4), of depth per_conn sz check f G] by (cases "f = fd") auto
  moreover have "dom (M(fd := X)) \<subseteq> set fds" using t fd by (auto split: if_splits)
  ultimately show ?thesis unfolding table_ok_def by blast
qed

lemma finite_dom_map_of_card:
  assumes "map_of cs fd = Some c"
  shows "card (dom ((map_of cs)(fd := None))) = card (dom (map_of cs)) - 1" "card (dom ((map_of cs)(fd \<mapsto> c'))) = card (dom (map_of cs))"
    "1 \<le> card (dom (map_of cs))"
proof -
  have "fd \<in> dom (map_of cs)" using assms by blast
  then show "card (dom ((map_of cs)(fd := None))) = card (dom (map_of cs)) - 1" "card (dom ((map_of cs)(fd \<mapsto> c'))) = card (dom (map_of cs))"
    "1 \<le> card (dom (map_of cs))"
    using finite_dom_map_of [of cs] by (auto simp: insert_absorb Suc_le_eq card_gt_0_iff)
qed

context net_contract
begin

lemma bench_drop_streams:
  "nv_sent (nv (bench_drop net ep fd w)) = nv_sent (nv w) \<and> nv_rcvd (nv (bench_drop net ep fd w)) = nv_rcvd (nv w) \<and>
   nv_open (nv (bench_drop net ep fd w)) = nv_open (nv w) - {fd}"
proof -
  obtain n w1 where c: "net_ctl net ep CTL_DEL fd 0 w = (n, w1)" by fastforce
  obtain m w2 where d: "net_close net fd w1 = (m, w2)" by fastforce
  show ?thesis using ctl_streams [OF c] close_law [OF d] c d by (simp add: bench_drop_def close_fd_ok_def)
qed

end

context net_contract_client
begin

text \<open>What one event did to its connection before the end of the turn.\<close>

lemma bench_close_inv:
  assumes "bench_inv depth per_conn sz check fds v b F G" "map_of (be_cs b) fd = Some c0"
    and "turn_post depth fd v c0 (G @ H) fail (nv w) c" "stats_are st (G @ H)" "\<forall>g \<in> set H. fst g = fd" "bs_errors st = bs_errors (be_stats b)"
  shows "\<exists>F'. bench_inv depth per_conn sz check fds (nv (snd (bench_close net ep fd fail c (b\<lparr>be_stats := st\<rparr>) w)))
    (fst (bench_close net ep fd fail c (b\<lparr>be_stats := st\<rparr>) w)) F' (G @ H)"
proof -
  note inv = assms(1) [unfolded bench_inv_def] and card = finite_dom_map_of_card [OF assms(2)]
  have t: "table_ok depth per_conn sz check fds v (map_of (be_cs b)) F G" using inv by blast
  have fd: "fd \<in> set fds" "job per_conn sz check c0" using t assms(2) unfolding table_ok_def by blast+
  have g: "\<forall>g \<in> set (G @ H). fst g \<in> set fds" using inv fd(1) assms(5) by auto
  have post: "others_same fd v (nv w)" "job per_conn sz check c" "\<not> fail \<Longrightarrow> bench_conn_ok depth (nv w) fd c (G @ H)"
    using assms(3) fd(2) by (simp_all add: turn_post_def job_def same_job_def)
  let ?w = "bench_drop net ep fd w"
  note drop = bench_drop_streams [of ep fd w]
  have o: "others_same fd v (nv ?w)" using post(1) drop by (simp add: others_same_def)
  have ok: "\<not> fail \<Longrightarrow> bench_conn_ok depth (nv ?w) fd c (G @ H)"
    using post(3) drop by (simp add: bench_conn_ok_def on_wire_def decoding_def)
  consider (fails) fail | (full) "\<not> fail" "bc_done_cnt c \<ge> bc_per_conn c \<and> bc_inflight c = 0 \<and> bc_outbuf c = []"
    | (stays) "\<not> fail" "\<not> (bc_done_cnt c \<ge> bc_per_conn c \<and> bc_inflight c = 0 \<and> bc_outbuf c = [])" by blast
  then show ?thesis
  proof cases
    case fails
    have "table_ok depth per_conn sz check fds (nv ?w) ((map_of (be_cs b))(fd := None)) (F @ [fd]) (G @ H)"
      using table_others [OF t assms(2) o assms(5), of None "F @ [fd]"] by (simp add: subset_insertI)
    then have "bench_inv depth per_conn sz check fds (nv (snd (bench_close net ep fd fail c (b\<lparr>be_stats := st\<rparr>) w)))
        (fst (bench_close net ep fd fail c (b\<lparr>be_stats := st\<rparr>) w)) (F @ [fd]) (G @ H)"
      using fails inv assms(4,6) card g by (simp add: bench_close_def bench_inv_def delete_conv' stats_are_def)
    then show ?thesis ..
  next
    case full
    have "complete depth per_conn sz check (nv ?w) fd (G @ H)" using ok full post(2) unfolding complete_def by blast
    then have "table_ok depth per_conn sz check fds (nv ?w) ((map_of (be_cs b))(fd := None)) F (G @ H)"
      using table_others [OF t assms(2) o assms(5), of None F] by simp
    then have "bench_inv depth per_conn sz check fds (nv (snd (bench_close net ep fd fail c (b\<lparr>be_stats := st\<rparr>) w)))
        (fst (bench_close net ep fd fail c (b\<lparr>be_stats := st\<rparr>) w)) F (G @ H)"
      using full inv assms(4,6) card g by (auto simp: bench_close_def bench_inv_def delete_conv')
    then show ?thesis ..
  next
    case stays
    have "table_ok depth per_conn sz check fds (nv w) ((map_of (be_cs b))(fd := Some c)) F (G @ H)"
      using table_others [OF t assms(2) post(1) assms(5), of "Some c" F] post stays(1) by simp
    moreover have "bench_close net ep fd fail c (b\<lparr>be_stats := st\<rparr>) w = (b\<lparr>be_stats := st, be_cs := AList.update fd c (be_cs b)\<rparr>, w)"
      using stays by (auto simp: bench_close_def)
    ultimately have "bench_inv depth per_conn sz check fds (nv (snd (bench_close net ep fd fail c (b\<lparr>be_stats := st\<rparr>) w)))
        (fst (bench_close net ep fd fail c (b\<lparr>be_stats := st\<rparr>) w)) F (G @ H)"
      using inv assms(4,6) card(2) [of c] g by (simp add: bench_inv_def update_conv')
    then show ?thesis ..
  qed
qed

lemma bench_event_inv:
  assumes "bench_inv depth per_conn sz check fds (nv w) b F G"
  shows "\<exists>b' w' F' G'. bench_event net ep now clock depth ev b w = Some (b', w') \<and> bench_inv depth per_conn sz check fds (nv w') b' F' G'"
proof -
  obtain fd e where ev: "ev = (fd, e)" by fastforce
  show ?thesis
  proof (cases "map_of (be_cs b) fd")
    case None
    then show ?thesis using assms by (auto simp: bench_event_def ev)
  next
    case (Some c)
    have ok: "bench_conn_ok depth (nv w) fd c G" "stats_are (be_stats b) G" using assms Some by (simp_all add: bench_inv_def table_ok_def)
    obtain fail1 c1 w1 where 1: "bench_out net ep e c w = Some (fail1, c1, w1)" "turn_post depth fd (nv w) c G fail1 (nv w1) c1"
      using bench_out_turn [OF ok(1)] by blast
    obtain fail2 c2 st w2 H where 2: "bench_in net now e fail1 c1 (be_stats b) w1 = Some (fail2, c2, st, w2)"
      "bench_read_post depth fd (nv w) c (be_stats b) G H fail2 (nv w2) c2 st" using bench_in_turn [OF 1(2) ok(2)] by blast
    have "\<not> fail2 \<Longrightarrow> bench_conn_ok depth (nv w2) fd c2 (G @ H)" using 2(2) by (simp add: bench_read_post_def turn_post_def)
    then obtain fail3 c3 w3 where 3: "bench_pump net ep clock depth fail2 c2 w2 = Some (fail3, c3, w3)"
      "turn_post depth fd (nv w2) c2 (G @ H) fail3 (nv w3) c3" using bench_pump_turn by blast
    have "turn_post depth fd (nv w) c (G @ H) fail3 (nv w3) c3"
      using 2(2) 3(2) by (auto simp: bench_read_post_def turn_post_def same_job_def others_same_def)
    moreover obtain b' w' where 4: "bench_close net ep fd fail3 c3 (b\<lparr>be_stats := st\<rparr>) w3 = (b', w')" by fastforce
    ultimately obtain F' where "bench_inv depth per_conn sz check fds (nv w') b' F' (G @ H)"
      using bench_close_inv [OF assms Some, of H fail3 w3 c3 st ep] 2(2) unfolding bench_read_post_def by auto
    moreover have "bench_event net ep now clock depth ev b w = Some (b', w')"
      using Some 1(1) 2(1) 3(1) 4 by (simp add: bench_event_def ev)
    ultimately show ?thesis by blast
  qed
qed

lemma bench_events_inv:
  assumes "bench_inv depth per_conn sz check fds (nv w) b F G"
  shows "\<exists>b' w' F' G'. bench_events net ep now clock depth evs b w = Some (b', w') \<and> bench_inv depth per_conn sz check fds (nv w') b' F' G'"
  using assms
proof (induction evs arbitrary: b w F G)
  case Nil
  then show ?case by auto
next
  case (Cons ev evs)
  from bench_event_inv [OF Cons.prems] obtain b1 w1 F1 G1 where 1: "bench_event net ep now clock depth ev b w = Some (b1, w1)"
    "bench_inv depth per_conn sz check fds (nv w1) b1 F1 G1" by blast
  from Cons.IH [OF this(2)] 1(1) show ?case by simp
qed

lemma bench_loop_inv:
  assumes "bench_inv depth per_conn sz check fds (nv w) b F G"
  shows "\<exists>b' w' F' G'. bench_loop net ep now clock depth waits b w = Some (b', w') \<and> bench_inv depth per_conn sz check fds (nv w') b' F' G'"
  using assms
proof (induction waits arbitrary: b w F G)
  case Nil
  then show ?case by auto
next
  case (Cons evs waits)
  show ?case
  proof (cases "be_alive b = 0")
    case True
    then show ?thesis using Cons.prems by auto
  next
    case False
    from bench_events_inv [OF Cons.prems] obtain b1 w1 F1 G1 where 1: "bench_events net ep now clock depth evs b w = Some (b1, w1)"
      "bench_inv depth per_conn sz check fds (nv w1) b1 F1 G1" by blast
    from Cons.IH [OF this(2)] 1(1) False show ?thesis by simp
  qed
qed

text \<open>The first messages.\<close>

lemma bench_start_ok:
  assumes "\<forall>(fd, c) \<in> set cs. bench_conn_ok depth (nv w) fd c G \<and> job per_conn sz check c" "distinct (map fst cs)"
  shows "\<exists>ok cs' w'. bench_start net ep clock depth cs w = Some (ok, cs', w') \<and> map fst cs' = map fst cs \<and>
    (\<forall>f. f \<notin> fst ` set cs \<longrightarrow> nv_sent (nv w') f = nv_sent (nv w) f \<and> nv_rcvd (nv w') f = nv_rcvd (nv w) f) \<and>
    (ok \<longrightarrow> (\<forall>(fd, c) \<in> set cs'. bench_conn_ok depth (nv w') fd c G \<and> job per_conn sz check c))"
  using assms
proof (induction cs arbitrary: w)
  case Nil
  then show ?case by (auto intro: exI [of _ True])
next
  case (Cons x cs)
  obtain fd c where x: "x = (fd, c)" by fastforce
  have "bench_conn_ok depth (nv w) fd c G" using Cons.prems(1) x by simp
  from pump_send_turn [OF this, of ep clock] obtain ok c1 w1 where 1: "pump_send net ep clock c depth w = Some (ok, c1, w1)"
    "turn_post depth fd (nv w) c G (\<not> ok) (nv w1) c1" by blast
  show ?case
  proof (cases ok)
    case False
    then show ?thesis using 1 by (intro exI [of _ False] exI [of _ "(fd, c1) # cs"] exI [of _ w1]) (auto simp: x turn_post_def others_same_def)
  next
    case True
    have "\<forall>(f, c) \<in> set cs. bench_conn_ok depth (nv w1) f c G \<and> job per_conn sz check c"
    proof (intro ballI, clarify)
      fix f c' assume "(f, c') \<in> set cs"
      moreover from this have "f \<noteq> fd" using Cons.prems(2) x by force
      ultimately show "bench_conn_ok depth (nv w1) f c' G \<and> job per_conn sz check c'"
        using Cons.prems(1) 1(2) conn_ok_other [of depth "nv w" f c' G fd "nv w1" "[]"] by (auto simp: turn_post_def)
    qed
    from Cons.IH [OF this] Cons.prems(2) obtain ok' cs' w' where r: "bench_start net ep clock depth cs w1 = Some (ok', cs', w')" "map fst cs' = map fst cs"
      "\<forall>f. f \<notin> fst ` set cs \<longrightarrow> nv_sent (nv w') f = nv_sent (nv w1) f \<and> nv_rcvd (nv w') f = nv_rcvd (nv w1) f"
      "ok' \<longrightarrow> (\<forall>(fd, c) \<in> set cs'. bench_conn_ok depth (nv w') fd c G \<and> job per_conn sz check c)" by auto
    have nin: "fd \<notin> fst ` set cs" using Cons.prems(2) x by simp
    then have same: "nv_sent (nv w') fd = nv_sent (nv w1) fd" "nv_rcvd (nv w') fd = nv_rcvd (nv w1) fd" using r(3) by simp_all
    have "bench_conn_ok depth (nv w1) fd c1 G" "job per_conn sz check c1"
      using 1(2) True Cons.prems(1) x by (auto simp: turn_post_def job_def same_job_def)
    then have "bench_conn_ok depth (nv w') fd c1 G" "job per_conn sz check c1"
      using same by (simp_all add: bench_conn_ok_def on_wire_def decoding_def)
    then show ?thesis using r 1 True nin
      by (intro exI [of _ ok'] exI [of _ "(fd, c1) # cs'"] exI [of _ w']) (auto simp: x turn_post_def others_same_def)
  qed
qed

end

section \<open>The connecting phase\<close>

locale client_contract = net_contract_client +
  fixes cl :: "'w client_os"
  assumes connect_law: "cl_connect cl fd i port w = (r, w') \<Longrightarrow> nv w' = nv w"
    and so_error_law: "cl_so_error cl fd w = (e, w') \<Longrightarrow> nv w' = nv w"

definition mnet_cl :: "mnet client_os" where
  "mnet_cl = \<lparr>cl_connect = (\<lambda>fd i port w. (0, w)), cl_so_error = (\<lambda>fd w. (0, w))\<rparr>"

interpretation mnet: client_contract mnet_os mn_view mnet_budget mnet_cl
  by unfold_locales (simp_all add: mnet_cl_def)

lemma mnet_client_contract: "client_contract mnet_os mn_view mnet_budget mnet_cl"
  by (rule mnet.client_contract_axioms)

text \<open>A connection of this phase is open and nothing was sent or received on it.\<close>

definition fresh_conn :: "u64 \<Rightarrow> nat \<Rightarrow> bool \<Rightarrow> net_view \<Rightarrow> int \<Rightarrow> bench_conn \<Rightarrow> bool" where
  "fresh_conn per_conn sz check v fd c \<longleftrightarrow> fd \<in> nv_open v \<and> nv_sent v fd = [] \<and> nv_rcvd v fd = [] \<and>
     (\<exists>e b. c = (bench_conn_new fd per_conn sz check)\<lparr>bc_ev_cur := e, bc_connecting := b\<rparr>)"

definition fresh_table :: "u64 \<Rightarrow> nat \<Rightarrow> bool \<Rightarrow> net_view \<Rightarrow> (int \<times> bench_conn) list \<Rightarrow> bool" where
  "fresh_table per_conn sz check v cs \<longleftrightarrow> distinct (map fst cs) \<and>
     (\<forall>fd c. map_of cs fd = Some c \<longrightarrow> fresh_conn per_conn sz check v fd c)"

lemma fresh_conn_ok:
  "fresh_conn per_conn sz check v fd c \<Longrightarrow> bench_conn_ok depth v fd c [] \<and> job per_conn sz check c"
  by (auto simp: fresh_conn_def bench_conn_ok_def job_def bench_conn_new_def on_wire_def decoding_def ledger_def feed_inv_init
      ids_below_def) (simp_all add: messagedecode_init_def pending_def)

lemma fresh_conn_upd:
  "fresh_conn per_conn sz check v fd c \<Longrightarrow> fresh_conn per_conn sz check v fd (c\<lparr>bc_ev_cur := e, bc_connecting := b\<rparr>)"
  by (auto simp: fresh_conn_def bench_conn_new_def)

lemma fresh_table_view:
  assumes "fresh_table per_conn sz check v cs" "nv_sent v' = nv_sent v" "nv_rcvd v' = nv_rcvd v" "nv_open v' = nv_open v"
  shows "fresh_table per_conn sz check v' cs"
  using assms by (simp add: fresh_table_def fresh_conn_def)

lemma fresh_table_delete:
  assumes "fresh_table per_conn sz check v cs" "nv_sent v' = nv_sent v" "nv_rcvd v' = nv_rcvd v" "nv_open v' = nv_open v - {fd}"
  shows "fresh_table per_conn sz check v' (AList.delete fd cs)"
  using assms by (auto simp: fresh_table_def fresh_conn_def delete_conv' distinct_delete split: if_splits)

lemma fresh_table_update:
  assumes "fresh_table per_conn sz check v cs" "fresh_conn per_conn sz check v fd c"
  shows "fresh_table per_conn sz check v (AList.update fd c cs)"
  using assms by (auto simp: fresh_table_def update_conv' distinct_update split: if_splits)

text \<open>A new descriptor leaves the open ones alone.\<close>

lemma fresh_table_open:
  assumes "fresh_table per_conn sz check v cs" "fresh_ok v fd v'" "0 \<le> fd"
  shows "fresh_table per_conn sz check v' cs" "map_of cs fd = None" "fd \<in> nv_open v'" "nv_sent v' fd = []" "nv_rcvd v' fd = []"
proof -
  have fd: "fd \<notin> nv_open v" "v' = v\<lparr>nv_open := insert fd (nv_open v), nv_sent := (nv_sent v)(fd := []),
             nv_rcvd := (nv_rcvd v)(fd := []), nv_events := (nv_events v)(fd := None), nv_count := (nv_count v)(fd := 0)\<rparr>"
    using assms(2,3) by (auto simp: fresh_ok_def)
  then show "fresh_table per_conn sz check v' cs" using assms(1) by (auto simp: fresh_table_def fresh_conn_def)
  show "map_of cs fd = None" using assms(1) fd(1) by (cases "map_of cs fd") (auto simp: fresh_table_def fresh_conn_def)
qed (use assms(2,3) in \<open>auto simp: fresh_ok_def\<close>)

definition established :: "(int \<times> bench_conn) list \<Rightarrow> int set" where
  "established cs = {fd. \<exists>c. map_of cs fd = Some c \<and> \<not> bc_connecting c}"

lemma established_card: "finite (established cs)" "card (established cs) \<le> card (dom (map_of cs))"
proof -
  have "established cs \<subseteq> dom (map_of cs)" by (auto simp: established_def)
  then show "finite (established cs)" "card (established cs) \<le> card (dom (map_of cs))"
    using finite_dom_map_of [of cs] by (auto intro: finite_subset card_mono)
qed

definition tried_ok :: "u64 \<Rightarrow> nat \<Rightarrow> bool \<Rightarrow> net_view \<Rightarrow> (int \<times> bench_conn) list \<Rightarrow> nat \<Rightarrow> nat \<Rightarrow> bool" where
  "tried_ok per_conn sz check v cs n k \<longleftrightarrow> fresh_table per_conn sz check v cs \<and> card (dom (map_of cs)) \<le> n \<and> card (established cs) = k"

lemma card_update:
  "card (dom (map_of (AList.update fd c cs))) \<le> card (dom (map_of cs)) + 1"
  "map_of cs fd = Some c0 \<Longrightarrow> card (dom (map_of (AList.update fd c cs))) = card (dom (map_of cs))"
  "card (dom (map_of (AList.delete fd cs))) \<le> card (dom (map_of cs))"
  using finite_dom_map_of [of cs] by (auto simp: update_conv' delete_conv' card_insert_if insert_absorb domIff card_mono)

lemma established_update:
  "bc_connecting c \<Longrightarrow> map_of cs fd = None \<Longrightarrow> established (AList.update fd c cs) = established cs"
  "map_of cs fd = Some c0 \<Longrightarrow> bc_connecting c0 \<Longrightarrow> established (AList.delete fd cs) = established cs"
  "map_of cs fd = Some c0 \<Longrightarrow> bc_connecting c0 \<Longrightarrow> \<not> bc_connecting c \<Longrightarrow>
   card (established (AList.update fd c cs)) = card (established cs) + 1"
proof -
  show "bc_connecting c \<Longrightarrow> map_of cs fd = None \<Longrightarrow> established (AList.update fd c cs) = established cs"
    "map_of cs fd = Some c0 \<Longrightarrow> bc_connecting c0 \<Longrightarrow> established (AList.delete fd cs) = established cs"
    by (auto simp: established_def update_conv' delete_conv')
  assume a: "map_of cs fd = Some c0" "bc_connecting c0" "\<not> bc_connecting c"
  then have "established (AList.update fd c cs) = insert fd (established cs)" "fd \<notin> established cs"
    by (auto simp: established_def update_conv' split: if_splits)
  then show "card (established (AList.update fd c cs)) = card (established cs) + 1" using established_card(1) [of cs] by simp
qed

context client_contract
begin

lemma nonblocking_view: "nv (snd (bench_nonblocking net fd w)) = nv w"
  by (auto simp: bench_nonblocking_def split: prod.splits dest!: getfl_law setfl_law)

lemma connect1_ok:
  assumes "tried_ok per_conn sz check (nv w) cs n 0" "bench_connect1 net cl ep port per_conn sz check i (cs, k, w) = (cs', k', w')"
  shows "tried_ok per_conn sz check (nv w') cs' (n + 1) 0"
proof -
  have t: "fresh_table per_conn sz check (nv w) cs" "card (dom (map_of cs)) \<le> n" "card (established cs) = 0"
    using assms(1) by (simp_all add: tried_ok_def)
  obtain fd w1 where s: "net_socket net w = (fd, w1)" by fastforce
  note fr = socket_law [OF s]
  show ?thesis
  proof (cases "fd < 0")
    case True
    then have "nv w1 = nv w" using fr by (auto simp: fresh_ok_def)
    then show ?thesis using assms(2) s True t by (simp add: bench_connect1_def tried_ok_def)
  next
    case False
    let ?w2 = "snd (bench_nonblocking net fd w1)" and ?c = "bench_conn_new fd per_conn sz check"
    obtain r w3 where c: "cl_connect cl fd (i mod 8 + 1) (word_of_int port) ?w2 = (r, w3)" by fastforce
    have v3: "nv w3 = nv w1" using connect_law [OF c] nonblocking_view by simp
    note op = fresh_table_open [OF t(1) fr, unfolded v3 [symmetric]]
    have new: "fresh_conn per_conn sz check (nv w3) fd ?c" "bc_connecting ?c"
      using op False by (auto simp: fresh_conn_def bench_conn_new_def)
    have none: "map_of cs fd = None" using op False by simp
    show ?thesis
    proof (cases "r < 0 \<and> net_errno net w3 \<noteq> EINPROGRESS")
      case True
      then have e: "cs' = AList.delete fd (AList.update fd ?c cs)" "w' = bench_drop net ep fd w3"
        using assms(2) s c False by (auto simp: bench_connect1_def Let_def)
      have m: "map_of cs' = map_of cs" using none by (auto simp: e delete_conv' update_conv' fun_eq_iff)
      have "fresh_table per_conn sz check (nv w3) (AList.update fd ?c cs)" using op(1) False new(1) by (intro fresh_table_update) auto
      then have "fresh_table per_conn sz check (nv w') cs'" unfolding e using bench_drop_streams by (intro fresh_table_delete) auto
      then show ?thesis using t m by (simp add: tried_ok_def established_def)
    next
      case ok: False
      obtain c4 w4 where se: "set_events net ep ?c EPOLLOUT w3 = (c4, w4)" by fastforce
      have e: "cs' = AList.update fd c4 cs" "w' = w4" using assms(2) s c False ok se by (auto simp: bench_connect1_def Let_def)
      obtain ev where c4: "c4 = ?c\<lparr>bc_ev_cur := ev\<rparr>" "nv_sent (nv w4) = nv_sent (nv w3)" "nv_rcvd (nv w4) = nv_rcvd (nv w3)" "nv_open (nv w4) = nv_open (nv w3)"
        using set_events_same [OF se] by blast
      have "fresh_conn per_conn sz check (nv w3) fd c4" using fresh_conn_upd [OF new(1), of True ev] c4(1) by (simp add: bench_conn_new_def)
      then have "fresh_table per_conn sz check (nv w3) cs'" using op(1) False unfolding e by (intro fresh_table_update) auto
      then have "fresh_table per_conn sz check (nv w') cs'" by (rule fresh_table_view) (use c4 e(2) in simp_all)
      moreover have "established cs' = established cs" unfolding e using none c4(1) new(2) by (intro established_update(1)) simp_all
      ultimately show ?thesis using t card_update(1) [of fd c4 cs] by (simp add: tried_ok_def e)
    qed
  qed
qed

lemma connect_ok:
  assumes "bench_connect net cl ep port conns per_conn sz check w = (cs, k, w')"
  shows "tried_ok per_conn sz check (nv w') cs conns 0"
proof -
  have "tried_ok per_conn sz check (nv (snd (snd (fold (bench_connect1 net cl ep port per_conn sz check) [0..<n] ([], 0, w)))))
      (fst (fold (bench_connect1 net cl ep port per_conn sz check) [0..<n] ([], 0, w))) n 0" for n
  proof (induction n)
    case 0
    then show ?case by (simp add: tried_ok_def fresh_table_def established_def)
  next
    case (Suc n)
    obtain cs k w1 where f: "fold (bench_connect1 net cl ep port per_conn sz check) [0..<n] ([], 0, w) = (cs, k, w1)" by (metis prod_cases3)
    obtain cs' k' w2 where c: "bench_connect1 net cl ep port per_conn sz check n (cs, k, w1) = (cs', k', w2)" by (metis prod_cases3)
    have "tried_ok per_conn sz check (nv w1) cs n 0" using Suc.IH f by simp
    from connect1_ok [OF this c] show ?case using f c by simp
  qed
  from this [of conns] show ?thesis using assms by (simp add: bench_connect_def)
qed

lemma connect_event_ok:
  assumes "tried_ok per_conn sz check (nv w) (co_cs p) n (co_connected p)" "connect_event net cl ep ev (p, w) = (p', w')"
  shows "tried_ok per_conn sz check (nv w') (co_cs p') n (co_connected p')"
proof -
  obtain fd e where ev: "ev = (fd, e)" by fastforce
  show ?thesis
  proof (cases "\<exists>c. map_of (co_cs p) fd = Some c \<and> bc_connecting c")
    case False
    then show ?thesis using assms by (auto simp: connect_event_def ev split: option.splits)
  next
    case True
    then obtain c where c: "map_of (co_cs p) fd = Some c" "bc_connecting c" by blast
    have t: "fresh_table per_conn sz check (nv w) (co_cs p)" "card (dom (map_of (co_cs p))) \<le> n" "card (established (co_cs p)) = co_connected p"
      using assms(1) by (simp_all add: tried_ok_def)
    obtain soerr w1 where so: "cl_so_error cl fd w = (soerr, w1)" by fastforce
    have v1: "nv w1 = nv w" using so_error_law [OF so] .
    show ?thesis
    proof (cases "e AND (EPOLLERR OR EPOLLHUP) \<noteq> 0 \<or> soerr \<noteq> 0")
      case True
      have e: "co_cs p' = AList.delete fd (co_cs p)" "co_connected p' = co_connected p" "w' = bench_drop net ep fd w1"
        using assms(2) ev c so True by (auto simp: connect_event_def)
      have "fresh_table per_conn sz check (nv w') (AList.delete fd (co_cs p))"
        using t(1) bench_drop_streams [of ep fd w1] v1 unfolding e(3) by (intro fresh_table_delete) auto
      then show ?thesis using t established_update(2) [OF c] card_update(3) [of fd "co_cs p"] by (simp add: tried_ok_def e)
    next
      case False
      obtain k w2 where k: "net_setsockopt net fd w1 = (k, w2)" by fastforce
      obtain c3 w3 where se: "set_events net ep c EPOLLIN w2 = (c3, w3)" by fastforce
      have e: "co_cs p' = AList.update fd (c3\<lparr>bc_connecting := False\<rparr>) (co_cs p)" "co_connected p' = co_connected p + 1" "w' = w3"
        using assms(2) ev c so False k se by (auto simp: connect_event_def)
      obtain ev where c3: "c3 = c\<lparr>bc_ev_cur := ev\<rparr>" "nv_sent (nv w3) = nv_sent (nv w)" "nv_rcvd (nv w3) = nv_rcvd (nv w)" "nv_open (nv w3) = nv_open (nv w)"
        using set_events_same [OF se] setsockopt_law [OF k] v1 by auto
      have "fresh_conn per_conn sz check (nv w) fd c" using t(1) c(1) by (simp add: fresh_table_def)
      from fresh_conn_upd [OF this, of False ev] have "fresh_table per_conn sz check (nv w) (co_cs p')"
        unfolding e(1) c3(1) using t(1) by (intro fresh_table_update) simp_all
      then have "fresh_table per_conn sz check (nv w') (co_cs p')" by (rule fresh_table_view) (use c3 e(3) in simp_all)
      then show ?thesis using t card_update(2) [OF c(1)] established_update(3) [OF c] by (simp add: tried_ok_def e)
    qed
  qed
qed

lemma connect_events_ok:
  "tried_ok per_conn sz check (nv w) (co_cs p) n (co_connected p) \<Longrightarrow> fold (connect_event net cl ep) evs (p, w) = (p', w') \<Longrightarrow>
   tried_ok per_conn sz check (nv w') (co_cs p') n (co_connected p')"
proof (induction evs arbitrary: p w)
  case (Cons ev evs)
  obtain p1 w1 where c: "connect_event net cl ep ev (p, w) = (p1, w1)" by fastforce
  show ?case using Cons.IH [OF connect_event_ok [OF Cons.prems(1) c]] Cons.prems(2) c by simp
qed simp

lemma connect_loop_ok:
  "tried_ok per_conn sz check (nv w) (co_cs p) n (co_connected p) \<Longrightarrow> connect_loop net cl ep conns waits (p, w) = (p', w') \<Longrightarrow>
   tried_ok per_conn sz check (nv w') (co_cs p') n (co_connected p')"
proof (induction waits arbitrary: p w)
  case (Cons evs waits)
  obtain p1 w1 where c: "fold (connect_event net cl ep) evs (p, w) = (p1, w1)" by fastforce
  show ?case using Cons.IH [OF connect_events_ok [OF Cons.prems(1) c]] Cons.prems c by (auto split: if_splits)
qed simp

end

section \<open>The verdict\<close>

text \<open>What PASS claims of a connection: the bytes sent are those of its messages, each once and in order, and of
  what came back, every message answers one of them and every one is answered once; with \<open>--check\<close> the
  replies are the messages sent, byte for byte. Their order is free.\<close>

definition answered_once :: "u64 \<Rightarrow> nat \<Rightarrow> bool \<Rightarrow> bytes \<Rightarrow> bytes \<Rightarrow> bool" where
  "answered_once per_conn sz check sent rcvd \<longleftrightarrow>
     sent = concat (map (\<lambda>i. encode (make_msg (of_nat i) sz)) [0..<unat per_conn]) \<and>
     (case parse rcvd of (ms, rest, bad) \<Rightarrow> \<not> bad \<and>
        mset (map read_le64 ms) = mset (map of_nat [0..<unat per_conn]) \<and>
        (check \<longrightarrow> mset ms = mset (map (\<lambda>i. make_msg (of_nat i) sz) [0..<unat per_conn])))"

lemma complete_exact:
  assumes "complete depth per_conn sz check v fd G" "\<forall>g \<in> set G. snd (snd g) = Good" "8 \<le> sz"
  shows "answered_once per_conn sz check (nv_sent v fd) (nv_rcvd v fd)"
proof -
  obtain c where c: "bench_conn_ok depth v fd c G" "job per_conn sz check c" "bc_per_conn c \<le> bc_done_cnt c" "bc_outbuf c = []"
    using assms(1) unfolding complete_def by blast
  have l: "ledger fd c G" using c(1) by (simp add: bench_conn_ok_def)
  let ?ids = "answered fd G" and ?ms = "replies fd G"
  have "unat (bc_next_id c) \<le> unat per_conn" "unat per_conn \<le> unat (bc_done_cnt c)"
    using c(1-3) by (simp_all add: bench_conn_ok_def job_def word_le_nat_alt)
  moreover have "unat (bc_done_cnt c) = length ?ids" using l by (simp add: ledger_def)
  ultimately have n: "card (dom (bc_pending c)) = 0" "unat (bc_next_id c) = unat per_conn" using ledger_counts(1) [OF l] by linarith+
  from n(1) have "dom (bc_pending c) = {}" using ledger_counts(2) [OF l] by (simp only: card_0_eq)
  then have ids: "distinct ?ids" "set ?ids = ids_below per_conn" using l n(2) by (simp_all add: ledger_def word_unat_eq_iff [symmetric])
  have "filter (\<lambda>g. fst g = fd \<and> snd (snd g) \<noteq> Extra) G = filter (\<lambda>g. fst g = fd) G"
    by (intro filter_cong) (use assms(2) in auto)
  then have all: "?ids = map read_le64 ?ms" by (simp add: answered_def replies_def)
  have "distinct (map (of_nat :: nat \<Rightarrow> u64) [0..<unat per_conn])"
    using of_nat_inj_below [of per_conn] by (simp add: distinct_map atLeast_upt)
  then have m: "mset ?ids = mset (map of_nat [0..<unat per_conn])"
    using ids ids_below_image [of per_conn] by (subst set_eq_iff_mset_eq_distinct [symmetric]) (auto simp: atLeast_upt)
  have "mset ?ms = mset (map (\<lambda>i. make_msg (of_nat i) sz) [0..<unat per_conn])" if check
  proof -
    have "reply_ok check sz g" if "g \<in> set G" "fst g = fd" for g using l c(2) that by (simp add: ledger_def job_def)
    then have "x = make_msg (read_le64 x) sz" if "x \<in> set ?ms" for x
      using that \<open>check\<close> assms(2,3) checked_reply [OF assms(3), of x] by (fastforce simp: replies_def reply_ok_def)
    then have "?ms = map (\<lambda>i. make_msg i sz) (map read_le64 ?ms)" by (simp add: map_idI)
    then have "mset ?ms = image_mset (\<lambda>i. make_msg i sz) (mset ?ids)" unfolding all by (metis mset_map)
    then show ?thesis unfolding m by (simp add: comp_def image_mset.compositionality)
  qed
  moreover have "nv_sent v fd = concat (map (\<lambda>i. encode (make_msg (of_nat i) sz)) [0..<unat per_conn])"
    using c(1,2,4) n(2) by (simp add: bench_conn_ok_def on_wire_def job_def)
  moreover have "parse (nv_rcvd v fd) = (?ms, pending (bc_dec c), False)" using c(1) by (simp add: bench_conn_ok_def decoding_def)
  ultimately show ?thesis using m all by (simp add: answered_once_def)
qed

lemma parse_count: "length (fst (parse bs)) \<le> length bs"
proof (induction bs rule: parse.induct)
  case (1 bs)
  show ?case using "1.IH" [OF _ refl] by (subst parse.simps) (auto simp: Let_def split: prod.splits)
qed

lemma length_replies:
  "finite A \<Longrightarrow> \<forall>g \<in> set G. fst g \<in> A \<Longrightarrow> length G = (\<Sum>fd \<in> A. length (replies fd G))"
proof (induction G)
  case (Cons g G)
  have "length (replies fd (g # G)) = (if fst g = fd then 1 else 0) + length (replies fd G)" for fd by (simp add: replies_def)
  then have "(\<Sum>fd \<in> A. length (replies fd (g # G))) = (\<Sum>fd \<in> A. (if fst g = fd then 1 else 0)) + (\<Sum>fd \<in> A. length (replies fd G))"
    by (simp add: sum.distrib)
  also have "\<dots> = 1 + length G" using Cons by (simp add: sum.delta)
  finally show ?case by simp
qed simp

lemma verdict_exact:
  assumes "bench_inv depth per_conn sz check fds v b F G" "bench_pass expected b" "distinct fds" "length fds < 2 ^ 64" "8 \<le> sz"
    and "(\<Sum>fd \<in> set fds. length (nv_rcvd v fd)) < 2 ^ 64"
  shows "\<forall>fd \<in> set fds. answered_once per_conn sz check (nv_sent v fd) (nv_rcvd v fd)"
proof -
  note inv = assms(1) [unfolded bench_inv_def] and pass = assms(2) [unfolded bench_pass_def]
  have zero: "n = 0" if "(of_nat n :: u64) = 0" "n < 2 ^ 64" for n
    using that unat_of_nat [where 'a = 64, of n] by simp
  have "length F = 0" by (rule zero) (use inv pass assms(4) in auto)
  then have F: "F = []" by simp
  have "dom (map_of (be_cs b)) = {}" using inv pass finite_dom_map_of [of "be_cs b"] by (metis card_0_eq)
  then have all: "\<forall>fd \<in> set fds. complete depth per_conn sz check v fd G" using inv F unfolding table_ok_def by auto
  have "length (replies fd G) \<le> length (nv_rcvd v fd)" if "fd \<in> set fds" for fd
  proof -
    have "complete depth per_conn sz check v fd G" using all that by blast
    then obtain rest where "parse (nv_rcvd v fd) = (replies fd G, rest, False)"
      by (auto simp: complete_def bench_conn_ok_def decoding_def)
    then show ?thesis using parse_count [of "nv_rcvd v fd"] by simp
  qed
  then have "length G \<le> (\<Sum>fd \<in> set fds. length (nv_rcvd v fd))"
    using length_replies [of "set fds" G] inv by (simp add: sum_mono)
  then have small: "count_of P G < 2 ^ 64" for P
    using assms(6) length_filter_le [of "\<lambda>g. P (snd (snd g))" G] unfolding count_of_def by linarith
  have "stats_are (be_stats b) G" using inv by blast
  then have "(of_nat (count_of (\<lambda>v. v = Extra) G) :: u64) = 0" "(of_nat (count_of (\<lambda>v. v = Tampered) G) :: u64) = 0"
    using pass unfolding stats_are_def by simp_all
  from zero [OF this(1) small] zero [OF this(2) small]
  have "count_of (\<lambda>v. v = Extra) G = 0" "count_of (\<lambda>v. v = Tampered) G = 0" .
  then have "\<forall>g \<in> set G. snd (snd g) \<noteq> Extra" "\<forall>g \<in> set G. snd (snd g) \<noteq> Tampered"
    unfolding count_of_def by (simp_all only: length_0_conv filter_empty_conv)
  then have "\<forall>g \<in> set G. snd (snd g) = Good" by (metis verdict.exhaust)
  then show ?thesis using all complete_exact assms(5) by blast
qed

context client_contract
begin

lemma measure_ok:
  assumes "tried_ok per_conn sz check (nv w) cs conns n" "conns \<le> n"
  shows "length cs = conns \<and> (\<exists>ok cs' w'. bench_start net ep clock depth cs w = Some (ok, cs', w') \<and>
    (ok \<longrightarrow> bench_inv depth per_conn sz check (map fst cs) (nv w') \<lparr>be_cs = cs', be_alive = length cs', be_stats = bench_stats_init\<rparr> [] []))"
proof -
  have t: "fresh_table per_conn sz check (nv w) cs" using assms(1) by (simp add: tried_ok_def)
  then have d: "distinct (map fst cs)" by (simp add: fresh_table_def)
  have len: "card (dom (map_of xs)) = length xs" if "distinct (map fst xs)" for xs :: "(int \<times> bench_conn) list"
    using that distinct_card [OF that] by (simp add: dom_map_of_conv_image_fst)
  have "length cs = conns" using assms established_card(2) [of cs] len [OF d] by (simp add: tried_ok_def)
  moreover have "\<forall>(fd, c) \<in> set cs. bench_conn_ok depth (nv w) fd c [] \<and> job per_conn sz check c"
  proof clarify
    fix fd c assume "(fd, c) \<in> set cs"
    then have "fresh_conn per_conn sz check (nv w) fd c" using t d by (simp add: fresh_table_def)
    then show "bench_conn_ok depth (nv w) fd c [] \<and> job per_conn sz check c" by (rule fresh_conn_ok)
  qed
  from bench_start_ok [OF this d, of ep clock] obtain ok cs' w' where s: "bench_start net ep clock depth cs w = Some (ok, cs', w')" "map fst cs' = map fst cs"
    "ok \<longrightarrow> (\<forall>(fd, c) \<in> set cs'. bench_conn_ok depth (nv w') fd c [] \<and> job per_conn sz check c)" by blast
  have d': "distinct (map fst cs')" using s(2) d by simp
  have k: "dom (map_of cs') = fst ` set cs" by (metis dom_map_of_conv_image_fst s(2) set_map)
  have "bench_inv depth per_conn sz check (map fst cs) (nv w') \<lparr>be_cs = cs', be_alive = length cs', be_stats = bench_stats_init\<rparr> [] []" if ok
    using that s(3) k len [OF d'] map_of_eq_Some_iff [OF d'] s(2)
    by (auto simp: bench_inv_def table_ok_def stats_are_def bench_stats_init_def dest: map_eq_imp_length_eq)
  then show ?thesis using s(1) calculation by blast
qed

lemma bench_main_sound:
  assumes "conns < 2 ^ 64" "8 \<le> sz"
  shows "\<exists>status w'. bench_main net cl now clock port conns per_conn sz check depth cwaits waits w = Some (status, w') \<and>
    (status = 0 \<longrightarrow> (\<exists>fds. distinct fds \<and> length fds = conns \<and>
       ((\<Sum>fd \<in> set fds. length (nv_rcvd (nv w') fd)) < 2 ^ 64 \<longrightarrow>
        (\<forall>fd \<in> set fds. answered_once per_conn sz check (nv_sent (nv w') fd) (nv_rcvd (nv w') fd)))))"
proof -
  obtain ep w1 where 1: "net_epoll_create net w = (ep, w1)" by fastforce
  show ?thesis
  proof (cases "ep < 0")
    case True
    then show ?thesis using 1 by (simp add: bench_main_def)
  next
    case ep: False
    obtain cs k w2 where 2: "bench_connect net cl ep port conns per_conn sz check w1 = (cs, k, w2)" by (metis prod_cases3)
    obtain p w3 where 3: "connect_loop net cl ep conns cwaits (\<lparr>co_cs = cs, co_connected = 0, co_connect_fail = k\<rparr>, w2) = (p, w3)" by fastforce
    have "tried_ok per_conn sz check (nv w3) (co_cs p) conns (co_connected p)"
      using connect_ok [OF 2] by (intro connect_loop_ok [OF _ 3]) simp
    note m = measure_ok [OF this]
    show ?thesis
    proof (cases "co_connected p < conns")
      case True
      then show ?thesis using 1 2 3 ep by (simp add: bench_main_def)
    next
      case conn: False
      then obtain ok cs' w4 where 4: "length (co_cs p) = conns" "bench_start net ep clock depth (co_cs p) w3 = Some (ok, cs', w4)"
        "ok \<longrightarrow> bench_inv depth per_conn sz check (map fst (co_cs p)) (nv w4) \<lparr>be_cs = cs', be_alive = length cs', be_stats = bench_stats_init\<rparr> [] []"
        using m by (metis not_less)
      show ?thesis
      proof (cases ok)
        case False
        then show ?thesis using 1 2 3 ep conn 4(2) by (simp add: bench_main_def)
      next
        case True
        let ?b = "\<lparr>be_cs = cs', be_alive = length cs', be_stats = bench_stats_init\<rparr>" and ?fds = "map fst (co_cs p)"
        have "bench_inv depth per_conn sz check ?fds (nv w4) ?b [] []" using 4(3) True by simp
        from bench_loop_inv [OF this] obtain b w5 F G where 5: "bench_loop net ep now clock depth waits ?b w4 = Some (b, w5)"
          "bench_inv depth per_conn sz check ?fds (nv w5) b F G" by blast
        obtain r w6 where 6: "net_close net ep w5 = (r, w6)" by fastforce
        have same: "nv_sent (nv w6) = nv_sent (nv w5)" "nv_rcvd (nv w6) = nv_rcvd (nv w5)" using close_law [OF 6] by (simp_all add: close_fd_ok_def)
        have run: "bench_main net cl now clock port conns per_conn sz check depth cwaits waits w =
            Some (if bench_pass (of_nat conns * per_conn) b then 0 else 1, w6)"
          using 1 2 3 ep conn 4(2) True 5(1) 6 by (simp add: bench_main_def)
        have d: "distinct ?fds" "length ?fds = conns"
          using \<open>tried_ok per_conn sz check (nv w3) (co_cs p) conns (co_connected p)\<close> 4(1) by (simp_all add: tried_ok_def fresh_table_def)
        have "\<forall>fd \<in> set ?fds. answered_once per_conn sz check (nv_sent (nv w6) fd) (nv_rcvd (nv w6) fd)"
          if "bench_pass (of_nat conns * per_conn) b" "(\<Sum>fd \<in> set ?fds. length (nv_rcvd (nv w6) fd)) < 2 ^ 64"
          unfolding same using that verdict_exact [OF 5(2) that(1) d(1)] d(2) assms same by simp
        then show ?thesis using run d
          by (intro exI [of _ "if bench_pass (of_nat conns * per_conn) b then 0 else 1"] exI [of _ w6] conjI impI exI [of _ ?fds])
            (auto simp del: set_map split: if_splits)
      qed
    qed
  qed
qed

end

section \<open>Properties\<close>

text \<open>The verdict of the measuring client is right: for every behaviour of the network and the
  server, every order of events and every point where the waiting ends, the run returns, and when
  the exit status is 0, every one of the \<open>conns\<close> connections was used fully: the bytes sent on it are its
  \<open>per_conn\<close> messages, each once and in order, and the bytes received are complete replies of which each message got
  one; with \<open>--check\<close> the replies are the messages themselves, byte for byte. (The counters are 64 bits wide, hence the bound
  on the bytes received.)\<close>

theorem bench_verdict:
  assumes "client_contract net nv budget cl" "conns < 2 ^ 64" "8 \<le> sz"
  shows "\<exists>status w'. bench_main net cl now clock port conns per_conn sz check depth cwaits waits w = Some (status, w') \<and>
    (status = 0 \<longrightarrow> (\<exists>fds. distinct fds \<and> length fds = conns \<and>
       ((\<Sum>fd \<in> set fds. length (nv_rcvd (nv w') fd)) < 2 ^ 64 \<longrightarrow>
        (\<forall>fd \<in> set fds. answered_once per_conn sz check (nv_sent (nv w') fd) (nv_rcvd (nv w') fd)))))"
  using assms by (rule client_contract.bench_main_sound)

text \<open>One connection, one message, echoed.\<close>

abbreviation demo_echo :: bytes where
  "demo_echo \<equiv> [0, 0, 0, 8, 0, 0, 0, 0, 0, 0, 0, 0]"

lemma demo_msg: "encode (make_msg 0 8) = demo_echo"
  by (simp add: make_msg_eq le64_def encode_def be64_def be32_def)

lemma demo_bench_feed: "dec_msg (feed messagedecode_init demo_echo) = [make_msg 0 8] \<and> \<not> dec_error (feed messagedecode_init demo_echo)"
proof -
  have "parse (encode (make_msg 0 8) @ []) = ([make_msg 0 8], [], False)" by (subst parse_encode) (simp_all add: messagemaxlen_eq)
  then have "view (feed messagedecode_init demo_echo) = ([make_msg 0 8], [], False)"
    using feed_view [OF feed_inv_init, of demo_echo] unfolding demo_msg by (simp add: messagedecode_init_def pending_def)
  then show ?thesis by (simp add: view_def)
qed

lemma demo_bench:
  "\<exists>w'. bench_main mnet_os mnet_cl (\<lambda>w. 0) (\<lambda>fd i. 0) 8888 1 1 8 True 1 [[(11, EPOLLOUT)]] [[(11, EPOLLIN)]]
     (mn_init [RData demo_echo] [] []) = Some (0, w') \<and> nv_rcvd (mn_view w') = (\<lambda>fd. [])(11 := demo_echo)"
  by (simp add: bench_main_def bench_connect_def bench_connect1_def bench_nonblocking_def bench_conn_new_def set_events_def mnet_cl_def
      connect_event_def epoll_flags pump_send_def pump_fill.simps demo_msg flush_out.simps bench_want_def bench_event_def bench_out_def
      bench_in_def bench_pump_def bench_close_def bench_drop_def bench_stats_init_def bench_pass_def mnet_eval
      bench_read.simps brokenmessage_def take_msgs_def bench_replies_def bench_reply_def check_msg_iff demo_bench_feed fun_eq_iff)

lemma bench_verdict_witness:
  "\<exists>fds w'. bench_main mnet_os mnet_cl (\<lambda>w. 0) (\<lambda>fd i. 0) 8888 1 1 8 True 1 [[(11, EPOLLOUT)]] [[(11, EPOLLIN)]]
     (mn_init [RData demo_echo] [] []) = Some (0, w') \<and> length fds = 1 \<and>
     (\<forall>fd \<in> set fds. answered_once 1 8 True (nv_sent (mn_view w') fd) (nv_rcvd (mn_view w') fd))"
proof -
  obtain w' where run: "bench_main mnet_os mnet_cl (\<lambda>w. 0) (\<lambda>fd i. 0) 8888 1 1 8 True 1 [[(11, EPOLLOUT)]] [[(11, EPOLLIN)]]
      (mn_init [RData demo_echo] [] []) = Some (0, w')" "nv_rcvd (mn_view w') = (\<lambda>fd. [])(11 := demo_echo)"
    using demo_bench by blast
  from bench_verdict [OF mnet_client_contract, of 1 8 "\<lambda>w. 0" "\<lambda>fd i. 0" 8888 1 True 1 "[[(11, EPOLLOUT)]]" "[[(11, EPOLLIN)]]"
      "mn_init [RData demo_echo] [] []"] run(1)
  obtain fds :: "int list" where "length fds = 1"
    "(\<Sum>fd \<in> set fds. length (nv_rcvd (mn_view w') fd)) < 2 ^ 64 \<longrightarrow>
       (\<forall>fd \<in> set fds. answered_once 1 8 True (nv_sent (mn_view w') fd) (nv_rcvd (mn_view w') fd))" by auto
  moreover from this(1) obtain fd where "fds = [fd]" by (cases fds) auto
  ultimately show ?thesis using run by (intro exI [of _ fds] exI [of _ w']) simp
qed

end
