(* ===== verification/BenchClient_args.thy ===== *)
theory BenchClient_args
  imports BenchClient_verdict Trace
begin

text \<open>
  The command line of \<open>src/bench_client.cpp\<close>, and the program from its arguments to its exit
  status. \<open>parse_args\<close> is the loop over \<open>argv\<close> with \<open>atoi\<close>, \<open>check_opts\<close> the tests after it. The lemmas
  show that the options are read back as they were written and that what passes the tests is
  in the ranges that the rest of the program relies on.
\<close>

section \<open>Numbers\<close>

text \<open>\<open>std::atoi\<close> in the C locale: white space, a sign, digits. Without digits it is 0; a value outside
  \<open>int\<close> is undefined, here \<open>None\<close>.\<close>

definition is_space :: "char \<Rightarrow> bool" where
  "is_space c \<longleftrightarrow> of_char c = (32 :: nat) \<or> (9 \<le> (of_char c :: nat) \<and> of_char c \<le> (13 :: nat))"

fun read_digits :: "int \<Rightarrow> string \<Rightarrow> int" where
  "read_digits acc [] = acc"
| "read_digits acc (c # cs) = (if is_digit c then read_digits (10 * acc + (of_char c - 48)) cs else acc)"

definition atoi :: "string \<Rightarrow> int option" where
  "atoi str = (let s = dropWhile is_space str;
       v = (if s \<noteq> [] \<and> hd s = CHR ''-'' then - read_digits 0 (tl s)
            else if s \<noteq> [] \<and> hd s = CHR ''+'' then read_digits 0 (tl s) else read_digits 0 s)
     in if - (2 ^ 31) \<le> v \<and> v < 2 ^ 31 then Some v else None)"

section \<open>Options\<close>

record bench_opts =
  bo_conns :: int
  bo_per_conn :: int
  bo_size :: int
  bo_depth :: int
  bo_port :: int
  bo_deadline_s :: int
  bo_check :: bool

definition bench_defaults :: bench_opts where
  "bench_defaults = \<lparr>bo_conns = 1, bo_per_conn = 100, bo_size = 64, bo_depth = 1, bo_port = 8888, bo_deadline_s = 120, bo_check = False\<rparr>"

text \<open>The variable that an option with a value sets.\<close>

definition set_opt :: "string \<Rightarrow> (int \<Rightarrow> bench_opts \<Rightarrow> bench_opts) option" where
  "set_opt a =
     (if a = ''-c'' then Some (\<lambda>v b. b\<lparr>bo_conns := v\<rparr>)
      else if a = ''-n'' then Some (\<lambda>v b. b\<lparr>bo_per_conn := v\<rparr>)
      else if a = ''-s'' then Some (\<lambda>v b. b\<lparr>bo_size := v\<rparr>)
      else if a = ''-d'' then Some (\<lambda>v b. b\<lparr>bo_depth := v\<rparr>)
      else if a = ''-p'' then Some (\<lambda>v b. b\<lparr>bo_port := v\<rparr>)
      else if a = ''-t'' then Some (\<lambda>v b. b\<lparr>bo_deadline_s := v\<rparr>)
      else None)"

text \<open>The loop over the arguments after the program's name: the options, or the exit status.\<close>

fun parse_args :: "string list \<Rightarrow> bench_opts \<Rightarrow> (int + bench_opts) option" where
  "parse_args [] b = Some (Inr b)"
| "parse_args (a # rest) b =
     (case set_opt a of
        Some put \<Rightarrow> (case rest of
            [] \<Rightarrow> Some (Inl 2)
          | v # rest' \<Rightarrow> (case atoi v of None \<Rightarrow> None | Some k \<Rightarrow> parse_args rest' (put k b)))
      | None \<Rightarrow> if a = ''--check'' then parse_args rest (b\<lparr>bo_check := True\<rparr>) else Some (Inl 2))"

definition check_opts :: "bench_opts \<Rightarrow> int + bench_opts" where
  "check_opts b =
     (if bo_conns b \<le> 0 \<or> bo_per_conn b \<le> 0 \<or> bo_depth b \<le> 0 \<or> bo_deadline_s b \<le> 0 then Inl 2
      else let b = (if bo_size b < 8 then b\<lparr>bo_size := 8\<rparr> else b)
        in if bo_size b > 65535 then Inl 2 else Inr b)"

text \<open>\<open>None\<close> is a value that \<open>atoi\<close> does not define. The deadlines are in the lists of events, which
  end there.\<close>

definition bench_program :: "'w net_os \<Rightarrow> 'w client_os \<Rightarrow> ('w \<Rightarrow> int) \<Rightarrow> (int \<Rightarrow> u64 \<Rightarrow> int) \<Rightarrow> string list \<Rightarrow>
    (int \<times> u32) list list \<Rightarrow> (int \<times> u32) list list \<Rightarrow> 'w \<Rightarrow> (int \<times> 'w) option" where
  "bench_program net cl now clock argv cwaits waits w =
     (case parse_args argv bench_defaults of
        None \<Rightarrow> None
      | Some (Inl status) \<Rightarrow> Some (status, w)
      | Some (Inr b) \<Rightarrow> (case check_opts b of
          Inl status \<Rightarrow> Some (status, w)
        | Inr b \<Rightarrow> bench_main net cl now clock (bo_port b) (nat (bo_conns b)) (word_of_int (bo_per_conn b)) (nat (bo_size b))
            (bo_check b) (word_of_int (bo_depth b)) cwaits waits w))"

section \<open>Writing and reading options\<close>

definition int_text :: "int \<Rightarrow> string" where
  "int_text v = (if v < 0 then CHR ''-'' # decimal (nat (- v)) else decimal (nat v))"

text \<open>A command line that gives every option.\<close>

definition command_line :: "bench_opts \<Rightarrow> string list" where
  "command_line b = [''-c'', int_text (bo_conns b), ''-n'', int_text (bo_per_conn b), ''-s'', int_text (bo_size b),
     ''-d'', int_text (bo_depth b), ''-p'', int_text (bo_port b), ''-t'', int_text (bo_deadline_s b)] @
     (if bo_check b then [''--check''] else [])"

definition opts_typed :: "bench_opts \<Rightarrow> bool" where
  "opts_typed b \<longleftrightarrow> (\<forall>v \<in> {bo_conns b, bo_per_conn b, bo_size b, bo_depth b, bo_port b, bo_deadline_s b}. - (2 ^ 31) \<le> v \<and> v < 2 ^ 31)"

lemma read_digits_append:
  "list_all is_digit xs \<Longrightarrow> read_digits acc (xs @ ys) = read_digits (read_digits acc xs) ys"
  by (induction xs arbitrary: acc) simp_all

lemma read_decimal: "read_digits 0 (decimal n) = int n"
proof (induction n rule: decimal.induct)
  case (1 n)
  show ?case
  proof (cases "n < 10")
    case True
    then show ?thesis by (simp add: decimal.simps [of n])
  next
    case False
    have "10 * int (n div 10) + int (n mod 10) = int (10 * (n div 10) + n mod 10)" by (simp only: of_nat_add of_nat_mult of_nat_numeral)
    then show ?thesis using 1 False by (simp add: decimal.simps [of n] read_digits_append decimal_digits)
  qed
qed

lemma decimal_head:
  obtains c cs where "decimal n = c # cs" "is_digit c"
  using decimal_digits [of n] decimal_nonempty [of n] by (cases "decimal n") auto

lemma digit_not_special: "is_digit c \<Longrightarrow> \<not> is_space c \<and> c \<noteq> CHR ''-'' \<and> c \<noteq> CHR ''+''"
  by (auto simp: is_digit_def is_space_def)

lemma atoi_int_text:
  assumes "- (2 ^ 31) \<le> v" "v < 2 ^ 31"
  shows "atoi (int_text v) = Some v"
proof -
  obtain c cs where d: "decimal (nat v) = c # cs" "is_digit c" by (rule decimal_head)
  have pos: "atoi (decimal (nat v)) = Some v" if "0 \<le> v"
  proof -
    have "read_digits 0 (c # cs) = v" using read_decimal [of "nat v"] that d(1) by simp
    then show ?thesis using assms digit_not_special [OF d(2)] by (simp add: d(1) atoi_def del: read_digits.simps)
  qed
  show ?thesis
  proof (cases "v < 0")
    case True
    then show ?thesis using assms read_decimal [of "nat (- v)"] by (simp add: int_text_def atoi_def is_space_def)
  next
    case False
    then show ?thesis using pos by (simp add: int_text_def)
  qed
qed

lemma parse_args_append:
  "parse_args xs b = Some (Inr b') \<Longrightarrow> parse_args (xs @ ys) b = parse_args ys b'"
proof (induction xs b rule: parse_args.induct)
  case (2 a rest b)
  show ?case
  proof (cases "set_opt a")
    case None
    then have a: "a = ''--check''" using "2.prems" by (simp split: if_splits)
    then have "parse_args rest (b\<lparr>bo_check := True\<rparr>) = Some (Inr b')" using "2.prems" None by simp
    from "2.IH"(1) [OF None a this] show ?thesis using None a by simp
  next
    case (Some put)
    then obtain v rest' k where v: "rest = v # rest'" "atoi v = Some k" "parse_args rest' (put k b) = Some (Inr b')"
      using "2.prems" by (auto split: list.splits option.splits)
    from "2.IH"(2) [OF Some v] show ?thesis using Some v(1,2) by simp
  qed
qed simp

lemma set_opt_simps [simp]:
  "set_opt ''-c'' = Some (\<lambda>v b. b\<lparr>bo_conns := v\<rparr>)" "set_opt ''-n'' = Some (\<lambda>v b. b\<lparr>bo_per_conn := v\<rparr>)"
  "set_opt ''-s'' = Some (\<lambda>v b. b\<lparr>bo_size := v\<rparr>)" "set_opt ''-d'' = Some (\<lambda>v b. b\<lparr>bo_depth := v\<rparr>)"
  "set_opt ''-p'' = Some (\<lambda>v b. b\<lparr>bo_port := v\<rparr>)" "set_opt ''-t'' = Some (\<lambda>v b. b\<lparr>bo_deadline_s := v\<rparr>)"
  "set_opt ''--check'' = None"
  by (simp_all add: set_opt_def)

lemma parse_command_line:
  assumes "opts_typed d"
  shows "parse_args (command_line d) b = Some (Inr (d\<lparr>bo_check := bo_check b \<or> bo_check d\<rparr>))"
proof -
  have t: "atoi (int_text v) = Some v" if "v \<in> {bo_conns d, bo_per_conn d, bo_size d, bo_depth d, bo_port d, bo_deadline_s d}" for v
    using assms that unfolding opts_typed_def by (intro atoi_int_text) blast+
  let ?b = "b\<lparr>bo_conns := bo_conns d, bo_per_conn := bo_per_conn d, bo_size := bo_size d, bo_depth := bo_depth d,
    bo_port := bo_port d, bo_deadline_s := bo_deadline_s d\<rparr>"
  have "parse_args (command_line d) b = Some (Inr (if bo_check d then ?b\<lparr>bo_check := True\<rparr> else ?b))"
    by (simp add: command_line_def t)
  then show ?thesis by (cases d; cases b) simp
qed

text \<open>What passes is in range.\<close>

lemma atoi_range: "atoi s = Some v \<Longrightarrow> - (2 ^ 31) \<le> v \<and> v < 2 ^ 31"
  by (auto simp: atoi_def Let_def split: if_splits)

lemma set_opt_typed:
  assumes "set_opt a = Some put" "- (2 ^ 31) \<le> v \<and> v < 2 ^ 31" "opts_typed b"
  shows "opts_typed (put v b)"
  using assms by (auto simp: set_opt_def opts_typed_def split: if_splits)

lemma parse_args_typed:
  "opts_typed b \<Longrightarrow> parse_args argv b = Some (Inr b') \<Longrightarrow> opts_typed b'"
proof (induction argv b rule: parse_args.induct)
  case (2 a rest b)
  show ?case
  proof (cases "set_opt a")
    case None
    then show ?thesis using 2 by (auto simp: opts_typed_def split: if_splits)
  next
    case (Some put)
    then obtain v rest' k where v: "rest = v # rest'" "atoi v = Some k" "parse_args rest' (put k b) = Some (Inr b')"
      using "2.prems"(2) by (auto split: list.splits option.splits)
    then show ?thesis using "2.IH"(2) [OF Some v(1,2)] set_opt_typed [OF Some atoi_range [OF v(2)] "2.prems"(1)] by blast
  qed
qed simp

text \<open>The loop ends the program in one way only: with status 2.\<close>

lemma parse_args_Inl:
  "parse_args argv b = Some (Inl status) \<Longrightarrow> status = 2"
proof (induction argv b rule: parse_args.induct)
  case (2 a rest b)
  show ?case
  proof (cases "set_opt a")
    case None
    then show ?thesis using 2 by (simp split: if_splits)
  next
    case (Some put)
    then show ?thesis using "2.prems" "2.IH"(2) [OF Some] by (auto split: list.splits option.splits)
  qed
qed simp

text \<open>The command lines that are accepted, whatever their numbers: known options, each with a value
  but \<open>--check\<close>.\<close>

fun args_accepted :: "string list \<Rightarrow> bool" where
  "args_accepted [] = True"
| "args_accepted [a] = (a = ''--check'')"
| "args_accepted (a # v # rest) =
     (if a = ''--check'' then args_accepted (v # rest)
      else a \<in> {''-c'', ''-n'', ''-s'', ''-d'', ''-p'', ''-t''} \<and> args_accepted rest)"

lemma set_opt_names:
  "a \<in> {''-c'', ''-n'', ''-s'', ''-d'', ''-p'', ''-t''} \<longleftrightarrow> (\<exists>put. set_opt a = Some put)"
  by (auto simp: set_opt_def)

lemma parse_args_accepted:
  "parse_args argv b = Some r \<Longrightarrow> args_accepted argv \<longleftrightarrow> (\<exists>b'. r = Inr b')"
proof (induction argv arbitrary: b rule: args_accepted.induct)
  case (2 a)
  then show ?case by (auto split: option.splits if_splits)
next
  case (3 a v rest)
  show ?case
  proof (cases "a = ''--check''")
    case True
    then have "parse_args (v # rest) (b\<lparr>bo_check := True\<rparr>) = Some r"
      using "3.prems" parse_args.simps(2) [of a "v # rest" b] by (simp del: parse_args.simps)
    from "3.IH"(1) [OF True this] True show ?thesis by simp
  next
    case False
    then show ?thesis using 3 set_opt_names [of a] by (auto split: option.splits)
  qed
qed auto

lemma defaults_typed: "opts_typed bench_defaults"
  by (simp add: opts_typed_def bench_defaults_def)

lemma check_opts_Inr:
  assumes "check_opts b = Inr b'"
  shows "0 < bo_conns b \<and> 0 < bo_per_conn b \<and> 0 < bo_depth b \<and> 0 < bo_deadline_s b \<and> bo_size b \<le> 65535 \<and> b' = b\<lparr>bo_size := max 8 (bo_size b)\<rparr>"
  using assms by (cases b) (auto simp: check_opts_def Let_def max_def split: if_splits)

lemma unat_of_int: "0 \<le> v \<Longrightarrow> v < 2 ^ 64 \<Longrightarrow> unat (word_of_int v :: u64) = nat v"
  by (simp add: unat_eq_nat_uint uint_word_of_int)

section \<open>Properties\<close>

text \<open>Property C39. The options are typed. Whatever the command line, if it is accepted, the numbers are in the ranges the
  program relies on: connections, messages, depth and deadline are positive \<open>int\<close>s and become the same number as unsigned 64-bit
  words, and every message has room for its id and fits into a frame, so that the decoder of
  the server takes it. A command line that gives every option is read back as it was meant.
\<close>

theorem bench_options:
  assumes "parse_args argv bench_defaults = Some (Inr b)" "check_opts b = Inr c" "opts_typed d"
  shows "unat (word_of_int (bo_per_conn c) :: u64) = nat (bo_per_conn c) \<and> 0 < nat (bo_per_conn c) \<and>
    unat (word_of_int (bo_depth c) :: u64) = nat (bo_depth c) \<and> 0 < nat (bo_depth c) \<and>
    0 < nat (bo_conns c) \<and> nat (bo_conns c) < 2 ^ 31 \<and> 0 < bo_deadline_s c \<and>
    parse (encode (make_msg i (nat (bo_size c)))) = ([make_msg i (nat (bo_size c))], [], False) \<and>
    parse_args (argv @ command_line d) bench_defaults = Some (Inr (d\<lparr>bo_check := bo_check b \<or> bo_check d\<rparr>))"
proof -
  note ok = check_opts_Inr [OF assms(2)] and typed = parse_args_typed [OF defaults_typed assms(1)]
  have s: "8 \<le> nat (bo_size c)" "nat (bo_size c) \<le> 65535" using ok by auto
  have "parse (encode (make_msg i (nat (bo_size c))) @ []) = ([make_msg i (nat (bo_size c))], [], False)"
    using s by (subst parse_encode) (simp_all add: messagemaxlen_eq)
  moreover have "parse_args (argv @ command_line d) bench_defaults = Some (Inr (d\<lparr>bo_check := bo_check b \<or> bo_check d\<rparr>))"
    using parse_args_append [OF assms(1)] parse_command_line [OF assms(3)] by simp
  moreover have "bo_per_conn c < 2 ^ 31" "bo_depth c < 2 ^ 31" "bo_conns c < 2 ^ 31" using ok typed by (simp_all add: opts_typed_def)
  ultimately show ?thesis using ok unat_of_int [of "bo_per_conn c"] unat_of_int [of "bo_depth c"] by simp
qed

theorem bench_options_witness:
  "check_opts (bench_defaults\<lparr>bo_conns := 2, bo_size := 3, bo_check := True\<rparr>) = Inr (bench_defaults\<lparr>bo_conns := 2, bo_size := 8, bo_check := True\<rparr>) \<and>
   parse (encode (make_msg 5 8)) = ([make_msg 5 8], [], False) \<and>
   parse_args ([''-c'', ''2'', ''-s'', '' +3x'', ''--check''] @ command_line bench_defaults) bench_defaults = Some (Inr (bench_defaults\<lparr>bo_check := True\<rparr>))"
proof -
  let ?b = "bench_defaults\<lparr>bo_conns := 2, bo_size := 3, bo_check := True\<rparr>"
  have p: "parse_args [''-c'', ''2'', ''-s'', '' +3x'', ''--check''] bench_defaults = Some (Inr ?b)"
    by (simp add: atoi_def is_space_def is_digit_def)
  have c: "check_opts ?b = Inr (bench_defaults\<lparr>bo_conns := 2, bo_size := 8, bo_check := True\<rparr>)"
    by (simp add: check_opts_def bench_defaults_def)
  from bench_options [OF p c defaults_typed, of 5] c show ?thesis by (simp add: bench_defaults_def)
qed

text \<open>Property C38. The program, from its arguments to its exit status. Unless a number is outside \<open>int\<close>, it returns, for every behaviour of
  the network and the server in which the data that arrive and the interruptions are finite (the \<open>budget\<close>: a
  server that never stops sending keeps the reading loop busy, which does not look at the deadline), and with memory for the tables.
  Arguments that are not accepted (an unknown option, a missing value, a number out of its range) give 2 and no socket is
  opened; 0 means that the checks were passed with positive numbers and that each of the connections
  asked for got every one of its messages answered once, in the size asked for (or 8), and with \<open>--check\<close> unchanged.
\<close>

theorem bench_program_verdict:
  assumes "client_contract net nv budget cl" "parse_args argv bench_defaults = Some r"
  shows "\<exists>status w'. bench_program net cl now clock argv cwaits waits w = Some (status, w') \<and>
    (\<not> args_accepted argv \<longrightarrow> status = 2 \<and> w' = w) \<and>
    (case r of
       Inl s \<Rightarrow> status = 2 \<and> w' = w
     | Inr b \<Rightarrow>
         (bo_conns b \<le> 0 \<or> bo_per_conn b \<le> 0 \<or> bo_depth b \<le> 0 \<or> bo_deadline_s b \<le> 0 \<or> bo_size b > 65535 \<longrightarrow> status = 2 \<and> w' = w) \<and>
         (status = 0 \<longrightarrow> 0 < bo_conns b \<and> 0 < bo_per_conn b \<and> (\<exists>fds. distinct fds \<and> int (length fds) = bo_conns b \<and>
           ((\<Sum>fd \<in> set fds. length (nv_rcvd (nv w') fd)) < 2 ^ 64 \<longrightarrow>
            (\<forall>fd \<in> set fds. answered_once (word_of_int (bo_per_conn b)) (nat (max 8 (bo_size b))) (bo_check b)
               (nv_sent (nv w') fd) (nv_rcvd (nv w') fd))))))"
proof (cases r)
  case (Inl s)
  then have "s = 2" using assms(2) parse_args_Inl by simp
  then show ?thesis using assms(2) Inl by (simp add: bench_program_def)
next
  case (Inr b)
  have acc: "args_accepted argv" using parse_args_accepted [OF assms(2)] Inr by blast
  show ?thesis
  proof (cases "check_opts b")
    case (Inl s)
    have "s = 2" using Inl by (auto simp: check_opts_def Let_def split: if_splits)
    then show ?thesis using assms(2) Inr Inl acc by (simp add: bench_program_def)
  next
    case opts: (Inr c)
    note ok = check_opts_Inr [OF opts] and typed = parse_args_typed [OF defaults_typed, of argv b]
    have n: "nat (bo_conns c) < 2 ^ 64" "8 \<le> nat (bo_size c)" using ok typed assms(2) Inr by (auto simp: opts_typed_def)
    obtain status w' where "bench_main net cl now clock (bo_port c) (nat (bo_conns c)) (word_of_int (bo_per_conn c)) (nat (bo_size c))
        (bo_check c) (word_of_int (bo_depth c)) cwaits waits w = Some (status, w')"
      "status = 0 \<longrightarrow> (\<exists>fds. distinct fds \<and> length fds = nat (bo_conns c) \<and>
       ((\<Sum>fd \<in> set fds. length (nv_rcvd (nv w') fd)) < 2 ^ 64 \<longrightarrow>
        (\<forall>fd \<in> set fds. answered_once (word_of_int (bo_per_conn c)) (nat (bo_size c)) (bo_check c) (nv_sent (nv w') fd) (nv_rcvd (nv w') fd))))"
      using client_contract.bench_main_sound [OF assms(1) n] by blast
    then show ?thesis using assms(2) Inr opts ok acc by (auto simp: bench_program_def)
  qed
qed

theorem bench_program_verdict_witness:
  "\<exists>w' fds. bench_program mnet_os mnet_cl (\<lambda>w. 0) (\<lambda>fd i. 0) [''-n'', ''1'', ''-s'', ''8'', ''--check''] [[(11, EPOLLOUT)]] [[(11, EPOLLIN)]]
     (mn_init [RData demo_echo] [] []) = Some (0, w') \<and> length fds = 1 \<and>
     ((\<Sum>fd \<in> set fds. length (nv_rcvd (mn_view w') fd)) < 2 ^ 64 \<longrightarrow>
       (\<forall>fd \<in> set fds. answered_once 1 8 True (nv_sent (mn_view w') fd) (nv_rcvd (mn_view w') fd)))"
proof -
  let ?b = "bench_defaults\<lparr>bo_per_conn := 1, bo_size := 8, bo_check := True\<rparr>"
  let ?argv = "[''-n'', ''1'', ''-s'', ''8'', ''--check'']"
  have p: "parse_args ?argv bench_defaults = Some (Inr ?b)"
    by (simp add: atoi_def is_space_def is_digit_def)
  obtain w' where run: "bench_main mnet_os mnet_cl (\<lambda>w. 0) (\<lambda>fd i. 0) 8888 1 1 8 True 1 [[(11, EPOLLOUT)]] [[(11, EPOLLIN)]]
      (mn_init [RData demo_echo] [] []) = Some (0, w')"
    using demo_bench by blast
  have "bench_program mnet_os mnet_cl (\<lambda>w. 0) (\<lambda>fd i. 0) ?argv [[(11, EPOLLOUT)]] [[(11, EPOLLIN)]] (mn_init [RData demo_echo] [] []) = Some (0, w')"
    using run unfolding bench_program_def p by (simp add: check_opts_def bench_defaults_def)
  with bench_program_verdict [OF mnet_client_contract p, of "\<lambda>w. 0" "\<lambda>fd i. 0" "[[(11, EPOLLOUT)]]" "[[(11, EPOLLIN)]]" "mn_init [RData demo_echo] [] []"]
  show ?thesis by (auto simp: bench_defaults_def)
qed

end
