(* ===== verification/Spec2Isabelle.thy ===== *)
theory Spec2Isabelle
  imports Prelude Codec Message File_io Zlib Segment Segment_recovery Commit_log
    ThreadPool Donequeue Net_io Net_connection Net_width Epoll Epoll_inv Epoll_safety Epoll_shutdown
    Epoll_answers Epoll_progress Epoll_instances
    ConnectionPool ConnectionGuard DbConnection DbConnection_safety ConnectionPool_safety
    Trace Logger BenchClient BenchClient_safety BenchClient_verdict BenchClient_args
begin

text \<open>
  \<^bold>\<open>A verification of the service infrastructure.\<close>

  \<^bold>\<open>The program.\<close> An epoll server with length-prefixed messages and a pool of workers, and a
  message log on disk (segments of frames, with recovery, and a commit log), a pool of database
  connections, a logger with trace ids, and a client that measures the server.
  \<^item> The event loop (\<open>src/Epoll.cpp\<close>) accepts sockets and owns one \<open>net::Connection\<close>
    (\<open>src/net/Connection.cpp\<close>) per descriptor. A connection feeds what it reads into a
    \<open>messagedecode\<close> (\<open>src/Message.cpp\<close>), gives every complete message to the
    \<open>ThreadPool\<close> (\<open>src/ThreadPool.cpp\<close>) and counts it in \<open>inflight\<close>. A worker runs the
    handler and pushes the response into the \<open>Donequeue\<close> (\<open>src/Donequeue.cpp\<close>), whose
    eventfd wakes the loop; the loop routes each response to the connection with its descriptor
    and connection id.
  \<^item> The log writes through the interface \<open>File_io\<close> (\<open>src/mq/io/File_io.cpp\<close>): \<open>Segment\<close>
    (\<open>src/Segment.cpp\<close>) appends frames behind a header, \<open>Segment_recovery\<close>
    (\<open>src/Segment_recovery.cpp\<close>) scans a segment and finds its valid end, \<open>Commitlog\<close>
    (\<open>src/Commit_log.cpp\<close>) appends fixed-size records and replays them when it is opened.
  \<^item> \<open>ConnectionPool\<close> (\<open>src/ConnectionPool.cpp\<close>) lends connections to tasks of its \<open>ThreadPool\<close>; a
    \<open>ConnectionGuard\<close> (\<open>src/ConnectionGuard.cpp\<close>) gives one back when it dies. \<open>Connection\<close> and
    \<open>Cursor\<close> (\<open>src/Connection.cpp\<close>, \<open>src/Cursor.cpp\<close>) wrap SQLite.
  \<^item> \<open>Logger\<close> (\<open>src/Logger.cpp\<close>) formats a line with the thread's trace id (\<open>src/Trace.cpp\<close>) and lets the
    one worker of a \<open>ThreadPool\<close> of its own write it.
  \<^item> \<open>bench_client.cpp\<close> opens many connections to the server, keeps a window of requests
    outstanding on each, checks what comes back with the same \<open>messagedecode\<close>, and prints a verdict.

  \<^bold>\<open>The theories.\<close>
  \<^item> \<open>Prelude\<close>: bytes, \<open>errno\<close>, writes into a byte string, lemmas shared by the components.
  \<^item> \<open>Codec\<close>: the big-endian readers and writers of \<open>Segment.cpp\<close>, with their round trips.
  \<^item> \<open>Message\<close>: \<open>encode\<close>, \<open>messagedecode\<close>; refinement of a parser on the whole stream.
  \<^item> \<open>File_io\<close>: the interface as a record of operations, \<open>PosixFileIo\<close> on parameters for the
    system calls; the locales \<open>os_contract\<close> and \<open>file_contract\<close> state what the calls promise
    (every one may fail or be short at any time), and an in-memory file system with a script of
    faults is an instance. Two locales extend it: \<open>file_contract_reads\<close> (reads of regular files are not
    short, and may fail) and \<open>file_contract_full\<close> (reads and \<open>fstat\<close> do not fail either); an
    instance of the first is a disk with a bad block.
  \<^item> \<open>Zlib\<close>: \<open>crc32\<close> as a parameter; what the code needs of it, and two instances.
  \<^item> \<open>Segment\<close>, \<open>Segment_recovery\<close>, \<open>Commit_log\<close>: the three classes, each operation with all its
    error paths; their lemmas are about any implementation of the file contract. Writers need no
    more than \<open>file_contract\<close>, the replay of the commit log \<open>file_contract_reads\<close>, the scanner
    \<open>file_contract_full\<close> (\<open>read_error_taken_for_torn\<close> and \<open>read_error_taken_for_corruption\<close> show
    what the two make of a read that fails).
  \<^item> \<open>ThreadPool\<close>: the operations as steps at the granularity of the mutex, \<open>pool_step\<close> their
    interleavings.
  \<^item> \<open>Donequeue\<close>: the queue and its eventfd, \<open>dq_step\<close> the interleavings of pushers and loop.
  \<^item> \<open>Net_io\<close>: the socket calls as parameters, the locale \<open>net_contract\<close>, and an instance.
  \<^item> \<open>Net_connection\<close>: \<open>net::Connection\<close>. \<open>Net_width\<close>: its sending side with the \<open>int\<close>s of the code,
    the same functions below \<open>2^31\<close> bytes of output; the property of one connection.
  \<^item> \<open>Epoll\<close>: the event loop; \<open>Epoll_inv\<close> its invariant, \<open>Epoll_safety\<close> the loop, the workers and
    the signal handler as one transition system, and its properties; \<open>Epoll_shutdown\<close> the descriptors
    and the end after a signal, over a contract for \<open>epoll_wait\<close> and the clock.
  \<^item> \<open>Epoll_answers\<close>: the ledger of every connection, from the bytes received to the bytes sent, over all
    steps of the system; \<open>Epoll_progress\<close>: the wake-up protocols composed, so that no request is slept on
    and every state can be completed; \<open>Epoll_instances\<close>: the list of servers, their handlers, the signal.
  \<^item> \<open>ConnectionPool\<close>: the critical sections of the pool over any factory of connections, \<open>cp_step\<close>
    their interleavings, where a task drops a bad connection in two steps, the counter under the lock
    and the \<open>delete\<close> after it; \<open>ConnectionPool_safety\<close> its invariant and what a task, a guard and
    the destructor can rely on. The time is in nanoseconds.
  \<^item> \<open>ConnectionGuard\<close>: the guard's members, and programs of guards as sequences of operations.
  \<^item> \<open>DbConnection\<close>: connections and cursors on a heap, SQLite a parameter; \<open>DbConnection_safety\<close> shows
    which SQLite objects are open, and that a connection of this kind is a factory for the pool.
  \<^item> \<open>Trace\<close>: the ids (a linear order), their text, the counter. \<open>Logger\<close>: the line, the choice of
    the file, the writing, in all interleavings.
  \<^item> \<open>BenchClient\<close>: the measuring client from its first socket to its exit status;
    \<open>BenchClient_safety\<close> the invariant of one connection, \<open>BenchClient_verdict\<close> of all, and the
    meaning of the exit status; \<open>BenchClient_args\<close> the command line and the program from there.
  \<^item> This theory: what the server sends back is what the client's verdict asks for.

  \<^bold>\<open>Conventions.\<close> A class is a record, a method a function that returns the new object and the
  new world \<open>'w\<close> next to its result. Machine integers are words of their width; file offsets
  (\<open>ssize_t\<close>) and descriptors are \<open>int\<close>, and lengths \<open>nat\<close>. A loop that ends for a reason the
  kernel does not control is a \<open>function\<close> with a measure; a loop that the kernel can prolong
  (\<open>EINTR\<close>, more data) is a partial function, where \<open>None\<close> is not returning, and its theorems
  show that it returns under a stated condition: that the kernel's answers of that kind are
  finite in number (\<open>net_contract_finite\<close>), or that one call is not interrupted.

  In \<open>Net_connection\<close> and the event loop above it, \<open>idx\<close> is a \<open>nat\<close> and \<open>inflight\<close> and the
  results of \<open>send\<close> are \<open>int\<close>s without a bound: they are the code's while a connection has fewer than
  \<open>2^31\<close> requests in flight and bytes of output, which \<open>Net_width\<close> states. The level \<open>Other_level\<close>
  of the logger stands for a value that is none of the enumerators.

  \<^bold>\<open>Not modelled.\<close> The logger's calls inside other components, \<open>perror\<close> and signal dispositions
  have no effect on the modelled state. Exhaustion of memory is left out (exceptions of \<open>new\<close>, of the
  containers, and of the two \<open>reserve\<close> calls of the measuring client). Of the measuring client, the printed statistics (floating point)
  are left out. \<open>main.cpp\<close> and \<open>test_client.cpp\<close> are test drivers with fixed or random data, and the
  tests are not part of the program.
\<close>

section \<open>Server and client together\<close>

text \<open>Property C5. Server and measuring client agree. If a client sends the \<open>n\<close> messages of
  \<open>bench_client\<close> to the server with the echo handler, then, once none is in flight and nothing is
  buffered, the bytes the server sent back are what the client's \<open>PASS\<close> stands for: each message
  exactly once, unchanged.
\<close>

theorem echo_round_trip:
  assumes "net_contract_accept net nv budget" "ep_reach net Some port (e, w, lost)"
    and "map_of (ep_status e) fd = Some c" "cn_inflight c = 0" "cn_Outbuffer c = []"
    and "nv_rcvd (nv w) fd = concat (map (\<lambda>i. encode (make_msg (of_nat i) sz)) [0..<unat n])"
    and "8 \<le> sz" "sz \<le> unat messagemaxlen"
  shows "answered_once n sz check (nv_rcvd (nv w) fd) (nv_sent (nv w) fd)"
proof -
  let ?ms = "map (\<lambda>i. make_msg (of_nat i) sz) [0..<unat n]"
  obtain ms rs where s: "in_step c (nv_rcvd (nv w) fd) ms" "nv_sent (nv w) fd = concat (map encode rs)"
    "image_mset Some (mset ms) = image_mset Some (mset rs)"
    using net_contract_accept.ledger [OF assms(1-3)] assms(4,5) by (auto simp: unsent_def)
  have "parse (nv_rcvd (nv w) fd) = (?ms, [], False)"
    using parse_encodes [of ?ms "[]"] assms(6-8) by (simp add: comp_def)
  then have "ms = ?ms" using s(1) by (simp add: in_step_def)
  then have rs: "mset rs = mset ?ms" using s(3) by (metis inj_Some multiset.inj_map_strong option.inject)
  then have "\<forall>m \<in> set rs. length m \<le> unat messagemaxlen"
    unfolding mset_eq_setD [OF rs] using assms(7,8) by auto
  then have "parse (nv_sent (nv w) fd) = (rs, [], False)" using parse_encodes [of rs "[]"] s(2) by simp
  moreover have "image_mset read_le64 (mset rs) = mset (map of_nat [0..<unat n])"
    unfolding rs using assms(7) by (simp add: comp_def flip: mset_map)
  ultimately show ?thesis unfolding answered_once_def using rs assms(6) by simp
qed

theorem echo_round_trip_witness:
  "\<exists>w. ep_reach mnet_os Some 80 (demo_loop [(14, run_conn (make_msg 0 8))] (pool_new 4) 1, w, {#}) \<and>
    answered_once 1 8 True (nv_rcvd (mn_view w) 14) (nv_sent (mn_view w) 14)"
proof -
  obtain w where r: "ep_reach mnet_os Some 80 (demo_loop [(14, run_conn (make_msg 0 8))] (pool_new 4) 1, w, {#})"
    "nv_rcvd (mn_view w) 14 = encode (make_msg 0 8)"
    using run_reach [of "make_msg 0 8"] by auto
  have "answered_once 1 8 True (nv_rcvd (mn_view w) 14) (nv_sent (mn_view w) 14)"
    by (rule echo_round_trip [OF mnet_contract_accept r(1), where c = "run_conn (make_msg 0 8)"])
      (use r(2) in \<open>simp_all add: demo_loop_def run_conn_def connection_new_def messagemaxlen_eq\<close>)
  with r(1) show ?thesis by blast
qed

end
